(* ===== verification/Prelude.thy ===== *)
theory Prelude
  imports Main "HOL-Library.Word" "HOL-Library.Multiset"
begin

text \<open>
  Shared vocabulary of the development: the machine types of the sources, the result type
  in which every failing path of the C++ code is a value, the decimal printing that
  \<^verbatim>\<open>std::to_string\<close> and \<^verbatim>\<open>operator<<\<close> do on unsigned integers, and the generic lemmas
  on results, lists and words that the component theories use.
\<close>

section \<open>Machine types\<close>

type_synonym byte = "8 word"
type_synonym uint8_t = "8 word"
type_synonym uint16_t = "16 word"
type_synonym uint32_t = "32 word"
type_synonym uint64_t = "64 word"
type_synonym size_t = "64 word"
type_synonym ptr = "64 word"

abbreviation (input) nullptr :: ptr where
  "nullptr \<equiv> 0"

text \<open>\<open>sizeof(void*)\<close> on the 64-bit targets the project is built for.\<close>

abbreviation (input) sizeof_ptr :: nat where
  "sizeof_ptr \<equiv> 8"

abbreviation (input) alignof_ptr :: nat where
  "alignof_ptr \<equiv> 8"

section \<open>Failures as values\<close>

text \<open>
  \<open>AssertFailed\<close> is a failing \<^verbatim>\<open>assert\<close> (the message is the one in the source), \<open>UB\<close> an
  operation whose behaviour C++ leaves undefined, \<open>BadWeakPtr\<close> the exception of
  \<^verbatim>\<open>shared_from_this\<close> on an object no shared pointer owns, and \<open>RuntimeError\<close> the
  exception class of the log file sink; \<open>Terminate\<close> is a call of \<^verbatim>\<open>std::terminate\<close>.
\<close>

datatype error =
    AssertFailed string
  | UB string
  | BadWeakPtr
  | RuntimeError string
  | Terminate string

type_synonym 'a result = "error + 'a"

text \<open>Sequencing: the first failure ends the computation, as \<^verbatim>\<open>abort\<close> or an exception does.\<close>

definition res_bind :: "'a result \<Rightarrow> ('a \<Rightarrow> 'b result) \<Rightarrow> 'b result" where
  "res_bind r f = (case r of Inl e \<Rightarrow> Inl e | Inr x \<Rightarrow> f x)"

definition assert_that :: "bool \<Rightarrow> string \<Rightarrow> unit result" where
  "assert_that b msg = (if b then Inr () else Inl (AssertFailed msg))"

named_theorems res_simps \<open>rewriting of sequenced computations\<close>
named_theorems wf_intros \<open>operations keep the well-formedness of their component\<close>

lemma res_bind_simps [simp, res_simps]:
  "res_bind (Inl e) f = Inl e"
  "res_bind (Inr x) f = f x"
  by (simp_all add: res_bind_def)

lemma res_bind_eq_Inr [res_simps]:
  "res_bind r f = Inr y \<longleftrightarrow> (\<exists>x. r = Inr x \<and> f x = Inr y)"
  by (cases r) auto

lemma res_bind_eq_Inl [res_simps]:
  "res_bind r f = Inl e \<longleftrightarrow> r = Inl e \<or> (\<exists>x. r = Inr x \<and> f x = Inl e)"
  by (cases r) auto

lemma res_bind_assoc: "res_bind (res_bind r f) g = res_bind r (\<lambda>x. res_bind (f x) g)"
  by (cases r) simp_all

lemma res_bind_cong [fundef_cong]:
  "r = r' \<Longrightarrow> (\<And>x. r' = Inr x \<Longrightarrow> f x = g x) \<Longrightarrow> res_bind r f = res_bind r' g"
  by (cases r') auto

lemma assert_that_simps [simp]:
  "b \<Longrightarrow> assert_that b msg = Inr ()"
  "\<not> b \<Longrightarrow> assert_that b msg = Inl (AssertFailed msg)"
  by (simp_all add: assert_that_def)

lemma assert_that_eq_Inr [simp]: "assert_that b msg = Inr u \<longleftrightarrow> b"
  by (simp add: assert_that_def)

text \<open>
  A call that waits on a condition variable until its predicate holds either blocks in the current
  state or returns.
\<close>

datatype 'a wait = Blocks | Returns 'a

section \<open>Time\<close>

text \<open>
  Time points and durations of the clocks are numbers of nanoseconds; \<^verbatim>\<open>duration_cast\<close> to
  milliseconds rounds towards zero.
\<close>

definition duration_ms :: "int \<Rightarrow> int" where
  "duration_ms ns = (if ns < 0 then - (- ns div 1000000) else ns div 1000000)"

lemma duration_ms_mono: "a \<le> b \<Longrightarrow> duration_ms a \<le> duration_ms b"
proof -
  assume "a \<le> b"
  then consider "0 \<le> a" | "a < 0" "0 \<le> b" | "b < 0" by linarith
  then show ?thesis
  proof cases
    case 1
    with \<open>a \<le> b\<close> show ?thesis by (simp add: duration_ms_def zdiv_mono1)
  next
    case 2
    then have "0 \<le> - a div 1000000" "0 \<le> b div 1000000"
      by (simp_all add: pos_imp_zdiv_nonneg_iff)
    with 2 show ?thesis by (simp add: duration_ms_def)
  next
    case 3
    with \<open>a \<le> b\<close> show ?thesis by (simp add: duration_ms_def zdiv_mono1)
  qed
qed

section \<open>Words\<close>

lemma unat_add_no_wrap:
  fixes a b :: "'a::len word"
  shows "unat a + unat b < 2 ^ LENGTH('a) \<Longrightarrow> unat (a + b) = unat a + unat b"
  by (simp add: unat_word_ariths)

lemma unat_mult_no_wrap:
  fixes a b :: "'a::len word"
  shows "unat a * unat b < 2 ^ LENGTH('a) \<Longrightarrow> unat (a * b) = unat a * unat b"
  by (simp add: unat_word_ariths)

lemma unat_of_nat_no_wrap: "n < 2 ^ LENGTH('a) \<Longrightarrow> unat (of_nat n :: 'a::len word) = n"
  by (simp add: unat_of_nat)

lemma unat_bound: "unat (w :: 'a::len word) < 2 ^ LENGTH('a)"
  by (rule unsigned_less)

section \<open>Lists\<close>

lemma mset_butlast_last: "xs \<noteq> [] \<Longrightarrow> add_mset (last xs) (mset (butlast xs)) = mset xs"
  by (cases xs rule: rev_cases) simp_all

section \<open>Decimal numerals\<close>

text \<open>
  \<^verbatim>\<open>std::to_string\<close> of an unsigned integer, which is also what \<^verbatim>\<open>operator<<\<close> prints: the
  decimal digits without leading zeros.
\<close>

fun decimal :: "nat \<Rightarrow> string" where
  "decimal n = (if n < 10 then [char_of (48 + n)] else decimal (n div 10) @ [char_of (48 + n mod 10)])"

declare decimal.simps [simp del]

definition to_string :: "'a::len word \<Rightarrow> string" where
  "to_string w = decimal (unat w)"

definition read_decimal :: "string \<Rightarrow> nat" where
  "read_decimal s = foldl (\<lambda>acc c. 10 * acc + (of_char c - 48)) 0 s"

lemma of_char_digit: "d < 10 \<Longrightarrow> of_char (char_of (48 + d) :: char) = (48 + d :: nat)"
  by (simp add: of_char_of)

lemma read_decimal: "read_decimal (decimal n) = n"
proof (induction n rule: decimal.induct)
  case (1 n)
  show ?case
  proof (cases "n < 10")
    case True
    then show ?thesis by (simp add: decimal.simps [of n] read_decimal_def of_char_digit)
  next
    case False
    with "1.IH" show ?thesis
      by (simp add: decimal.simps [of n] read_decimal_def of_char_digit)
  qed
qed

lemma decimal_inject [simp]: "decimal m = decimal n \<longleftrightarrow> m = n"
  using read_decimal by metis

lemma to_string_inject [simp]: "to_string v = to_string w \<longleftrightarrow> v = w"
  by (simp add: to_string_def word_unat_eq_iff)

definition is_digit :: "char \<Rightarrow> bool" where
  "is_digit c \<longleftrightarrow> of_char c \<in> {48..57 :: nat}"

lemma decimal_digits: "\<forall>c \<in> set (decimal n). is_digit c"
proof (induction n rule: decimal.induct)
  case (1 n)
  have d: "of_char (char_of (48 + n mod 10) :: char) = (48 + n mod 10 :: nat)"
    by (rule of_char_digit) simp
  show ?case
  proof (cases "n < 10")
    case True
    then show ?thesis by (simp add: decimal.simps [of n] is_digit_def of_char_digit)
  next
    case False
    with "1.IH" d show ?thesis by (simp add: decimal.simps [of n] is_digit_def)
  qed
qed

end
