(* ===== verification/Memory_Pool.thy ===== *)
theory Memory_Pool
  imports Prelude
begin

text \<open>
  The fixed-size block allocator of \<^verbatim>\<open>memory_pool.h\<close> and \<^verbatim>\<open>memory_pool.cpp\<close>, down to the
  bytes of \<open>pool_data\<close>: the free list is threaded through the first eight bytes of the free
  blocks, as \<^verbatim>\<open>*reinterpret_cast<std::byte**>(block)\<close> does. A client may overwrite the bytes
  of a block it holds; the invariant shows that neither this nor the pool's own stores ever
  reach a link of the free list. The last part states the pool's contract as a locale, which
  the message queue relies on, and interprets it on the functions of this theory.
\<close>

section \<open>Byte memory\<close>

text \<open>
  A cell is a byte of an allocated array: it holds a byte value, or an indeterminate value
  where an object of another type lives. An address outside the array is not mapped; touching
  it is undefined behaviour, and so is reading an indeterminate cell as part of a pointer.
\<close>

datatype cell = Indet | Val byte

type_synonym memory = "ptr \<rightharpoonup> cell"

fun store_cells :: "memory \<Rightarrow> ptr \<Rightarrow> cell list \<Rightarrow> memory result" where
  "store_cells m a [] = Inr m"
| "store_cells m a (c # cs) =
     (case m a of
        None \<Rightarrow> Inl (UB ''write outside the array'')
      | Some _ \<Rightarrow> store_cells (m(a \<mapsto> c)) (a + 1) cs)"

fun load_bytes :: "memory \<Rightarrow> ptr \<Rightarrow> nat \<Rightarrow> byte list result" where
  "load_bytes m a 0 = Inr []"
| "load_bytes m a (Suc n) =
     (case m a of
        Some (Val b) \<Rightarrow> res_bind (load_bytes m (a + 1) n) (\<lambda>bs. Inr (b # bs))
      | _ \<Rightarrow> Inl (UB ''read of an indeterminate byte''))"

text \<open>Constructing an object in raw storage ends the lifetime of the bytes it occupies.\<close>

definition clobber :: "memory \<Rightarrow> ptr \<Rightarrow> nat \<Rightarrow> memory result" where
  "clobber m a n = store_cells m a (replicate n Indet)"

text \<open>The object representation of a pointer: eight bytes, least significant first.\<close>

definition ptr_bytes :: "ptr \<Rightarrow> byte list" where
  "ptr_bytes p = map (\<lambda>i. ucast (drop_bit (8 * i) p)) [0..<sizeof_ptr]"

definition bytes_ptr :: "byte list \<Rightarrow> ptr" where
  "bytes_ptr bs = word_of_int (horner_sum uint (2 ^ 8) bs)"

text \<open>
  A pointer object lives at a multiple of \<open>alignof(void*)\<close>. An access through
  \<^verbatim>\<open>std::byte**\<close> at another address is undefined behaviour even inside the array.
\<close>

definition ptr_aligned :: "ptr \<Rightarrow> bool" where
  "ptr_aligned a \<longleftrightarrow> alignof_ptr dvd unat a"

definition check_aligned :: "ptr \<Rightarrow> 'a \<Rightarrow> 'a result" where
  "check_aligned a x = (if ptr_aligned a then Inr x else Inl (UB ''misaligned access''))"

definition store_ptr :: "memory \<Rightarrow> ptr \<Rightarrow> ptr \<Rightarrow> memory result" where
  "store_ptr m a p = res_bind (store_cells m a (map Val (ptr_bytes p))) (check_aligned a)"

definition load_ptr :: "memory \<Rightarrow> ptr \<Rightarrow> ptr result" where
  "load_ptr m a =
     res_bind (load_bytes m a sizeof_ptr) (\<lambda>bs. check_aligned a (bytes_ptr bs))"

section \<open>The pool\<close>

record MemoryPool =
  block_size :: size_t
  block_count :: size_t
  pool_data :: ptr
  free_list :: ptr
  pool_mem :: memory

text \<open>
  \<^verbatim>\<open>std::make_unique<std::byte[]>(n)\<close> returns \<open>n\<close> zero bytes; the address is the
  allocator's choice and a parameter of the constructor.
\<close>

definition make_unique_bytes :: "ptr \<Rightarrow> size_t \<Rightarrow> memory" where
  "make_unique_bytes base n = (\<lambda>a. if a - base < n then Some (Val 0) else None)"

text \<open>The loop of the constructor: \<open>n\<close> is the number of iterations left.\<close>

fun link_blocks :: "memory \<Rightarrow> ptr \<Rightarrow> size_t \<Rightarrow> nat \<Rightarrow> (memory \<times> ptr) result" where
  "link_blocks m current_block bs 0 = Inr (m, current_block)"
| "link_blocks m current_block bs (Suc n) =
     res_bind (store_ptr m current_block (current_block + bs))
       (\<lambda>m'. link_blocks m' (current_block + bs) bs n)"

definition MemoryPool_new :: "ptr \<Rightarrow> size_t \<Rightarrow> size_t \<Rightarrow> MemoryPool result" where
  "MemoryPool_new base bsize bcount =
     res_bind (assert_that (bcount > 0) ''block_count must be greater than 0'') (\<lambda>_.
     res_bind (assert_that (bsize > of_nat sizeof_ptr)
       ''block_size must be greater than a pointer size'') (\<lambda>_.
     res_bind (link_blocks (make_unique_bytes base (bsize * bcount)) base bsize
       (unat (bcount - 1))) (\<lambda>(m, current_block).
     res_bind (store_ptr m current_block nullptr) (\<lambda>m'.
     Inr \<lparr>block_size = bsize, block_count = bcount, pool_data = base,
          free_list = base, pool_mem = m'\<rparr>))))"

text \<open>The range both member functions assert.\<close>

definition in_pool_area :: "MemoryPool \<Rightarrow> ptr \<Rightarrow> bool" where
  "in_pool_area p a \<longleftrightarrow> pool_data p \<le> a \<and> a < pool_data p + block_size p * block_count p"

definition allocate :: "MemoryPool \<Rightarrow> (ptr \<times> MemoryPool) result" where
  "allocate p =
     (if free_list p = nullptr then Inr (nullptr, p)
      else res_bind (assert_that (in_pool_area p (free_list p))
             ''free_list pointer is out of range'') (\<lambda>_.
           res_bind (load_ptr (pool_mem p) (free_list p)) (\<lambda>next.
           Inr (free_list p, p\<lparr>free_list := next\<rparr>))))"

definition deallocate :: "MemoryPool \<Rightarrow> ptr \<Rightarrow> MemoryPool result" where
  "deallocate p a =
     res_bind (assert_that (in_pool_area p a)
       ''Trying to deallocate a pointer not in the memory pool'') (\<lambda>_.
     res_bind (store_ptr (pool_mem p) a (free_list p)) (\<lambda>m.
     Inr (p\<lparr>pool_mem := m, free_list := a\<rparr>)))"

text \<open>
  A client uses the first \<open>n\<close> bytes of a block for an object of its own, of an alignment up
  to that of a pointer, as the placement \<^verbatim>\<open>new\<close> of the message queue does.
\<close>

definition use_block :: "MemoryPool \<Rightarrow> ptr \<Rightarrow> nat \<Rightarrow> MemoryPool result" where
  "use_block p a n =
     res_bind (clobber (pool_mem p) a n) (\<lambda>m. check_aligned a (p\<lparr>pool_mem := m\<rparr>))"

section \<open>Memory lemmas\<close>

text \<open>The \<open>n\<close> addresses from \<open>a\<close> on.\<close>

definition span_of :: "ptr \<Rightarrow> nat \<Rightarrow> ptr set" where
  "span_of a n = (\<lambda>i. a + of_nat i) ` {..<n}"

lemma span_of_0 [simp]: "span_of a 0 = {}"
  by (simp add: span_of_def)

lemma span_of_Suc: "span_of a (Suc n) = insert a (span_of (a + 1) n)"
  by (auto simp: span_of_def lessThan_Suc_eq_insert_0 image_image add.assoc add.commute)

lemma span_of_mono: "m \<le> n \<Longrightarrow> span_of a m \<subseteq> span_of a n"
  by (auto simp: span_of_def)

lemma start_notin_span_of: "n < 2 ^ 64 \<Longrightarrow> a \<notin> span_of (a + 1) n"
proof
  assume n: "n < 2 ^ 64" and "a \<in> span_of (a + 1) n"
  then obtain i where i: "i < n" "a + 1 + of_nat i = a"
    by (auto simp: span_of_def)
  from i(2) have "of_nat (Suc i) = (0 :: ptr)"
    by (simp add: add.assoc)
  then have "unat (of_nat (Suc i) :: ptr) = 0" by (simp only: unat_0)
  with i(1) n have "Suc i = 0" by (simp only: unat_of_nat) simp
  then show False by simp
qed

lemma store_cells_succeeds:
  "span_of a (length cs) \<subseteq> dom m \<Longrightarrow> \<exists>m'. store_cells m a cs = Inr m'"
proof (induction cs arbitrary: m a)
  case Nil
  then show ?case by simp
next
  case (Cons c cs)
  from Cons.prems obtain d where d: "m a = Some d"
    by (auto simp: span_of_Suc)
  from Cons.prems have "span_of (a + 1) (length cs) \<subseteq> dom (m(a \<mapsto> c))"
    by (auto simp: span_of_Suc)
  then have "\<exists>m'. store_cells (m(a \<mapsto> c)) (a + 1) cs = Inr m'" by (rule Cons.IH)
  with d show ?case by simp
qed

lemma store_cells_dom: "store_cells m a cs = Inr m' \<Longrightarrow> dom m' = dom m"
proof (induction cs arbitrary: m a)
  case Nil
  then show ?case by simp
next
  case (Cons c cs)
  then have "m a \<noteq> None" "dom m' = dom (m(a \<mapsto> c))"
    by (auto split: option.splits)
  then show ?case by auto
qed

lemma store_cells_frame:
  "store_cells m a cs = Inr m' \<Longrightarrow> x \<notin> span_of a (length cs) \<Longrightarrow> m' x = m x"
proof (induction cs arbitrary: m a)
  case Nil
  then show ?case by simp
next
  case (Cons c cs)
  then have "m' x = (m(a \<mapsto> c)) x"
    by (auto simp: span_of_Suc split: option.splits)
  with Cons.prems(2) show ?case by (simp add: span_of_Suc)
qed

lemma load_bytes_cong:
  assumes "\<And>x. x \<in> span_of a n \<Longrightarrow> m x = m' x"
  shows "load_bytes m a n = load_bytes m' a n"
  using assms
proof (induction n arbitrary: a)
  case 0
  then show ?case by simp
next
  case (Suc n)
  then have "m a = m' a" "load_bytes m (a + 1) n = load_bytes m' (a + 1) n"
    by (simp_all add: span_of_Suc)
  then show ?case by (simp split: option.split cell.split)
qed

lemma load_store_bytes:
  assumes "store_cells m a (map Val bs) = Inr m'" "length bs < 2 ^ 64"
  shows "load_bytes m' a (length bs) = Inr bs"
  using assms
proof (induction bs arbitrary: m a)
  case Nil
  then show ?case by simp
next
  case (Cons b bs)
  from Cons.prems(1) have s: "store_cells (m(a \<mapsto> Val b)) (a + 1) (map Val bs) = Inr m'"
    by (auto split: option.splits)
  have "m' a = Some (Val b)"
    using store_cells_frame [OF s, of a] start_notin_span_of [of "length bs" a] Cons.prems(2)
    by simp
  with Cons.IH [OF s] Cons.prems(2) show ?case by simp
qed

lemma clobber_succeeds: "span_of a n \<subseteq> dom m \<Longrightarrow> \<exists>m'. clobber m a n = Inr m'"
  using store_cells_succeeds [of a "replicate n Indet" m] by (simp add: clobber_def)

lemma clobber_dom: "clobber m a n = Inr m' \<Longrightarrow> dom m' = dom m"
  by (simp add: clobber_def store_cells_dom)

lemma clobber_frame: "clobber m a n = Inr m' \<Longrightarrow> x \<notin> span_of a n \<Longrightarrow> m' x = m x"
  using store_cells_frame [of m a "replicate n Indet" m' x] by (simp add: clobber_def)

lemma length_ptr_bytes [simp]: "length (ptr_bytes p) = sizeof_ptr"
  by (simp add: ptr_bytes_def)

lemma bytes_ptr_bytes [simp]: "bytes_ptr (ptr_bytes p) = p"
proof (rule bit_word_eqI)
  fix n :: nat
  assume n: "n < LENGTH(64)"
  have "n div 8 < 8" using n by simp
  moreover have "8 * (n div 8) + n mod 8 = n" by simp
  ultimately show "bit (bytes_ptr (ptr_bytes p)) n \<longleftrightarrow> bit p n"
    using n bit_horner_sum_uint_exp_iff [of "ptr_bytes p" n]
    by (simp add: bytes_ptr_def ptr_bytes_def bit_word_of_int_iff bit_ucast_iff bit_drop_bit_eq
        del: upt_Suc)
qed

lemma check_aligned_eq_Inr [simp]: "check_aligned a x = Inr y \<longleftrightarrow> ptr_aligned a \<and> y = x"
  by (auto simp: check_aligned_def)

lemma check_aligned_ok: "ptr_aligned a \<Longrightarrow> check_aligned a x = Inr x"
  by simp

lemma check_aligned_fails:
  "\<not> ptr_aligned a \<Longrightarrow> check_aligned a x = Inl (UB ''misaligned access'')"
  by (simp add: check_aligned_def)

lemma store_ptr_eq_Inr:
  "store_ptr m a p = Inr m' \<longleftrightarrow> ptr_aligned a \<and> store_cells m a (map Val (ptr_bytes p)) = Inr m'"
  by (auto simp: store_ptr_def res_bind_eq_Inr)

lemma store_ptr_succeeds:
  "span_of a sizeof_ptr \<subseteq> dom m \<Longrightarrow> ptr_aligned a \<Longrightarrow> \<exists>m'. store_ptr m a p = Inr m'"
  using store_cells_succeeds [of a "map Val (ptr_bytes p)" m] by (simp add: store_ptr_eq_Inr)

lemma store_ptr_misaligned:
  "span_of a sizeof_ptr \<subseteq> dom m \<Longrightarrow> \<not> ptr_aligned a \<Longrightarrow>
    store_ptr m a p = Inl (UB ''misaligned access'')"
  using store_cells_succeeds [of a "map Val (ptr_bytes p)" m]
  by (auto simp: store_ptr_def check_aligned_fails)

lemma store_ptr_dom: "store_ptr m a p = Inr m' \<Longrightarrow> dom m' = dom m"
  unfolding store_ptr_eq_Inr by (blast dest: store_cells_dom)

lemma store_ptr_frame: "store_ptr m a p = Inr m' \<Longrightarrow> x \<notin> span_of a sizeof_ptr \<Longrightarrow> m' x = m x"
  using store_cells_frame [of m a "map Val (ptr_bytes p)" m' x] by (simp add: store_ptr_eq_Inr)

lemma load_store_ptr: "store_ptr m a p = Inr m' \<Longrightarrow> load_ptr m' a = Inr p"
  using load_store_bytes [of m a "ptr_bytes p" m'] by (simp add: store_ptr_eq_Inr load_ptr_def)

lemma load_ptr_cong:
  "(\<And>x. x \<in> span_of a sizeof_ptr \<Longrightarrow> m x = m' x) \<Longrightarrow> load_ptr m a = load_ptr m' a"
  unfolding load_ptr_def by (subst load_bytes_cong [of a sizeof_ptr m m']) auto


section \<open>The blocks of a pool\<close>

definition block_addr :: "ptr \<Rightarrow> size_t \<Rightarrow> nat \<Rightarrow> ptr" where
  "block_addr base bs i = base + of_nat i * bs"

text \<open>
  What the allocator and the asserts of the constructor guarantee of the array: it starts at
  a non-null address that is aligned for every object of fundamental alignment, blocks hold
  more than a pointer, there is at least one, and the array with its end address lies in the
  address space, so that \<open>block_size * block_count\<close> does not wrap. In addition the block size
  is a multiple of the alignment of a pointer, which the code does not check
  (\<open>pool_misaligned_blocks\<close> below) but which holds of \<^verbatim>\<open>sizeof(Node)\<close>, the size every
  task passes.
\<close>

definition pool_area :: "ptr \<Rightarrow> size_t \<Rightarrow> size_t \<Rightarrow> bool" where
  "pool_area base bs bc \<longleftrightarrow> base \<noteq> nullptr \<and> ptr_aligned base \<and> sizeof_ptr < unat bs \<and>
     alignof_ptr dvd unat bs \<and> 0 < unat bc \<and> unat base + unat bs * unat bc < 2 ^ 64"

lemma pool_area_offset:
  assumes "pool_area base bs bc" "i < unat bc" "k < unat bs"
  shows "unat base + i * unat bs + k < unat base + unat bs * unat bc"
proof -
  have "i * unat bs + k < Suc i * unat bs" using assms(3) by simp
  also have "\<dots> \<le> unat bc * unat bs" using assms(2) by (intro mult_le_mono1) simp
  finally show ?thesis by (simp add: mult.commute)
qed

lemma unat_block_addr:
  assumes "pool_area base bs bc" "i < unat bc" "k < unat bs"
  shows "unat (block_addr base bs i + of_nat k) = unat base + i * unat bs + k"
proof -
  from pool_area_offset [OF assms] assms(1) have lt: "unat base + i * unat bs + k < 2 ^ 64"
    by (simp add: pool_area_def)
  have "block_addr base bs i + of_nat k = of_nat (unat base + i * unat bs + k)"
    by (simp add: block_addr_def)
  with lt show ?thesis by (simp add: unat_of_nat del: of_nat_add of_nat_mult)
qed

lemma unat_block_addr_0:
  assumes "pool_area base bs bc" "i < unat bc"
  shows "unat (block_addr base bs i) = unat base + i * unat bs"
  using unat_block_addr [OF assms, of 0] assms(1) by (simp add: pool_area_def)

lemma block_addr_aligned:
  assumes "pool_area base bs bc" "i < unat bc"
  shows "ptr_aligned (block_addr base bs i)"
  using unat_block_addr_0 [OF assms] assms(1) by (simp add: pool_area_def ptr_aligned_def)

lemma block_addr_inj:
  assumes "pool_area base bs bc" "i < unat bc" "j < unat bc" "k < unat bs" "l < unat bs"
    and "block_addr base bs i + of_nat k = block_addr base bs j + of_nat l"
  shows "i = j"
proof -
  have "i * unat bs + k = j * unat bs + l"
    using arg_cong [OF assms(6), of unat] assms(1-5) by (simp add: unat_block_addr)
  then have "(i * unat bs + k) div unat bs = (j * unat bs + l) div unat bs" by simp
  with assms(4,5) show ?thesis by simp
qed

lemma block_addr_notnull:
  assumes "pool_area base bs bc" "i < unat bc"
  shows "block_addr base bs i \<noteq> nullptr"
  using unat_block_addr_0 [OF assms] assms(1) by (auto simp: pool_area_def unat_eq_0)

lemma block_span_disjoint:
  assumes "pool_area base bs bc" "i < unat bc" "j < unat bc" "i \<noteq> j"
    and "m \<le> unat bs" "n \<le> unat bs"
  shows "span_of (block_addr base bs i) m \<inter> span_of (block_addr base bs j) n = {}"
  using block_addr_inj [OF assms(1-3)] assms(4-6) by (fastforce simp: span_of_def)

lemma area_size: "pool_area base bs bc \<Longrightarrow> unat (bs * bc) = unat bs * unat bc"
  by (rule unat_mult_no_wrap) (simp add: pool_area_def)

lemma block_span_mapped:
  assumes "pool_area base bs bc" "i < unat bc" "n \<le> unat bs"
  shows "span_of (block_addr base bs i) n \<subseteq> dom (make_unique_bytes base (bs * bc))"
proof
  fix x assume "x \<in> span_of (block_addr base bs i) n"
  then obtain k where k: "k < n" "x = block_addr base bs i + of_nat k"
    by (auto simp: span_of_def)
  with assms have x: "unat x = unat base + i * unat bs + k"
    by (simp add: unat_block_addr)
  moreover have "i * unat bs + k < unat bs * unat bc"
    using pool_area_offset [OF assms(1,2), of k] k(1) assms(3) by simp
  moreover from x have "unat (x - base) = i * unat bs + k"
    by (simp add: unat_sub_if')
  ultimately show "x \<in> dom (make_unique_bytes base (bs * bc))"
    using area_size [OF assms(1)] by (simp add: make_unique_bytes_def word_less_nat_alt domIff)
qed

section \<open>The free list refines a stack of blocks\<close>

text \<open>\<open>free_chain m p fl\<close>: from \<open>p\<close>, the links in \<open>m\<close> visit the blocks \<open>fl\<close> and end in null.\<close>

fun free_chain :: "memory \<Rightarrow> ptr \<Rightarrow> ptr list \<Rightarrow> bool" where
  "free_chain m p [] \<longleftrightarrow> p = nullptr"
| "free_chain m p (a # fl) \<longleftrightarrow> p = a \<and> p \<noteq> nullptr \<and>
     (case load_ptr m p of Inl _ \<Rightarrow> False | Inr next \<Rightarrow> free_chain m next fl)"

definition pool_blocks :: "MemoryPool \<Rightarrow> ptr set" where
  "pool_blocks p = block_addr (pool_data p) (block_size p) ` {..<unat (block_count p)}"

definition pool_geometry :: "MemoryPool \<Rightarrow> bool" where
  "pool_geometry p \<longleftrightarrow> pool_area (pool_data p) (block_size p) (block_count p) \<and>
     dom (pool_mem p) = dom (make_unique_bytes (pool_data p) (block_size p * block_count p))"

definition pool_rel :: "MemoryPool \<Rightarrow> ptr list \<Rightarrow> bool" where
  "pool_rel p fl \<longleftrightarrow> pool_geometry p \<and> free_chain (pool_mem p) (free_list p) fl \<and>
     distinct fl \<and> set fl \<subseteq> pool_blocks p"

text \<open>Two states of the same pool: every field but the free list and the bytes agrees.\<close>

definition same_pool :: "MemoryPool \<Rightarrow> MemoryPool \<Rightarrow> bool" where
  "same_pool p q \<longleftrightarrow> pool_data q = pool_data p \<and> block_size q = block_size p \<and>
     block_count q = block_count p"

lemma same_pool_refl [simp]: "same_pool p p"
  by (simp add: same_pool_def)

lemma same_pool_trans [trans]: "same_pool p q \<Longrightarrow> same_pool q r \<Longrightarrow> same_pool p r"
  by (simp add: same_pool_def)

lemma same_pool_blocks: "same_pool p q \<Longrightarrow> pool_blocks q = pool_blocks p"
  by (simp add: same_pool_def pool_blocks_def)

lemma finite_pool_blocks [simp]: "finite (pool_blocks p)"
  by (simp add: pool_blocks_def)

lemma card_pool_blocks:
  assumes "pool_geometry p"
  shows "card (pool_blocks p) = unat (block_count p)"
proof -
  have "inj_on (block_addr (pool_data p) (block_size p)) {..<unat (block_count p)}"
    using assms block_addr_inj [of _ _ _ _ _ 0 0]
    by (auto simp: inj_on_def pool_geometry_def pool_area_def)
  then show ?thesis by (simp add: pool_blocks_def card_image)
qed

lemma pool_block_mapped:
  assumes "pool_geometry p" "a \<in> pool_blocks p" "n \<le> unat (block_size p)"
  shows "span_of a n \<subseteq> dom (pool_mem p)"
proof -
  from assms(2) obtain i where "i < unat (block_count p)"
    "a = block_addr (pool_data p) (block_size p) i"
    by (auto simp: pool_blocks_def)
  with assms(1,3) show ?thesis
    using block_span_mapped by (simp add: pool_geometry_def)
qed

lemma pool_block_disjoint:
  assumes "pool_geometry p" "a \<in> pool_blocks p" "b \<in> pool_blocks p" "a \<noteq> b"
    and "m \<le> unat (block_size p)" "n \<le> unat (block_size p)"
  shows "span_of a m \<inter> span_of b n = {}"
  using assms block_span_disjoint by (fastforce simp: pool_geometry_def pool_blocks_def)

lemma pool_block_notnull: "pool_geometry p \<Longrightarrow> a \<in> pool_blocks p \<Longrightarrow> a \<noteq> nullptr"
  using block_addr_notnull by (fastforce simp: pool_geometry_def pool_blocks_def)

lemma pool_block_aligned: "pool_geometry p \<Longrightarrow> a \<in> pool_blocks p \<Longrightarrow> ptr_aligned a"
  using block_addr_aligned by (fastforce simp: pool_geometry_def pool_blocks_def)

lemma pool_block_in_area:
  assumes "pool_geometry p" "a \<in> pool_blocks p"
  shows "in_pool_area p a"
proof -
  let ?b = "pool_data p" and ?s = "block_size p" and ?c = "block_count p"
  from assms(1) have area: "pool_area ?b ?s ?c" by (simp add: pool_geometry_def)
  from assms(2) obtain i where i: "i < unat ?c" "a = block_addr ?b ?s i"
    by (auto simp: pool_blocks_def)
  have "unat (?b + ?s * ?c) = unat ?b + unat ?s * unat ?c"
    using area area_size [OF area] by (simp add: pool_area_def unat_add_no_wrap)
  moreover have "unat a = unat ?b + i * unat ?s"
    using unat_block_addr_0 [OF area i(1)] i(2) by simp
  moreover have "unat ?b + i * unat ?s < unat ?b + unat ?s * unat ?c"
    using pool_area_offset [OF area i(1), of 0] area by (simp add: pool_area_def)
  ultimately show ?thesis
    by (simp add: in_pool_area_def word_le_nat_alt word_less_nat_alt)
qed

lemma sizeof_ptr_le_block: "pool_geometry p \<Longrightarrow> sizeof_ptr \<le> unat (block_size p)"
  by (simp add: pool_geometry_def pool_area_def)

text \<open>A change of memory outside the links of the listed blocks keeps the chain.\<close>

lemma free_chain_cong:
  assumes "\<And>b x. b \<in> set fl \<Longrightarrow> x \<in> span_of b sizeof_ptr \<Longrightarrow> m' x = m x"
  shows "free_chain m' p fl = free_chain m p fl"
  using assms
proof (induction fl arbitrary: p)
  case Nil
  then show ?case by simp
next
  case (Cons a fl)
  have "load_ptr m' a = load_ptr m a"
    by (rule load_ptr_cong, rule Cons.prems) simp_all
  moreover have "free_chain m' q fl = free_chain m q fl" for q
    by (rule Cons.IH, rule Cons.prems) simp_all
  ultimately show ?case by (cases "p = a") (simp_all cong: sum.case_cong)
qed

lemma free_chain_store_other:
  assumes geo: "pool_geometry p" and fl: "set fl \<subseteq> pool_blocks p"
    and a: "a \<in> pool_blocks p" "a \<notin> set fl" and n: "n \<le> unat (block_size p)"
    and frame: "\<And>x. x \<notin> span_of a n \<Longrightarrow> m' x = pool_mem p x"
  shows "free_chain m' q fl = free_chain (pool_mem p) q fl"
proof (rule free_chain_cong)
  fix b x
  assume b: "b \<in> set fl" and x: "x \<in> span_of b sizeof_ptr"
  with fl a have "b \<in> pool_blocks p" "a \<noteq> b" by auto
  then have "span_of a n \<inter> span_of b sizeof_ptr = {}"
    using pool_block_disjoint [OF geo a(1) _ _ n sizeof_ptr_le_block [OF geo]] by blast
  with x have "x \<notin> span_of a n" by blast
  then show "m' x = pool_mem p x" by (rule frame)
qed

lemma allocate_Nil: "pool_rel p [] \<Longrightarrow> allocate p = Inr (nullptr, p)"
  by (simp add: pool_rel_def allocate_def)

lemma allocate_Cons:
  assumes "pool_rel p (a # fl)"
  obtains p' where "allocate p = Inr (a, p')" "pool_rel p' fl" "same_pool p p'"
    "pool_mem p' = pool_mem p" "a \<in> pool_blocks p" "a \<notin> set fl"
proof -
  from assms have geo: "pool_geometry p" and a: "a \<in> pool_blocks p" "a \<notin> set fl"
    and head: "free_list p = a" "a \<noteq> nullptr"
    by (auto simp: pool_rel_def)
  from assms obtain nx where load: "load_ptr (pool_mem p) a = Inr nx"
    and chain: "free_chain (pool_mem p) nx fl"
    by (auto simp: pool_rel_def split: sum.splits)
  let ?p = "p\<lparr>free_list := nx\<rparr>"
  have "allocate p = Inr (a, ?p)"
    using head load pool_block_in_area [OF geo a(1)] by (simp add: allocate_def)
  moreover have "pool_rel ?p fl" "same_pool p ?p"
    using assms chain
    by (auto simp: pool_rel_def pool_geometry_def pool_blocks_def same_pool_def)
  ultimately show ?thesis using that a by simp
qed

lemma deallocate_ok:
  assumes rel: "pool_rel p fl" and a: "a \<in> pool_blocks p" "a \<notin> set fl"
  obtains p' where "deallocate p a = Inr p'" "pool_rel p' (a # fl)" "same_pool p p'"
proof -
  from rel have geo: "pool_geometry p" and fl: "set fl \<subseteq> pool_blocks p" "distinct fl"
    and chain: "free_chain (pool_mem p) (free_list p) fl"
    by (auto simp: pool_rel_def)
  note ptr_le = sizeof_ptr_le_block [OF geo]
  obtain m where st: "store_ptr (pool_mem p) a (free_list p) = Inr m"
    using store_ptr_succeeds pool_block_mapped [OF geo a(1) ptr_le]
      pool_block_aligned [OF geo a(1)] by blast
  let ?p = "p\<lparr>pool_mem := m, free_list := a\<rparr>"
  have "free_chain m (free_list p) fl"
    using free_chain_store_other [OF geo fl(1) a ptr_le] store_ptr_frame [OF st] chain by blast
  then have "pool_rel ?p (a # fl)"
    using geo fl a pool_block_notnull [OF geo a(1)] load_store_ptr [OF st] store_ptr_dom [OF st]
    by (simp add: pool_rel_def pool_geometry_def pool_blocks_def)
  moreover have "deallocate p a = Inr ?p"
    using st pool_block_in_area [OF geo a(1)] by (simp add: deallocate_def)
  ultimately show ?thesis using that by (simp add: same_pool_def)
qed

lemma use_block_ok:
  assumes rel: "pool_rel p fl" and a: "a \<in> pool_blocks p" "a \<notin> set fl"
    and n: "n \<le> unat (block_size p)"
  obtains p' where "use_block p a n = Inr p'" "pool_rel p' fl" "same_pool p p'"
proof -
  from rel have geo: "pool_geometry p" and fl: "set fl \<subseteq> pool_blocks p" "distinct fl"
    and chain: "free_chain (pool_mem p) (free_list p) fl"
    by (auto simp: pool_rel_def)
  obtain m where st: "clobber (pool_mem p) a n = Inr m"
    using clobber_succeeds pool_block_mapped [OF geo a(1) n] by blast
  have "free_chain m (free_list p) fl"
    using free_chain_store_other [OF geo fl(1) a n] clobber_frame [OF st] chain by blast
  then have "pool_rel (p\<lparr>pool_mem := m\<rparr>) fl"
    using geo fl clobber_dom [OF st]
    by (simp add: pool_rel_def pool_geometry_def pool_blocks_def)
  with st pool_block_aligned [OF geo a(1)] show ?thesis
    using that by (simp add: use_block_def check_aligned_ok same_pool_def)
qed

section \<open>The constructor\<close>

lemma block_addr_Suc: "block_addr base bs i + bs = block_addr base bs (Suc i)"
  by (simp add: block_addr_def algebra_simps)

lemma block_addr_0 [simp]: "block_addr base bs 0 = base"
  by (simp add: block_addr_def)

text \<open>
  The loop links block \<open>j\<close> to block \<open>j + 1\<close> for \<open>i \<le> j < i + n\<close> and touches the link bytes
  of no other block.
\<close>

lemma link_blocks_ok:
  assumes area: "pool_area base bs bc" and "i + n < unat bc"
    and "dom m = dom (make_unique_bytes base (bs * bc))"
  shows "\<exists>m'. link_blocks m (block_addr base bs i) bs n = Inr (m', block_addr base bs (i + n)) \<and>
     dom m' = dom m \<and>
     (\<forall>j. i \<le> j \<and> j < i + n \<longrightarrow>
        load_ptr m' (block_addr base bs j) = Inr (block_addr base bs (Suc j))) \<and>
     (\<forall>j<unat bc. j < i \<or> i + n \<le> j \<longrightarrow>
        load_ptr m' (block_addr base bs j) = load_ptr m (block_addr base bs j))"
  using assms(2,3)
proof (induction n arbitrary: i m)
  case 0
  then show ?case by auto
next
  case (Suc n)
  let ?a = "block_addr base bs i" and ?b = "block_addr base bs (Suc i)"
  from area have ptr_le: "sizeof_ptr \<le> unat bs" by (simp add: pool_area_def)
  have "span_of ?a sizeof_ptr \<subseteq> dom m"
    using block_span_mapped [OF area _ ptr_le] Suc.prems by auto
  then obtain m1 where st: "store_ptr m ?a ?b = Inr m1"
    using store_ptr_succeeds block_addr_aligned [OF area, of i] Suc.prems(1) by fastforce
  have m1: "load_ptr m1 (block_addr base bs j) = load_ptr m (block_addr base bs j)"
    if "j < unat bc" "j \<noteq> i" for j
  proof (rule load_ptr_cong)
    fix x assume "x \<in> span_of (block_addr base bs j) sizeof_ptr"
    then have "x \<notin> span_of ?a sizeof_ptr"
      using block_span_disjoint [OF area that(1) _ that(2) ptr_le ptr_le] Suc.prems(1) by auto
    then show "m1 x = m x" by (rule store_ptr_frame [OF st])
  qed
  have "dom m1 = dom m" by (rule store_ptr_dom [OF st])
  then obtain m' where
    m': "link_blocks m1 ?b bs n = Inr (m', block_addr base bs (Suc i + n))" "dom m' = dom m"
    and new: "\<forall>j. Suc i \<le> j \<and> j < Suc i + n \<longrightarrow>
        load_ptr m' (block_addr base bs j) = Inr (block_addr base bs (Suc j))"
    and old: "\<forall>j<unat bc. j < Suc i \<or> Suc i + n \<le> j \<longrightarrow>
        load_ptr m' (block_addr base bs j) = load_ptr m1 (block_addr base bs j)"
    using Suc.IH [of "Suc i" m1] Suc.prems by auto
  have "load_ptr m' ?a = Inr ?b"
    using old load_store_ptr [OF st] Suc.prems(1) by simp
  then have "\<forall>j. i \<le> j \<and> j < i + Suc n \<longrightarrow>
        load_ptr m' (block_addr base bs j) = Inr (block_addr base bs (Suc j))"
    using new by (metis Suc_leI add_Suc_shift le_neq_implies_less)
  moreover have "\<forall>j<unat bc. j < i \<or> i + Suc n \<le> j \<longrightarrow>
        load_ptr m' (block_addr base bs j) = load_ptr m (block_addr base bs j)"
    using old m1 by auto
  moreover have "link_blocks m ?a bs (Suc n) = Inr (m', block_addr base bs (i + Suc n))"
    using st m'(1) by (simp add: block_addr_Suc)
  ultimately show ?case using m'(2) by blast
qed

lemma free_chain_blocks:
  assumes area: "pool_area base bs bc" and "i \<le> unat bc"
    and links: "\<And>j. i \<le> j \<Longrightarrow> Suc j < unat bc \<Longrightarrow>
       load_ptr m (block_addr base bs j) = Inr (block_addr base bs (Suc j))"
    and last: "load_ptr m (block_addr base bs (unat bc - 1)) = Inr nullptr"
  shows "free_chain m (if i < unat bc then block_addr base bs i else nullptr)
           (map (block_addr base bs) [i..<unat bc])"
  using assms(2) links
proof (induction i rule: inc_induct)
  case base
  then show ?case by simp
next
  case (step i)
  have IH: "free_chain m (if Suc i < unat bc then block_addr base bs (Suc i) else nullptr)
      (map (block_addr base bs) [Suc i..<unat bc])"
    by (rule step.IH) (simp add: step.prems)
  have "load_ptr m (block_addr base bs i) =
      Inr (if Suc i < unat bc then block_addr base bs (Suc i) else nullptr)"
  proof (cases "Suc i < unat bc")
    case True
    then show ?thesis using step.prems by simp
  next
    case False
    with step.hyps have "i = unat bc - 1" by simp
    with last False show ?thesis by simp
  qed
  with IH step.hyps block_addr_notnull [OF area step.hyps(2)] show ?case
    by (simp add: upt_conv_Cons)
qed

lemma MemoryPool_new_ok:
  assumes area: "pool_area base bs bc"
  obtains p where "MemoryPool_new base bs bc = Inr p"
    "pool_rel p (map (block_addr base bs) [0..<unat bc])"
    "pool_data p = base" "block_size p = bs" "block_count p = bc"
proof -
  let ?m0 = "make_unique_bytes base (bs * bc)" and ?n = "unat bc - 1"
  let ?z = "block_addr base bs ?n"
  from area have bc: "?n < unat bc" and ptr_le: "sizeof_ptr \<le> unat bs"
    and guards: "bc > 0" "bs > of_nat sizeof_ptr"
    by (simp_all add: pool_area_def word_less_nat_alt)
  have n: "unat (bc - 1) = ?n" using bc by (simp add: unat_sub_if')
  obtain m where m: "link_blocks ?m0 base bs ?n = Inr (m, ?z)" "dom m = dom ?m0"
    and links: "\<And>j. j < ?n \<Longrightarrow> load_ptr m (block_addr base bs j) = Inr (block_addr base bs (Suc j))"
    using link_blocks_ok [OF area, of 0 ?n ?m0] bc by auto
  have "span_of ?z sizeof_ptr \<subseteq> dom m"
    using block_span_mapped [OF area bc ptr_le] m(2) by simp
  then obtain m' where st: "store_ptr m ?z nullptr = Inr m'"
    using store_ptr_succeeds block_addr_aligned [OF area bc] by blast
  let ?p = "\<lparr>block_size = bs, block_count = bc, pool_data = base, free_list = base, pool_mem = m'\<rparr>"
  have "load_ptr m' (block_addr base bs j) = Inr (block_addr base bs (Suc j))"
    if "Suc j < unat bc" for j
  proof -
    from that have j: "j < unat bc" "j \<noteq> ?n" by auto
    have "load_ptr m' (block_addr base bs j) = load_ptr m (block_addr base bs j)"
    proof (rule load_ptr_cong)
      fix x assume "x \<in> span_of (block_addr base bs j) sizeof_ptr"
      then have "x \<notin> span_of ?z sizeof_ptr"
        using block_span_disjoint [OF area j(1) bc j(2) ptr_le ptr_le] by auto
      then show "m' x = m x" by (rule store_ptr_frame [OF st])
    qed
    with links that show ?thesis by simp
  qed
  then have "free_chain m' base (map (block_addr base bs) [0..<unat bc])"
    using free_chain_blocks [OF area, of 0 m'] load_store_ptr [OF st] bc by simp
  moreover have "pool_geometry ?p"
    using area m(2) store_ptr_dom [OF st] by (simp add: pool_geometry_def)
  moreover have "distinct (map (block_addr base bs) [0..<unat bc])"
    using block_addr_inj [OF area, of _ _ 0 0] area
    by (auto simp: distinct_map inj_on_def pool_area_def)
  ultimately have "pool_rel ?p (map (block_addr base bs) [0..<unat bc])"
    by (auto simp: pool_rel_def pool_blocks_def)
  moreover have "MemoryPool_new base bs bc = Inr ?p"
    using guards m(1) n st by (simp add: MemoryPool_new_def)
  ultimately show ?thesis using that by simp
qed

section \<open>The contract of a block allocator\<close>

text \<open>
  What a client of the pool relies on. \<open>avail p F\<close>: the pool is well formed and its free
  blocks are \<open>F\<close>; \<open>capacity p\<close> is the number of bytes a client may use of a block.
\<close>

locale block_allocator =
  fixes alloc :: "'p \<Rightarrow> ('b \<times> 'p) result"
    and dealloc :: "'p \<Rightarrow> 'b \<Rightarrow> 'p result"
    and occupy :: "'p \<Rightarrow> 'b \<Rightarrow> nat \<Rightarrow> 'p result"
    and null :: 'b
    and avail :: "'p \<Rightarrow> 'b set \<Rightarrow> bool"
    and blocks :: "'p \<Rightarrow> 'b set"
    and capacity :: "'p \<Rightarrow> nat"
  assumes avail_blocks: "avail p F \<Longrightarrow> F \<subseteq> blocks p \<and> finite (blocks p) \<and> null \<notin> blocks p"
    and alloc_exhausted: "avail p {} \<Longrightarrow> alloc p = Inr (null, p)"
    and alloc_block: "avail p F \<Longrightarrow> F \<noteq> {} \<Longrightarrow>
      \<exists>a p'. alloc p = Inr (a, p') \<and> a \<in> F \<and> avail p' (F - {a}) \<and>
        blocks p' = blocks p \<and> capacity p' = capacity p"
    and dealloc_block: "avail p F \<Longrightarrow> a \<in> blocks p \<Longrightarrow> a \<notin> F \<Longrightarrow>
      \<exists>p'. dealloc p a = Inr p' \<and> avail p' (insert a F) \<and>
        blocks p' = blocks p \<and> capacity p' = capacity p"
    and occupy_block: "avail p F \<Longrightarrow> a \<in> blocks p \<Longrightarrow> a \<notin> F \<Longrightarrow> n \<le> capacity p \<Longrightarrow>
      \<exists>p'. occupy p a n = Inr p' \<and> avail p' F \<and> blocks p' = blocks p \<and> capacity p' = capacity p"

text \<open>
  A client session: the client holds a list of blocks, asks for one, gives back one it holds
  or uses the bytes of one it holds. Requests that name no held block change nothing.
\<close>

datatype client_op = AllocOp | FreeOp nat | UseOp nat nat

fun client_step ::
  "('p \<Rightarrow> ('b \<times> 'p) result) \<Rightarrow> ('p \<Rightarrow> 'b \<Rightarrow> 'p result) \<Rightarrow> ('p \<Rightarrow> 'b \<Rightarrow> nat \<Rightarrow> 'p result) \<Rightarrow>
   'b \<Rightarrow> nat \<Rightarrow> client_op \<Rightarrow> 'p \<times> 'b list \<Rightarrow> ('p \<times> 'b list) result" where
  "client_step alloc dealloc occupy null cap AllocOp (p, held) =
     res_bind (alloc p) (\<lambda>(a, p'). Inr (p', if a = null then held else a # held))"
| "client_step alloc dealloc occupy null cap (FreeOp i) (p, held) =
     (if i < length held
      then res_bind (dealloc p (held ! i)) (\<lambda>p'. Inr (p', take i held @ drop (Suc i) held))
      else Inr (p, held))"
| "client_step alloc dealloc occupy null cap (UseOp i n) (p, held) =
     (if i < length held \<and> n \<le> cap
      then res_bind (occupy p (held ! i) n) (\<lambda>p'. Inr (p', held))
      else Inr (p, held))"

fun client_run ::
  "('p \<Rightarrow> ('b \<times> 'p) result) \<Rightarrow> ('p \<Rightarrow> 'b \<Rightarrow> 'p result) \<Rightarrow> ('p \<Rightarrow> 'b \<Rightarrow> nat \<Rightarrow> 'p result) \<Rightarrow>
   'b \<Rightarrow> nat \<Rightarrow> client_op list \<Rightarrow> 'p \<times> 'b list \<Rightarrow> ('p \<times> 'b list) result" where
  "client_run alloc dealloc occupy null cap [] s = Inr s"
| "client_run alloc dealloc occupy null cap (x # xs) s =
     res_bind (client_step alloc dealloc occupy null cap x s)
       (client_run alloc dealloc occupy null cap xs)"

lemma distinct_split_nth:
  assumes "distinct xs" "i < length xs"
  shows "distinct (take i xs @ drop (Suc i) xs)"
    and "set (take i xs @ drop (Suc i) xs) = set xs - {xs ! i}"
proof -
  have xs: "xs = take i xs @ xs ! i # drop (Suc i) xs"
    using assms(2) by (rule id_take_nth_drop)
  have d: "distinct (take i xs @ xs ! i # drop (Suc i) xs)"
    using assms(1) by (simp only: xs [symmetric])
  then show "distinct (take i xs @ drop (Suc i) xs)" by simp
  have "set xs = set (take i xs @ xs ! i # drop (Suc i) xs)"
    by (simp only: xs [symmetric])
  with d show "set (take i xs @ drop (Suc i) xs) = set xs - {xs ! i}" by auto
qed

context block_allocator
begin

text \<open>The session invariant: the held blocks and the free blocks partition the pool.\<close>

definition session_ok :: "'p \<times> 'b list \<Rightarrow> bool" where
  "session_ok s \<longleftrightarrow> distinct (snd s) \<and> set (snd s) \<subseteq> blocks (fst s) \<and>
     avail (fst s) (blocks (fst s) - set (snd s))"

lemma session_step:
  assumes "session_ok s" "cap \<le> capacity (fst s)"
  shows "\<exists>s'. client_step alloc dealloc occupy null cap x s = Inr s' \<and> session_ok s' \<and>
     blocks (fst s') = blocks (fst s) \<and> capacity (fst s') = capacity (fst s)"
proof -
  obtain p held where s: "s = (p, held)" by (cases s)
  from assms(1) have held: "distinct held" "set held \<subseteq> blocks p"
    and av: "avail p (blocks p - set held)"
    by (simp_all add: s session_ok_def)
  show ?thesis
  proof (cases x)
    case AllocOp
    show ?thesis
    proof (cases "blocks p - set held = {}")
      case True
      with alloc_exhausted av AllocOp assms show ?thesis by (simp add: s)
    next
      case False
      from alloc_block [OF av False] obtain a p' where
        a: "alloc p = Inr (a, p')" "a \<in> blocks p - set held"
          "avail p' (blocks p - set held - {a})" "blocks p' = blocks p" "capacity p' = capacity p"
        by blast
      moreover have "a \<noteq> null" using avail_blocks [OF av] a(2) by blast
      moreover have "blocks p - set (a # held) = blocks p - set held - {a}" by auto
      ultimately show ?thesis using held AllocOp by (simp add: s session_ok_def)
    qed
  next
    case (FreeOp i)
    show ?thesis
    proof (cases "i < length held")
      case True
      then have mem: "held ! i \<in> set held" by simp
      then obtain p' where p': "dealloc p (held ! i) = Inr p'"
        "avail p' (insert (held ! i) (blocks p - set held))" "blocks p' = blocks p"
        "capacity p' = capacity p"
        using dealloc_block [OF av, of "held ! i"] held(2) by blast
      moreover have "insert (held ! i) (blocks p - set held) = blocks p - (set held - {held ! i})"
        using mem held(2) by auto
      ultimately show ?thesis
        using distinct_split_nth [OF held(1) True] held(2) FreeOp True
        by (auto simp: s session_ok_def)
    next
      case False
      then show ?thesis using FreeOp assms by (simp add: s)
    qed
  next
    case (UseOp i n)
    show ?thesis
    proof (cases "i < length held \<and> n \<le> cap")
      case True
      then have "held ! i \<in> set held" "n \<le> capacity p"
        using assms(2) by (auto simp: s)
      then obtain p' where "occupy p (held ! i) n = Inr p'" "avail p' (blocks p - set held)"
        "blocks p' = blocks p" "capacity p' = capacity p"
        using occupy_block [OF av, of "held ! i" n] held(2) by blast
      then show ?thesis using UseOp True held by (simp add: s session_ok_def)
    next
      case False
      then show ?thesis using UseOp assms by (auto simp: s)
    qed
  qed
qed

lemma session_run:
  assumes "session_ok s" "cap \<le> capacity (fst s)"
  shows "\<exists>s'. client_run alloc dealloc occupy null cap xs s = Inr s' \<and> session_ok s' \<and>
     blocks (fst s') = blocks (fst s) \<and> capacity (fst s') = capacity (fst s)"
  using assms
proof (induction xs arbitrary: s)
  case Nil
  then show ?case by simp
next
  case (Cons x xs)
  from session_step [OF Cons.prems] obtain s1 where
    s1: "client_step alloc dealloc occupy null cap x s = Inr s1" "session_ok s1"
      "blocks (fst s1) = blocks (fst s)" "capacity (fst s1) = capacity (fst s)"
    by blast
  with Cons.IH [of s1] Cons.prems(2) show ?case by auto
qed

lemma session_alloc_null_iff:
  assumes "session_ok (p, held)" "alloc p = Inr (a, p')"
  shows "a = null \<longleftrightarrow> set held = blocks p"
proof (cases "blocks p - set held = {}")
  case True
  with assms alloc_exhausted show ?thesis by (auto simp: session_ok_def)
next
  case False
  from assms(1) have av: "avail p (blocks p - set held)" by (simp add: session_ok_def)
  from alloc_block [OF av False] avail_blocks [OF av] assms(2) False show ?thesis by auto
qed

end

definition pool_avail :: "MemoryPool \<Rightarrow> ptr set \<Rightarrow> bool" where
  "pool_avail p F \<longleftrightarrow> (\<exists>fl. pool_rel p fl \<and> set fl = F)"

lemma pool_avail_alloc:
  assumes "pool_avail p F" "F \<noteq> {}"
  shows "\<exists>a p'. allocate p = Inr (a, p') \<and> a \<in> F \<and> pool_avail p' (F - {a}) \<and> same_pool p p'"
proof -
  from assms obtain a fl where rel: "pool_rel p (a # fl)" and F: "F = set (a # fl)"
    unfolding pool_avail_def by (metis list.exhaust list.set(1))
  show ?thesis
  proof (rule allocate_Cons [OF rel])
    fix p'
    assume "allocate p = Inr (a, p')" "pool_rel p' fl" "same_pool p p'" "a \<notin> set fl"
    with F show ?thesis by (auto simp: pool_avail_def)
  qed
qed

lemma pool_avail_dealloc:
  assumes "pool_avail p F" "a \<in> pool_blocks p" "a \<notin> F"
  shows "\<exists>p'. deallocate p a = Inr p' \<and> pool_avail p' (insert a F) \<and> same_pool p p'"
proof -
  from assms(1) obtain fl where rel: "pool_rel p fl" and F: "F = set fl"
    by (auto simp: pool_avail_def)
  show ?thesis
  proof (rule deallocate_ok [OF rel assms(2) assms(3) [unfolded F]])
    fix p'
    assume "deallocate p a = Inr p'" "pool_rel p' (a # fl)" "same_pool p p'"
    then show ?thesis unfolding pool_avail_def F by (metis list.simps(15))
  qed
qed

lemma pool_avail_use:
  assumes "pool_avail p F" "a \<in> pool_blocks p" "a \<notin> F" "n \<le> unat (block_size p)"
  shows "\<exists>p'. use_block p a n = Inr p' \<and> pool_avail p' F \<and> same_pool p p'"
proof -
  from assms(1) obtain fl where rel: "pool_rel p fl" and F: "F = set fl"
    by (auto simp: pool_avail_def)
  show ?thesis
  proof (rule use_block_ok [OF rel assms(2) assms(3) [unfolded F] assms(4)])
    fix p'
    assume "use_block p a n = Inr p'" "pool_rel p' fl" "same_pool p p'"
    then show ?thesis unfolding pool_avail_def F by blast
  qed
qed

lemma pool_avail_blocks:
  assumes "pool_avail p F"
  shows "F \<subseteq> pool_blocks p \<and> finite (pool_blocks p) \<and> nullptr \<notin> pool_blocks p"
proof -
  from assms have "F \<subseteq> pool_blocks p" "pool_geometry p"
    by (auto simp: pool_avail_def pool_rel_def)
  moreover from this(2) have "nullptr \<notin> pool_blocks p"
    using pool_block_notnull by blast
  ultimately show ?thesis by simp
qed

lemma same_pool_simps:
  assumes "same_pool p q"
  shows "pool_blocks q = pool_blocks p" "block_size q = block_size p"
  using assms by (rule same_pool_blocks) (use assms in \<open>simp add: same_pool_def\<close>)

interpretation pool: block_allocator allocate deallocate use_block nullptr
  pool_avail pool_blocks "\<lambda>p. unat (block_size p)"
proof (unfold_locales, goal_cases)
  case (1 p F)
  then show ?case by (rule pool_avail_blocks)
next
  case (2 p)
  then show ?case by (simp add: pool_avail_def allocate_Nil)
next
  case (3 p F)
  from pool_avail_alloc [OF 3] obtain a p' where
    "allocate p = Inr (a, p')" "a \<in> F" "pool_avail p' (F - {a})" and same: "same_pool p p'"
    by blast
  with same_pool_simps [OF same] show ?case by auto
next
  case (4 p F a)
  from pool_avail_dealloc [OF 4] obtain p' where
    "deallocate p a = Inr p'" "pool_avail p' (insert a F)" and same: "same_pool p p'"
    by blast
  with same_pool_simps [OF same] show ?case by auto
next
  case (5 p F a n)
  from pool_avail_use [OF 5] obtain p' where
    "use_block p a n = Inr p'" "pool_avail p' F" and same: "same_pool p p'"
    by blast
  with same_pool_simps [OF same] show ?case by auto
qed

section \<open>Properties of the pool\<close>

text \<open>C8: A client that only frees and uses blocks it holds can never make the pool fail: from a
  fresh pool over an aligned array whose block size is a multiple of the alignment, every sequence of allocations, frees and uses of at most \<open>block_size\<close> bytes runs
  without a failed assertion and without undefined behaviour; the blocks handed out are distinct
  blocks of the array, and \<open>allocate\<close> returns null exactly when all \<open>block_count\<close> blocks are
  held.\<close>

theorem pool_session_safe:
  assumes "pool_area base bs bc"
  shows "\<exists>p0. MemoryPool_new base bs bc = Inr p0 \<and>
    (\<forall>ops. \<exists>p held a p'.
       client_run allocate deallocate use_block nullptr (unat bs) ops (p0, []) = Inr (p, held) \<and>
       distinct held \<and> set held \<subseteq> pool_blocks p0 \<and>
       allocate p = Inr (a, p') \<and> (a = nullptr \<longleftrightarrow> length held = unat bc))"
proof -
  obtain p0 where new: "MemoryPool_new base bs bc = Inr p0"
    and rel: "pool_rel p0 (map (block_addr base bs) [0..<unat bc])"
    and flds: "pool_data p0 = base" "block_size p0 = bs" "block_count p0 = bc"
    using MemoryPool_new_ok [OF assms] by blast
  have blks: "pool_blocks p0 = set (map (block_addr base bs) [0..<unat bc])"
    by (auto simp: pool_blocks_def flds)
  have geo: "pool_geometry p0" using rel by (simp add: pool_rel_def)
  have "pool_avail p0 (pool_blocks p0)" using rel blks by (auto simp: pool_avail_def)
  then have ok: "pool.session_ok (p0, [])" by (simp add: pool.session_ok_def)
  have "\<exists>p held a p'.
       client_run allocate deallocate use_block nullptr (unat bs) ops (p0, []) = Inr (p, held) \<and>
       distinct held \<and> set held \<subseteq> pool_blocks p0 \<and>
       allocate p = Inr (a, p') \<and> (a = nullptr \<longleftrightarrow> length held = unat bc)" for ops
  proof -
    obtain p held where
      run: "client_run allocate deallocate use_block nullptr (unat bs) ops (p0, []) = Inr (p, held)"
      and s: "pool.session_ok (p, held)" "pool_blocks p = pool_blocks p0"
      using pool.session_run [OF ok, of "unat bs" ops] flds(2) by auto
    from s have held: "distinct held" "set held \<subseteq> pool_blocks p0"
      by (simp_all add: pool.session_ok_def)
    obtain a p' where alloc: "allocate p = Inr (a, p')"
      using pool.session_step [OF s(1), of 0 AllocOp] by (auto simp: res_bind_eq_Inr)
    have "a = nullptr \<longleftrightarrow> set held = pool_blocks p0"
      using pool.session_alloc_null_iff [OF s(1) alloc] s(2) by simp
    also have "\<dots> \<longleftrightarrow> card (set held) = card (pool_blocks p0)"
      using held(2) by (metis card_subset_eq finite_pool_blocks)
    also have "\<dots> \<longleftrightarrow> length held = unat bc"
      using held(1) card_pool_blocks [OF geo] flds(3) by (simp add: distinct_card)
    finally show ?thesis using run held alloc by blast
  qed
  with new show ?thesis by blast
qed

theorem pool_session_safe_witness:
  "pool_area 4096 16 2 \<and> (\<exists>p0. MemoryPool_new 4096 16 2 = Inr p0 \<and>
    (\<forall>ops. \<exists>p held a p'.
       client_run allocate deallocate use_block nullptr (unat (16 :: size_t)) ops (p0, []) =
         Inr (p, held) \<and>
       distinct held \<and> set held \<subseteq> pool_blocks p0 \<and>
       allocate p = Inr (a, p') \<and> (a = nullptr \<longleftrightarrow> length held = unat (2 :: size_t))))"
proof -
  have area: "pool_area 4096 16 2" by (simp add: pool_area_def ptr_aligned_def)
  show ?thesis using area pool_session_safe [OF area] by blast
qed

text \<open>C27: The linked free list implements a stack of blocks: on a pool whose free list spells
  \<open>fl\<close>, \<open>allocate\<close> pops the first block (or returns null and changes nothing when \<open>fl\<close> is
  empty) and \<open>deallocate\<close> of a block that is not free pushes it.\<close>

theorem pool_refines_block_stack:
  assumes "pool_rel p fl"
  shows "(case fl of
      [] \<Rightarrow> allocate p = Inr (nullptr, p)
    | b # fl' \<Rightarrow> \<exists>p'. allocate p = Inr (b, p') \<and> pool_rel p' fl' \<and> same_pool p p') \<and>
    (\<forall>a \<in> pool_blocks p - set fl.
       \<exists>p'. deallocate p a = Inr p' \<and> pool_rel p' (a # fl) \<and> same_pool p p')"
proof (intro conjI ballI)
  show "case fl of
      [] \<Rightarrow> allocate p = Inr (nullptr, p)
    | b # fl' \<Rightarrow> \<exists>p'. allocate p = Inr (b, p') \<and> pool_rel p' fl' \<and> same_pool p p'"
    using assms allocate_Nil allocate_Cons by (cases fl) (simp, fastforce)
next
  fix a
  assume "a \<in> pool_blocks p - set fl"
  then show "\<exists>p'. deallocate p a = Inr p' \<and> pool_rel p' (a # fl) \<and> same_pool p p'"
    using deallocate_ok [OF assms, of a] by blast
qed

theorem pool_refines_block_stack_witness:
  "\<exists>p p'. MemoryPool_new 4096 16 2 = Inr p \<and> pool_rel p [4096, 4112] \<and>
     allocate p = Inr (4096, p') \<and> pool_rel p' [4112]"
proof -
  have area: "pool_area 4096 16 2" by (simp add: pool_area_def ptr_aligned_def)
  obtain p where new: "MemoryPool_new 4096 16 2 = Inr p"
    and rel: "pool_rel p (map (block_addr 4096 16) [0..<unat (2 :: size_t)])"
    using MemoryPool_new_ok [OF area] by blast
  have "map (block_addr 4096 16) [0..<unat (2 :: size_t)] = [4096, 4112]"
    by (simp add: upt_rec [of _ 2] block_addr_def)
  with rel have rel: "pool_rel p [4096, 4112]" by simp
  from pool_refines_block_stack [OF rel] new rel show ?thesis by auto
qed

text \<open>A block that is given back is the next one handed out, and the exchange leaves the
  rest of the free list as it was.\<close>

lemma pool_dealloc_alloc_roundtrip:
  assumes "pool_rel p fl" "a \<in> pool_blocks p" "a \<notin> set fl"
  shows "\<exists>p1 p2. deallocate p a = Inr p1 \<and> allocate p1 = Inr (a, p2) \<and> pool_rel p2 fl \<and>
    free_list p2 = free_list p \<and> same_pool p p2"
proof -
  obtain p1 where p1: "deallocate p a = Inr p1" "pool_rel p1 (a # fl)" "same_pool p p1"
    using deallocate_ok [OF assms] by blast
  obtain p2 where p2: "allocate p1 = Inr (a, p2)" "pool_rel p2 fl" "same_pool p1 p2"
    using allocate_Cons [OF p1(2)] by blast
  have "free_list p2 = free_list p"
    using assms(1) p2(2) by (cases fl) (auto simp: pool_rel_def)
  with p1 p2 show ?thesis using same_pool_trans by blast
qed

text \<open>Every misuse the pool checks ends in the assertion of the source: a pool without
  blocks, blocks no larger than a pointer, and the return of an address outside the array,
  which leaves no state behind.\<close>

lemma pool_misuse_asserts:
  "MemoryPool_new base bs 0 = Inl (AssertFailed ''block_count must be greater than 0'') \<and>
   (bc \<noteq> 0 \<and> bs \<le> 8 \<longrightarrow> MemoryPool_new base bs bc =
      Inl (AssertFailed ''block_size must be greater than a pointer size'')) \<and>
   (\<not> in_pool_area p a \<longrightarrow> deallocate p a =
      Inl (AssertFailed ''Trying to deallocate a pointer not in the memory pool''))"
  by (simp add: MemoryPool_new_def deallocate_def word_gt_0 not_less)

text \<open>C38: The size of the array is computed modulo \<open>2 ^ 64\<close>: where \<open>block_size * block_count\<close>
  wraps to zero, the constructor passes its assertions and then writes outside the array.\<close>

theorem pool_size_wrap_writes_outside:
  assumes "0 < bc" "8 < bs" "bs * bc = 0"
  shows "MemoryPool_new base bs bc = Inl (UB ''write outside the array'')"
proof -
  have empty: "make_unique_bytes base (bs * bc) = Map.empty"
    using assms(3) by (simp add: make_unique_bytes_def)
  have store: "store_ptr Map.empty a q = Inl (UB ''write outside the array'')" for a q
    by (simp add: store_ptr_def ptr_bytes_def upt_rec)
  consider "link_blocks Map.empty base bs (unat (bc - 1)) = Inl (UB ''write outside the array'')"
    | "link_blocks Map.empty base bs (unat (bc - 1)) = Inr (Map.empty, base)"
    by (cases "unat (bc - 1)") (simp_all add: store)
  then show ?thesis using assms empty by cases (simp_all add: MemoryPool_new_def store)
qed

theorem pool_size_wrap_writes_outside_witness:
  "MemoryPool_new 4096 9223372036854775808 2 = Inl (UB ''write outside the array'')"
  by (rule pool_size_wrap_writes_outside) simp_all

text \<open>C40: The constructor does not check that blocks can hold pointers one after the other: with
  an array at an aligned address and two or more blocks of a size above eight that is not a
  multiple of the alignment of a pointer, both assertions hold and the second link (or the
  final null) is stored at a misaligned address, which is undefined behaviour.\<close>

theorem pool_misaligned_blocks:
  assumes "ptr_aligned base" "8 < bs" "\<not> alignof_ptr dvd unat bs" "1 < bc"
    and "unat base + unat bs * unat bc < 2 ^ 64"
  shows "MemoryPool_new base bs bc = Inl (UB ''misaligned access'')"
proof -
  let ?m0 = "make_unique_bytes base (bs * bc)" and ?b = "base + bs"
  have guards: "bc > 0" "1 < unat bc" "8 < unat bs"
    using assms(2,4) by (auto simp: word_less_nat_alt)
  have two: "unat bs + unat bs \<le> unat bs * unat bc"
    using guards(2) mult_le_mono2 [of 2 "unat bc" "unat bs"] by (simp add: mult_2_right)
  have size: "unat (bs * bc) = unat bs * unat bc"
    using assms(5) by (intro unat_mult_no_wrap) simp
  have mapped: "span_of a 8 \<subseteq> dom ?m0" if "a = base \<or> a = ?b" for a
  proof
    fix x assume "x \<in> span_of a 8"
    with that obtain k where k: "k < 8" "x - base = of_nat k \<or> x - base = bs + of_nat k"
      by (auto simp: span_of_def)
    have k': "unat (of_nat k :: size_t) = k" using k(1) by (simp add: unat_of_nat)
    have "unat (bs + of_nat k) = (unat bs + k) mod 2 ^ 64"
      using k' by (simp only: unat_word_ariths(1)) simp
    then have "unat (bs + of_nat k) \<le> unat bs + k" by simp
    with k k' guards(3) two have "unat (x - base) < unat bs * unat bc"
      by (elim disjE) simp_all
    then show "x \<in> dom ?m0"
      by (simp add: make_unique_bytes_def word_less_nat_alt size domIff)
  qed
  obtain m1 where m1: "store_ptr ?m0 base ?b = Inr m1"
    using store_ptr_succeeds [OF mapped assms(1)] by auto
  have "unat ?b = unat base + unat bs"
    using assms(5) two by (intro unat_add_no_wrap) simp
  then have "\<not> ptr_aligned ?b"
    using assms(1,3) by (simp add: ptr_aligned_def dvd_add_right_iff)
  moreover have "span_of ?b 8 \<subseteq> dom m1"
    using mapped [of ?b] store_ptr_dom [OF m1] by simp
  ultimately have bad: "store_ptr m1 ?b q = Inl (UB ''misaligned access'')" for q
    by (intro store_ptr_misaligned)
  have "unat (bc - 1) = unat bc - 1" using guards(2) by (simp add: unat_sub_if')
  then obtain n where n: "unat (bc - 1) = Suc n" using guards(2) by (cases "unat bc - 1") auto
  have loop: "(case link_blocks ?m0 base bs (Suc n) of Inl e \<Rightarrow> Inl e
      | Inr (m, a) \<Rightarrow> store_ptr m a nullptr) = Inl (UB ''misaligned access'')"
    using m1 bad by (cases n) simp_all
  then show ?thesis
    using guards(1) assms(2) unfolding MemoryPool_new_def n
    by (auto simp: res_bind_def split: sum.splits)
qed

theorem pool_misaligned_blocks_witness:
  "MemoryPool_new 4096 12 2 = Inl (UB ''misaligned access'')"
  by (rule pool_misaligned_blocks) (simp_all add: ptr_aligned_def)

end
