(* ===== verification/Msg.thy ===== *)
theory Msg
  imports Prelude
begin

text \<open>
  The messages of the system: the task states of \<^verbatim>\<open>task_state.h\<close>, the message structs of
  \<^verbatim>\<open>system_msgs.h\<close>, the variant, the type enumeration and the priority table that
  \<^verbatim>\<open>msg_variant_types_default.h\<close> generates from one list, and the class \<open>Msg\<close> of \<^verbatim>\<open>msg.h\<close>.
\<close>

section \<open>Task states\<close>

text \<open>
  The enumeration has the underlying type \<^verbatim>\<open>int\<close>, so a cast from a byte may give a value
  with no enumerator: \<open>Unenumerated n\<close> stands for such a value \<open>n\<close>.
\<close>

datatype TaskState = NOT_STARTED | IDLE | RUNNING | STOPPED | ERROR | Unenumerated int

definition TaskState_of_int :: "int \<Rightarrow> TaskState" where
  "TaskState_of_int n =
     (if n = 0 then NOT_STARTED else if n = 1 then IDLE else if n = 2 then RUNNING
      else if n = 3 then STOPPED else if n = 4 then ERROR else Unenumerated n)"

fun TaskState_value :: "TaskState \<Rightarrow> int" where
  "TaskState_value NOT_STARTED = 0"
| "TaskState_value IDLE = 1"
| "TaskState_value RUNNING = 2"
| "TaskState_value STOPPED = 3"
| "TaskState_value ERROR = 4"
| "TaskState_value (Unenumerated n) = n"

text \<open>\<^verbatim>\<open>static_cast<TaskState>(byte)\<close> and \<^verbatim>\<open>static_cast<uint8_t>(state)\<close>.\<close>

definition state_of_byte :: "uint8_t \<Rightarrow> TaskState" where
  "state_of_byte b = TaskState_of_int (uint b)"

definition byte_of_state :: "TaskState \<Rightarrow> uint8_t" where
  "byte_of_state s = word_of_int (TaskState_value s)"

fun task_state_to_string :: "TaskState \<Rightarrow> string" where
  "task_state_to_string NOT_STARTED = ''NOT_STARTED''"
| "task_state_to_string IDLE = ''IDLE''"
| "task_state_to_string RUNNING = ''RUNNING''"
| "task_state_to_string STOPPED = ''STOPPED''"
| "task_state_to_string ERROR = ''ERROR''"
| "task_state_to_string (Unenumerated n) = ''UNKNOWN''"

section \<open>Message payloads\<close>

text \<open>The alternatives of \<open>MessageVariant\<close>, in the order of \<open>MESSAGE_VARIANT_TYPES\<close>.\<close>

datatype MessageVariant =
    StateMsg (sm_state: uint8_t)
  | StateAckMsg (sa_state: uint8_t)
  | HeartbeatMsg (hb_unique_id: uint32_t) (hb_timestamp: uint64_t)
  | HeartbeatAckMsg (ha_orig_unique_id: uint32_t) (ha_orig_timestamp: uint64_t)
      (ha_ack_timestamp: uint64_t)

datatype Type = Type_StateMsg | Type_StateAckMsg | Type_HeartbeatMsg | Type_HeartbeatAckMsg

text \<open>The three tables the macro list expands to.\<close>

definition message_types :: "Type list" where
  "message_types = [Type_StateMsg, Type_StateAckMsg, Type_HeartbeatMsg, Type_HeartbeatAckMsg]"

definition message_priorities :: "uint16_t list" where
  "message_priorities = [100, 99, 50, 49]"

definition message_type_names :: "string list" where
  "message_type_names = [''StateMsg'', ''StateAckMsg'', ''HeartbeatMsg'', ''HeartbeatAckMsg'']"

fun variant_index :: "MessageVariant \<Rightarrow> nat" where
  "variant_index (StateMsg _) = 0"
| "variant_index (StateAckMsg _) = 1"
| "variant_index (HeartbeatMsg _ _) = 2"
| "variant_index (HeartbeatAckMsg _ _ _) = 3"

fun type_index :: "Type \<Rightarrow> nat" where
  "type_index Type_StateMsg = 0"
| "type_index Type_StateAckMsg = 1"
| "type_index Type_HeartbeatMsg = 2"
| "type_index Type_HeartbeatAckMsg = 3"

definition msg_type_to_string :: "Type \<Rightarrow> string" where
  "msg_type_to_string t =
     (if type_index t < length message_type_names then message_type_names ! type_index t
      else ''Unknown'')"

text \<open>The member functions \<open>str()\<close> of the four structs.\<close>

fun payload_str :: "MessageVariant \<Rightarrow> string" where
  "payload_str (StateMsg s) =
     ''StateMsg { State = '' @ task_state_to_string (state_of_byte s) @ '' }''"
| "payload_str (StateAckMsg s) =
     ''StateAckMsg { State = '' @ task_state_to_string (state_of_byte s) @ '' }''"
| "payload_str (HeartbeatMsg i t) =
     ''HeartBeatMsg { Unique_id = '' @ to_string i @ '' timestamp = '' @ to_string t @ '' }''"
| "payload_str (HeartbeatAckMsg i t a) =
     ''HeartbeatAckMsg { orig Unique_id = '' @ to_string i @ '' orig timestamp = '' @ to_string t @
     '' ack timestamp = '' @ to_string a @ '' }''"

section \<open>The class Msg\<close>

record Msg =
  sending_task :: ptr
  msg_data :: MessageVariant
  msg_priority :: uint16_t
  msg_type :: Type

definition get_internal_priority :: "MessageVariant \<Rightarrow> uint16_t result" where
  "get_internal_priority d =
     res_bind (assert_that (variant_index d < length message_priorities)
       ''index < (sizeof(message_priorities) / sizeof(message_priorities[0]))'') (\<lambda>_.
     Inr (message_priorities ! variant_index d))"

definition get_internal_type :: "MessageVariant \<Rightarrow> Type result" where
  "get_internal_type d =
     res_bind (assert_that (variant_index d < length message_types)
       ''index < std::variant_size<MessageVariant>::value'') (\<lambda>_.
     Inr (message_types ! variant_index d))"

definition Msg_new :: "ptr \<Rightarrow> MessageVariant \<Rightarrow> Msg result" where
  "Msg_new sender d =
     res_bind (get_internal_priority d) (\<lambda>pr.
     res_bind (get_internal_type d) (\<lambda>t.
     Inr \<lparr>sending_task = sender, msg_data = d, msg_priority = pr, msg_type = t\<rparr>))"

definition has_data_type :: "Type \<Rightarrow> Msg \<Rightarrow> bool" where
  "has_data_type t m \<longleftrightarrow> variant_index (msg_data m) = type_index t"

text \<open>\<^verbatim>\<open>get_data_as<T>()\<close>: the payload when its alternative is \<open>T\<close>, a null pointer otherwise.\<close>

definition get_data_as :: "Type \<Rightarrow> Msg \<Rightarrow> MessageVariant option" where
  "get_data_as t m = (if variant_index (msg_data m) = type_index t then Some (msg_data m) else None)"

definition get_priority :: "Msg \<Rightarrow> uint16_t" where
  "get_priority m = msg_priority m"

definition get_type :: "Msg \<Rightarrow> Type" where
  "get_type m = msg_type m"

definition get_sender :: "Msg \<Rightarrow> ptr" where
  "get_sender m = sending_task m"

text \<open>\<^verbatim>\<open>operator<\<close>\<close>

definition msg_less :: "Msg \<Rightarrow> Msg \<Rightarrow> bool" where
  "msg_less a b \<longleftrightarrow> msg_priority a < msg_priority b"

text \<open>
  The trait \<open>has_str\<close>: for a type whose expression \<^verbatim>\<open>std::declval<const T>().str()\<close> is ill-formed the
  primary template says no, and otherwise the specialisation compares the type of the expression.
  \<open>str_result\<close> is that type for the structs of the variant.
\<close>

datatype result_type = Std_string | Other_type

definition has_str :: "result_type option \<Rightarrow> bool" where
  "has_str result = (case result of None \<Rightarrow> False | Some ty \<Rightarrow> ty = Std_string)"

fun str_result :: "Type \<Rightarrow> result_type option" where
  "str_result Type_StateMsg = Some Std_string"
| "str_result Type_StateAckMsg = Some Std_string"
| "str_result Type_HeartbeatMsg = Some Std_string"
| "str_result Type_HeartbeatAckMsg = Some Std_string"

text \<open>\<open>Msg::str\<close>; its static assertion on every alternative of the variant is \<open>str_assertion\<close> below.\<close>

definition msg_str :: "Msg \<Rightarrow> string" where
  "msg_str m = payload_str (msg_data m)"

section \<open>Lemmas\<close>

lemma str_assertion: "list_all (\<lambda>ty. has_str (str_result ty)) message_types"
  by (simp add: has_str_def message_types_def)

lemma message_tables_length [simp]:
  "length message_types = 4" "length message_priorities = 4" "length message_type_names = 4"
  by (simp_all add: message_types_def message_priorities_def message_type_names_def)

lemma variant_index_less [simp]: "variant_index d < 4"
  by (cases d) simp_all

lemma type_index_less [simp]: "type_index t < 4"
  by (cases t) simp_all

lemma type_index_inject [simp]: "type_index s = type_index t \<longleftrightarrow> s = t"
  by (cases s; cases t) simp_all

lemma type_index_message_types [simp]: "type_index (message_types ! variant_index d) = variant_index d"
  by (cases d) (simp_all add: message_types_def)

lemma message_types_nth [simp]: "message_types ! type_index t = t"
  by (cases t) (simp_all add: message_types_def)

text \<open>A message whose priority and type are those the constructor computes from the payload.\<close>

definition wf_msg :: "Msg \<Rightarrow> bool" where
  "wf_msg m \<longleftrightarrow> msg_priority m = message_priorities ! variant_index (msg_data m) \<and>
     msg_type m = message_types ! variant_index (msg_data m)"

lemma Msg_new_eq [simp]:
  "Msg_new s d = Inr \<lparr>sending_task = s, msg_data = d,
     msg_priority = message_priorities ! variant_index d,
     msg_type = message_types ! variant_index d\<rparr>"
  by (simp add: Msg_new_def get_internal_priority_def get_internal_type_def)

lemma wf_msg_Msg_new [wf_intros]: "Msg_new s d = Inr m \<Longrightarrow> wf_msg m"
  by (auto simp: wf_msg_def)

lemma get_data_as_wf: "wf_msg m \<Longrightarrow> get_data_as t m = (if t = msg_type m then Some (msg_data m) else None)"
  by (auto simp: get_data_as_def wf_msg_def)

lemma wf_msg_type_cases:
  assumes "wf_msg m"
  shows "msg_type m = Type_StateMsg \<longleftrightarrow> (\<exists>s. msg_data m = StateMsg s)"
    and "msg_type m = Type_StateAckMsg \<longleftrightarrow> (\<exists>s. msg_data m = StateAckMsg s)"
    and "msg_type m = Type_HeartbeatMsg \<longleftrightarrow> (\<exists>i t. msg_data m = HeartbeatMsg i t)"
    and "msg_type m = Type_HeartbeatAckMsg \<longleftrightarrow> (\<exists>i t a. msg_data m = HeartbeatAckMsg i t a)"
  using assms by (cases "msg_data m"; simp add: wf_msg_def message_types_def)+

lemma byte_of_state_of_byte [simp]: "byte_of_state (state_of_byte b) = b"
proof -
  have "TaskState_value (TaskState_of_int n) = n" for n by (simp add: TaskState_of_int_def)
  then show ?thesis by (simp add: byte_of_state_def state_of_byte_def)
qed

lemma state_of_byte_of_state [simp]:
  "\<forall>n. s \<noteq> Unenumerated n \<Longrightarrow> state_of_byte (byte_of_state s) = s"
  by (cases s) (simp_all add: state_of_byte_def byte_of_state_def TaskState_of_int_def)

text \<open>Text after a decimal numeral is found again, when it does not start with a digit.\<close>

lemma decimal_append_inject:
  assumes "decimal m @ c # xs = decimal n @ d # ys" "\<not> is_digit c" "\<not> is_digit d"
  shows "m = n \<and> c # xs = d # ys"
proof -
  have digits: "takeWhile is_digit (decimal k @ e # zs) = decimal k" if "\<not> is_digit e" for k e zs
    using that decimal_digits [of k] by (simp add: takeWhile_append2)
  have "decimal m = decimal n"
    using digits [OF assms(2), of m xs] digits [OF assms(3), of n ys] assms(1) by simp
  with assms(1) show ?thesis by simp
qed

lemma task_state_to_string_inject:
  "\<forall>n. s \<noteq> Unenumerated n \<Longrightarrow> \<forall>n. t \<noteq> Unenumerated n \<Longrightarrow>
     task_state_to_string s = task_state_to_string t \<longleftrightarrow> s = t"
  by (cases s; cases t) simp_all

text \<open>The state a payload names, if any, has an enumerator.\<close>

definition enumerated_payload :: "MessageVariant \<Rightarrow> bool" where
  "enumerated_payload d \<longleftrightarrow> (case d of
      StateMsg s \<Rightarrow> s < 5 | StateAckMsg s \<Rightarrow> s < 5 | _ \<Rightarrow> True)"

lemma state_of_byte_enumerated: "b < 5 \<Longrightarrow> \<forall>n. state_of_byte b \<noteq> Unenumerated n"
proof -
  assume "b < 5"
  then have "uint b < 5" by (simp add: word_less_def)
  with uint_ge_0 [of b] have "uint b = 0 \<or> uint b = 1 \<or> uint b = 2 \<or> uint b = 3 \<or> uint b = 4"
    by linarith
  then show ?thesis by (auto simp: state_of_byte_def TaskState_of_int_def)
qed

lemma state_of_byte_inject [simp]: "state_of_byte a = state_of_byte b \<longleftrightarrow> a = b"
  using byte_of_state_of_byte by metis

section \<open>Properties of messages\<close>

text \<open>Constructing a message never fails, and the stored type and priority always describe
  the stored payload: the type is the index of the payload's alternative, the priority is the
  table's entry for it, and \<open>get_data_as\<close> answers with the payload exactly for the message's own
  type, so a handler that switches on \<open>get_type\<close> never dereferences a null payload.\<close>

lemma msg_new_consistent:
  "\<exists>m. Msg_new s d = Inr m \<and> get_sender m = s \<and> type_index (get_type m) = variant_index d \<and>
     get_priority m = message_priorities ! variant_index d \<and>
     (\<forall>t. has_data_type t m \<longleftrightarrow> t = get_type m) \<and>
     (\<forall>t. get_data_as t m = (if t = get_type m then Some d else None))"
  by (auto simp: get_sender_def get_type_def get_priority_def has_data_type_def get_data_as_def)

text \<open>The byte of a state message survives the casts of the state machine: casting it to a
  state and back gives the byte, and a state with an enumerator survives the casts to a byte and
  back; the bytes from 5 on are the ones printed as \<open>UNKNOWN\<close>.\<close>

lemma task_state_byte_roundtrip:
  "byte_of_state (state_of_byte b) = b \<and>
   state_of_byte (byte_of_state (TaskState_of_int (int k mod 5))) = TaskState_of_int (int k mod 5) \<and>
   (task_state_to_string (state_of_byte b) = ''UNKNOWN'' \<longleftrightarrow> 5 \<le> b)"
proof -
  have enum: "\<forall>n. TaskState_of_int (int k mod 5) \<noteq> Unenumerated n"
  proof -
    have "int k mod 5 \<in> {0, 1, 2, 3, 4}" by auto
    then show ?thesis by (auto simp: TaskState_of_int_def)
  qed
  have "task_state_to_string (state_of_byte b) = ''UNKNOWN'' \<longleftrightarrow> \<not> b < 5"
  proof (cases "b < 5")
    case True
    then have "\<forall>n. state_of_byte b \<noteq> Unenumerated n" by (rule state_of_byte_enumerated)
    with True show ?thesis by (cases "state_of_byte b") simp_all
  next
    case False
    then have "5 \<le> uint b" by (simp add: word_less_def)
    with False show ?thesis by (simp add: state_of_byte_def TaskState_of_int_def)
  qed
  with enum show ?thesis by (simp add: not_less)
qed

text \<open>The log text of a message determines its payload: two payloads whose states have
  enumerators and that print the same text are equal.\<close>

lemma payload_str_injective:
  assumes "payload_str d = payload_str e" "enumerated_payload d" "enumerated_payload e"
  shows "d = e"
  using assms
proof (cases d; cases e)
  fix i t j u
  assume "d = HeartbeatMsg i t" "e = HeartbeatMsg j u"
  with assms(1) show ?thesis
    by (auto simp: to_string_def is_digit_def word_unat_eq_iff dest!: decimal_append_inject)
next
  fix i t a j u b
  assume "d = HeartbeatAckMsg i t a" "e = HeartbeatAckMsg j u b"
  with assms(1) show ?thesis
    by (auto simp: to_string_def is_digit_def word_unat_eq_iff dest!: decimal_append_inject)
qed (auto simp: enumerated_payload_def task_state_to_string_inject state_of_byte_enumerated)

end
