(* ===== verification/Std_Heap.thy ===== *)
theory Std_Heap
  imports Prelude
begin

text \<open>
  The two standard algorithms the message queue calls on its vector, \<^verbatim>\<open>std::push_heap\<close> and
  \<^verbatim>\<open>std::pop_heap\<close>, as libstdc++ implements them: a hole is moved up (\<open>push_hole\<close>,
  \<^verbatim>\<open>__push_heap\<close>) or down to a leaf and up again (\<open>adjust_hole\<close>, \<^verbatim>\<open>__adjust_heap\<close>). The
  locale \<open>std_heap_ops\<close> is the contract the C++ standard gives; it is proved here for the
  implementation under any strict weak order, and the queue is verified from the contract.
\<close>

section \<open>The algorithms\<close>

definition heap_parent :: "nat \<Rightarrow> nat" where
  "heap_parent i = (i - 1) div 2"

function push_hole :: "('a \<Rightarrow> 'a \<Rightarrow> bool) \<Rightarrow> 'a list \<Rightarrow> nat \<Rightarrow> 'a \<Rightarrow> 'a list" where
  "push_hole cmp xs hole v =
     (if hole > 0 \<and> cmp (xs ! heap_parent hole) v
      then push_hole cmp (xs[hole := xs ! heap_parent hole]) (heap_parent hole) v
      else xs[hole := v])"
  by pat_completeness auto
termination
  by (relation "measure (\<lambda>(cmp, xs, hole, v). hole)") (auto simp: heap_parent_def)

function sink_hole :: "('a \<Rightarrow> 'a \<Rightarrow> bool) \<Rightarrow> 'a list \<Rightarrow> nat \<Rightarrow> nat \<Rightarrow> 'a list \<times> nat" where
  "sink_hole cmp xs hole len =
     (if hole < (len - 1) div 2
      then let second = 2 * (hole + 1);
               child = (if cmp (xs ! second) (xs ! (second - 1)) then second - 1 else second)
           in sink_hole cmp (xs[hole := xs ! child]) child len
      else if even len \<and> 0 < len \<and> hole = (len - 2) div 2
      then (xs[hole := xs ! (2 * hole + 1)], 2 * hole + 1)
      else (xs, hole))"
  by pat_completeness auto
termination
  by (relation "measure (\<lambda>(cmp, xs, hole, len). len - hole)") (auto simp: Let_def)

declare push_hole.simps [simp del] sink_hole.simps [simp del]

definition push_heap :: "('a \<Rightarrow> 'a \<Rightarrow> bool) \<Rightarrow> 'a list \<Rightarrow> 'a list" where
  "push_heap cmp xs = push_hole cmp xs (length xs - 1) (last xs)"

definition pop_heap :: "('a \<Rightarrow> 'a \<Rightarrow> bool) \<Rightarrow> 'a list \<Rightarrow> 'a list" where
  "pop_heap cmp xs =
     (if length xs > 1
      then let v = last xs; top = hd xs; ys = butlast xs; (zs, hole) = sink_hole cmp ys 0 (length ys)
           in push_hole cmp zs hole v @ [top]
      else xs)"

definition is_heap :: "('a \<Rightarrow> 'a \<Rightarrow> bool) \<Rightarrow> 'a list \<Rightarrow> bool" where
  "is_heap cmp xs \<longleftrightarrow> (\<forall>i\<in>{1..<length xs}. \<not> cmp (xs ! heap_parent i) (xs ! i))"

section \<open>The contract\<close>

text \<open>A strict weak order on a carrier, as every standard comparator must be.\<close>

locale strict_weak_order =
  fixes cmp :: "'a \<Rightarrow> 'a \<Rightarrow> bool"
    and carrier :: "'a set"
  assumes asym: "a \<in> carrier \<Longrightarrow> b \<in> carrier \<Longrightarrow> cmp a b \<Longrightarrow> \<not> cmp b a"
    and negtrans: "a \<in> carrier \<Longrightarrow> b \<in> carrier \<Longrightarrow> c \<in> carrier \<Longrightarrow>
      \<not> cmp a b \<Longrightarrow> \<not> cmp b c \<Longrightarrow> \<not> cmp a c"

context strict_weak_order
begin

lemma strict_trans:
  "a \<in> carrier \<Longrightarrow> b \<in> carrier \<Longrightarrow> c \<in> carrier \<Longrightarrow> cmp a b \<Longrightarrow> \<not> cmp c b \<Longrightarrow> cmp a c"
  using negtrans by blast

lemma irrefl: "a \<in> carrier \<Longrightarrow> \<not> cmp a a"
  using asym by blast

end

text \<open>
  \<open>heap_but xs h\<close>: ignoring position \<open>h\<close>, every element is no greater than its parent, and
  the children of \<open>h\<close> are no greater than the parent of \<open>h\<close>.
\<close>

definition heap_but :: "('a \<Rightarrow> 'a \<Rightarrow> bool) \<Rightarrow> 'a list \<Rightarrow> nat \<Rightarrow> bool" where
  "heap_but cmp xs h \<longleftrightarrow>
     (\<forall>i. 0 < i \<and> i < length xs \<and> i \<noteq> h \<and> heap_parent i \<noteq> h \<longrightarrow> \<not> cmp (xs ! heap_parent i) (xs ! i)) \<and>
     (\<forall>c. 0 < h \<and> 0 < c \<and> c < length xs \<and> heap_parent c = h \<longrightarrow> \<not> cmp (xs ! heap_parent h) (xs ! c))"

lemma is_heap_alt:
  "is_heap cmp xs \<longleftrightarrow> (\<forall>i. 0 < i \<and> i < length xs \<longrightarrow> \<not> cmp (xs ! heap_parent i) (xs ! i))"
  by (auto simp: is_heap_def)

lemma heap_parent_less: "0 < i \<Longrightarrow> heap_parent i < i"
  by (auto simp: heap_parent_def)

lemma heap_parent_bound: "0 < i \<Longrightarrow> i < n \<Longrightarrow> heap_parent i < n"
  using heap_parent_less less_trans by blast

lemma heap_parent_child [simp]:
  "heap_parent (Suc (2 * h)) = h" "heap_parent (Suc (Suc (2 * h))) = h"
  by (simp_all add: heap_parent_def)

lemma heap_children: "0 < c \<Longrightarrow> heap_parent c = h \<Longrightarrow> c = 2 * h + 1 \<or> c = 2 * h + 2"
  unfolding heap_parent_def by presburger

lemma mset_hole_move:
  assumes "h < length xs" "c < length xs" "h \<noteq> c"
  shows "mset (xs[h := xs ! c, c := v]) = mset (xs[h := v])"
  using mset_swap [of c "xs[h := v]" h] assms by simp

context strict_weak_order
begin

lemma heap_but_up:
  assumes car: "set xs \<subseteq> carrier" "v \<in> carrier" and h: "0 < h" "h < length xs"
    and hb: "heap_but cmp xs h" and up: "cmp (xs ! heap_parent h) v"
  defines "ys \<equiv> xs[h := xs ! heap_parent h]"
  shows "heap_but cmp ys (heap_parent h)"
    and "\<And>c. 0 < c \<Longrightarrow> c < length ys \<Longrightarrow> heap_parent c = heap_parent h \<Longrightarrow> \<not> cmp v (ys ! c)"
proof -
  let ?p = "heap_parent h"
  have p: "?p < h" "?p < length xs" using h heap_parent_less [of h] by auto
  note edge = hb [unfolded heap_but_def, THEN conjunct1, rule_format]
  note grand = hb [unfolded heap_but_def, THEN conjunct2, rule_format]
  have mem: "xs ! i \<in> carrier" if "i < length xs" for i
    using car(1) that nth_mem by blast
  have sib: "\<not> cmp (xs ! ?p) (xs ! c)" if "0 < c" "c < length xs" "heap_parent c = ?p" "c \<noteq> h" for c
    using edge [of c] that p by simp
  have ys: "ys ! i = (if i = h then xs ! ?p else xs ! i)" if "i < length xs" for i
    using that by (simp add: ys_def)
  show "heap_but cmp ys ?p"
    unfolding heap_but_def
  proof (intro conjI allI impI)
    fix i assume i: "0 < i \<and> i < length ys \<and> i \<noteq> ?p \<and> heap_parent i \<noteq> ?p"
    then have len: "i < length xs" "heap_parent i < length xs" and "i \<noteq> h"
      using heap_parent_bound by (auto simp: ys_def)
    then show "\<not> cmp (ys ! heap_parent i) (ys ! i)"
      using i edge [of i] grand [of i] h by (cases "heap_parent i = h") (simp_all add: ys)
  next
    fix c assume c: "0 < ?p \<and> 0 < c \<and> c < length ys \<and> heap_parent c = ?p"
    then have len: "c < length xs" "heap_parent ?p < length xs" "heap_parent ?p \<noteq> h"
      using p heap_parent_less [of ?p] by (auto simp: ys_def)
    have top: "\<not> cmp (xs ! heap_parent ?p) (xs ! ?p)" using edge [of ?p] c p len by simp
    show "\<not> cmp (ys ! heap_parent ?p) (ys ! c)"
    proof (cases "c = h")
      case True
      with top len show ?thesis by (simp add: ys)
    next
      case False
      with c len sib have "\<not> cmp (xs ! ?p) (xs ! c)" by simp
      then have "\<not> cmp (xs ! heap_parent ?p) (xs ! c)"
        by (rule negtrans [OF mem [OF len(2)] mem [OF p(2)] mem [OF len(1)] top])
      with len False show ?thesis by (simp add: ys)
    qed
  qed
  fix c assume c: "0 < c" "c < length ys" "heap_parent c = ?p"
  then have len: "c < length xs" by (simp add: ys_def)
  show "\<not> cmp v (ys ! c)"
  proof (cases "c = h")
    case True
    with asym [OF mem [OF p(2)] car(2) up] len show ?thesis by (simp add: ys)
  next
    case False
    with c len sib have "\<not> cmp (xs ! ?p) (xs ! c)" by simp
    then have "cmp (xs ! c) v"
      using negtrans [OF mem [OF p(2)] mem [OF len] car(2)] up by blast
    with asym [OF mem [OF len] car(2)] len False show ?thesis by (simp add: ys)
  qed
qed

lemma heap_but_close:
  assumes "heap_but cmp xs h" "h < length xs" "h = 0 \<or> \<not> cmp (xs ! heap_parent h) v"
    and "\<And>c. 0 < c \<Longrightarrow> c < length xs \<Longrightarrow> heap_parent c = h \<Longrightarrow> \<not> cmp v (xs ! c)"
  shows "is_heap cmp (xs[h := v])"
  unfolding is_heap_alt
proof (intro allI impI)
  fix i assume i: "0 < i \<and> i < length (xs[h := v])"
  then have "heap_parent i < length xs" "heap_parent i < i"
    using heap_parent_less [of i] by auto
  with i assms show "\<not> cmp (xs[h := v] ! heap_parent i) (xs[h := v] ! i)"
    by (cases "i = h"; cases "heap_parent i = h") (auto simp: nth_list_update heap_but_def)
qed

lemma heap_but_down:
  assumes hb: "heap_but cmp xs h" and h: "h < length xs"
    and c: "0 < c" "c < length xs" "heap_parent c = h"
    and max: "\<And>d. 0 < d \<Longrightarrow> d < length xs \<Longrightarrow> heap_parent d = h \<Longrightarrow> \<not> cmp (xs ! c) (xs ! d)"
  shows "heap_but cmp (xs[h := xs ! c]) c"
proof -
  note edge = hb [unfolded heap_but_def, THEN conjunct1, rule_format]
  note grand = hb [unfolded heap_but_def, THEN conjunct2, rule_format]
  show ?thesis
    unfolding heap_but_def
  proof (intro conjI allI impI)
    fix i assume i: "0 < i \<and> i < length (xs[h := xs ! c]) \<and> i \<noteq> c \<and> heap_parent i \<noteq> c"
    then have "i < length xs" "heap_parent i < length xs" "heap_parent i \<noteq> i"
      using heap_parent_less [of i] by auto
    then show "\<not> cmp (xs[h := xs ! c] ! heap_parent i) (xs[h := xs ! c] ! i)"
      using i edge [of i] grand [of c] max [of i] c
      by (cases "i = h"; cases "heap_parent i = h") (auto simp: nth_list_update)
  next
    fix d assume d: "0 < c \<and> 0 < d \<and> d < length (xs[h := xs ! c]) \<and> heap_parent d = c"
    then have "d \<noteq> h" "c \<noteq> h"
      using c heap_parent_less [of c] heap_parent_less [of d] by auto
    with d edge [of d] c h show "\<not> cmp (xs[h := xs ! c] ! heap_parent c) (xs[h := xs ! c] ! d)"
      by (auto simp: nth_list_update)
  qed
qed

lemma push_hole_correct:
  assumes "set xs \<subseteq> carrier" "v \<in> carrier" "h < length xs" "heap_but cmp xs h"
    and "\<And>c. 0 < c \<Longrightarrow> c < length xs \<Longrightarrow> heap_parent c = h \<Longrightarrow> \<not> cmp v (xs ! c)"
  shows "is_heap cmp (push_hole cmp xs h v) \<and> mset (push_hole cmp xs h v) = mset (xs[h := v])"
  using assms
proof (induction h arbitrary: xs rule: less_induct)
  case (less h)
  show ?case
  proof (cases "0 < h \<and> cmp (xs ! heap_parent h) v")
    case True
    let ?ys = "xs[h := xs ! heap_parent h]"
    have p: "heap_parent h < h" "heap_parent h < length xs" using True less.prems(3) heap_parent_less [of h] by auto
    have sub: "set ?ys \<subseteq> carrier"
      using less.prems(1) set_update_subset_insert [of xs h "xs ! heap_parent h"]
        nth_mem [OF p(2)] by blast
    have len: "heap_parent h < length ?ys" using p(2) by simp
    note up = heap_but_up [OF less.prems(1,2) True [THEN conjunct1] less.prems(3,4)
        True [THEN conjunct2]]
    have "is_heap cmp (push_hole cmp ?ys (heap_parent h) v) \<and>
        mset (push_hole cmp ?ys (heap_parent h) v) = mset (?ys[heap_parent h := v])"
      by (rule less.IH [OF p(1) sub less.prems(2) len up])
    moreover have "push_hole cmp xs h v = push_hole cmp ?ys (heap_parent h) v"
      using True by (simp add: push_hole.simps [of cmp xs h v])
    moreover have "mset (?ys[heap_parent h := v]) = mset (xs[h := v])"
      by (rule mset_hole_move [OF less.prems(3) p(2)]) (use p(1) in simp)
    ultimately show ?thesis by (simp only:)
  next
    case False
    then have "push_hole cmp xs h v = xs[h := v]"
      by (subst push_hole.simps) auto
    moreover from False have "is_heap cmp (xs[h := v])"
      by (intro heap_but_close less.prems) auto
    ultimately show ?thesis by simp
  qed
qed

text \<open>Sinking moves the hole to a leaf and keeps the heap around it.\<close>

lemma sink_hole_correct:
  assumes "set xs \<subseteq> carrier" "h < length xs" "heap_but cmp xs h"
    and "sink_hole cmp xs h (length xs) = (zs, k)"
  shows "heap_but cmp zs k \<and> k < length zs \<and> length zs = length xs \<and> set zs \<subseteq> carrier \<and>
    (\<forall>c. 0 < c \<and> c < length zs \<longrightarrow> heap_parent c \<noteq> k) \<and> mset (zs[k := v]) = mset (xs[h := v])"
  using assms
proof (induction "length xs - h" arbitrary: xs h rule: less_induct)
  case less
  let ?n = "length xs"
  have step: ?case
    if c: "c = 2 * h + 1 \<or> c = 2 * h + 2" "c < ?n"
      and max: "\<And>d. 0 < d \<Longrightarrow> d < ?n \<Longrightarrow> heap_parent d = h \<Longrightarrow> \<not> cmp (xs ! c) (xs ! d)"
      and rest: "\<And>ys. ys = xs[h := xs ! c] \<Longrightarrow> sink_hole cmp ys c ?n = (zs, k)" for c
  proof -
    let ?ys = "xs[h := xs ! c]"
    from c(1) have pc: "heap_parent c = h" "0 < c" "h < c" by auto
    have "heap_but cmp ?ys c"
      by (rule heap_but_down [OF less.prems(3,2) pc(2) c(2) pc(1) max])
    moreover have "set ?ys \<subseteq> carrier"
      using less.prems(1) set_update_subset_insert [of xs h "xs ! c"] nth_mem [OF c(2)] by blast
    moreover have "sink_hole cmp ?ys c (length ?ys) = (zs, k)" using rest by simp
    moreover have "length ?ys - c < length xs - h" "c < length ?ys" using c(2) pc(3) by auto
    ultimately have "heap_but cmp zs k \<and> k < length zs \<and> length zs = length ?ys \<and>
        set zs \<subseteq> carrier \<and> (\<forall>c. 0 < c \<and> c < length zs \<longrightarrow> heap_parent c \<noteq> k) \<and>
        mset (zs[k := v]) = mset (?ys[c := v])"
      by (intro less.hyps)
    moreover have "mset (?ys[c := v]) = mset (xs[h := v])"
      by (rule mset_hole_move [OF less.prems(2) c(2)]) (use pc(3) in simp)
    ultimately show ?thesis by simp
  qed
  have mem: "xs ! i \<in> carrier" if "i < ?n" for i
    using less.prems(1) that nth_mem by blast
  consider (two) "h < (?n - 1) div 2"
    | (one) "\<not> h < (?n - 1) div 2" "even ?n" "0 < ?n" "h = (?n - 2) div 2"
    | (leaf) "\<not> h < (?n - 1) div 2" "\<not> (even ?n \<and> 0 < ?n \<and> h = (?n - 2) div 2)"
    by blast
  then show ?case
  proof cases
    case two
    let ?s = "2 * (h + 1)"
    define c where "c = (if cmp (xs ! ?s) (xs ! (?s - 1)) then ?s - 1 else ?s)"
    have s: "?s < ?n" "?s - 1 < ?n" using two by auto
    have "\<not> cmp (xs ! c) (xs ! (2 * h + 1))" "\<not> cmp (xs ! c) (xs ! (2 * h + 2))"
      using asym [OF mem [OF s(1)] mem [OF s(2)]] irrefl [OF mem [OF s(1)]] irrefl [OF mem [OF s(2)]]
      by (auto simp: c_def)
    then have "\<not> cmp (xs ! c) (xs ! d)" if "0 < d" "d < ?n" "heap_parent d = h" for d
      using heap_children [OF that(1,3)] by auto
    moreover have "sink_hole cmp (xs[h := xs ! c]) c ?n = (zs, k)"
      unfolding c_def less.prems(4) [symmetric] using two
      by (subst (2) sink_hole.simps) (simp only: Let_def if_True)
    moreover have "c = 2 * h + 1 \<or> c = 2 * h + 2" "c < ?n" using s by (auto simp: c_def)
    ultimately show ?thesis using step [of c] by blast
  next
    case one
    let ?c = "2 * h + 1"
    have c: "?c < ?n" "2 * h + 2 \<ge> ?n" using one(2-4) by presburger+
    have "sink_hole cmp xs h ?n = (xs[h := xs ! ?c], ?c)"
      using one by (subst sink_hole.simps) (simp only: if_True if_False simp_thms)
    then have zs: "zs = xs[h := xs ! ?c]" "k = ?c" using less.prems(4) by auto
    have "\<not> ?c < (?n - 1) div 2" "\<not> ?c = (?n - 2) div 2" using c by auto
    then have "sink_hole cmp ys ?c ?n = (ys, ?c)" for ys
      by (subst sink_hole.simps) auto
    moreover have "\<not> cmp (xs ! ?c) (xs ! d)" if "0 < d" "d < ?n" "heap_parent d = h" for d
      using heap_children [OF that(1,3)] that(2) c irrefl [OF mem [OF c(1)]] by auto
    ultimately show ?thesis using step [of ?c] c(1) zs by simp
  next
    case leaf
    then have "sink_hole cmp xs h ?n = (xs, h)"
      by (subst sink_hole.simps) (simp only: if_False)
    then have "zs = xs" "k = h" using less.prems(4) by auto
    moreover have "heap_parent c \<noteq> h" if "0 < c" "c < ?n" for c
    proof
      assume "heap_parent c = h"
      with that heap_children [of c h] have "2 * h + 1 < ?n" by auto
      with leaf show False by presburger
    qed
    ultimately show ?thesis using less.prems by auto
  qed
qed

lemma is_heap_top:
  assumes "is_heap cmp xs" "set xs \<subseteq> carrier" "x \<in> set xs"
  shows "\<not> cmp (hd xs) x"
proof -
  have mem: "xs ! i \<in> carrier" if "i < length xs" for i
    using assms(2) that nth_mem by blast
  have ne: "xs \<noteq> []" using assms(3) by auto
  have "\<not> cmp (xs ! 0) (xs ! i)" if "i < length xs" for i
    using that
  proof (induction i rule: less_induct)
    case (less i)
    show ?case
    proof (cases "i = 0")
      case True
      with irrefl mem less.prems show ?thesis by simp
    next
      case False
      then have p: "heap_parent i < i" by (simp add: heap_parent_less)
      with less.prems have pl: "heap_parent i < length xs" by simp
      have "\<not> cmp (xs ! heap_parent i) (xs ! i)"
        using assms(1) False less.prems by (simp add: is_heap_alt)
      then show ?thesis
        using negtrans [OF mem mem [OF pl] mem [OF less.prems]] less.IH [OF p pl] ne by simp
    qed
  qed
  with assms(3) ne show ?thesis by (auto simp: in_set_conv_nth hd_conv_nth)
qed

lemma push_heap_correct:
  assumes "set xs \<subseteq> carrier" "xs \<noteq> []" "is_heap cmp (butlast xs)"
  shows "is_heap cmp (push_heap cmp xs) \<and> mset (push_heap cmp xs) = mset xs"
proof -
  let ?h = "length xs - 1"
  have h: "?h < length xs" using assms(2) by simp
  have no_child: "heap_parent c \<noteq> ?h" if "0 < c" "c < length xs" for c
    using heap_parent_less [OF that(1)] that(2) by simp
  have "heap_but cmp xs ?h"
    unfolding heap_but_def
  proof (intro conjI allI impI)
    fix i assume i: "0 < i \<and> i < length xs \<and> i \<noteq> ?h \<and> heap_parent i \<noteq> ?h"
    then have "i < length (butlast xs)" "heap_parent i < length (butlast xs)"
      using heap_parent_less [of i] by auto
    with assms(3) i show "\<not> cmp (xs ! heap_parent i) (xs ! i)"
      by (auto simp: is_heap_alt nth_butlast)
  next
    fix c assume "0 < ?h \<and> 0 < c \<and> c < length xs \<and> heap_parent c = ?h"
    with no_child show "\<not> cmp (xs ! heap_parent ?h) (xs ! c)" by blast
  qed
  moreover have "last xs \<in> carrier" using assms(1,2) by auto
  moreover have "xs[?h := last xs] = xs" using assms(2) by (simp add: last_conv_nth)
  ultimately show ?thesis
    using push_hole_correct [OF assms(1) _ h, of "last xs"] no_child by (auto simp: push_heap_def)
qed

lemma pop_heap_correct:
  assumes "set xs \<subseteq> carrier" "xs \<noteq> []" "is_heap cmp xs"
  shows "is_heap cmp (butlast (pop_heap cmp xs)) \<and> mset (pop_heap cmp xs) = mset xs \<and>
    last (pop_heap cmp xs) = hd xs"
proof (cases "length xs > 1")
  case False
  with assms(2) have "length xs = 1" by (cases xs) auto
  then obtain x where "xs = [x]" by (auto simp: length_Suc_conv)
  then show ?thesis by (simp add: pop_heap_def is_heap_def)
next
  case True
  let ?ys = "butlast xs" and ?v = "last xs"
  obtain zs k where zk: "sink_hole cmp ?ys 0 (length ?ys) = (zs, k)" by fastforce
  have sub: "set ?ys \<subseteq> carrier" using assms(1) in_set_butlastD by fastforce
  have "heap_but cmp ?ys 0"
    using assms(3) heap_parent_bound [of _ "length ?ys"]
    by (auto simp: heap_but_def is_heap_alt nth_butlast)
  with sub True zk have z: "heap_but cmp zs k" "k < length zs" "set zs \<subseteq> carrier"
    "\<forall>c. 0 < c \<and> c < length zs \<longrightarrow> heap_parent c \<noteq> k"
    "mset (zs[k := ?v]) = mset (?ys[0 := ?v])"
    using sink_hole_correct [of ?ys 0 zs k ?v] by auto
  have v: "?v \<in> carrier" using assms(1,2) by auto
  let ?ws = "push_hole cmp zs k ?v"
  have ws: "is_heap cmp ?ws" "mset ?ws = mset (?ys[0 := ?v])"
    using push_hole_correct [OF z(3) v z(2,1)] z(4,5) by auto
  obtain x rest where xs: "xs = x # rest" "rest \<noteq> []" using True by (cases xs) auto
  then have "mset (?ys[0 := ?v]) + {#x#} = mset xs"
    by (simp add: mset_butlast_last)
  then show ?thesis using ws True zk xs by (simp add: pop_heap_def Let_def)
qed

end

text \<open>
  What \<^verbatim>\<open><algorithm>\<close> promises of the two functions: a push on a range whose last element was
  just appended to a heap gives a heap of the same elements, a pop moves the top to the end and
  leaves a heap before it, and no element of a heap is greater than its first.
\<close>

locale std_heap_ops =
  fixes push :: "('a \<Rightarrow> 'a \<Rightarrow> bool) \<Rightarrow> 'a list \<Rightarrow> 'a list"
    and pop :: "('a \<Rightarrow> 'a \<Rightarrow> bool) \<Rightarrow> 'a list \<Rightarrow> 'a list"
    and heap :: "('a \<Rightarrow> 'a \<Rightarrow> bool) \<Rightarrow> 'a list \<Rightarrow> bool"
  assumes heap_Nil: "heap lt []"
    and heap_first: "strict_weak_order lt (set xs) \<Longrightarrow> heap lt xs \<Longrightarrow> x \<in> set xs \<Longrightarrow> \<not> lt (hd xs) x"
    and push_spec: "strict_weak_order lt (set xs) \<Longrightarrow> xs \<noteq> [] \<Longrightarrow> heap lt (butlast xs) \<Longrightarrow>
      heap lt (push lt xs) \<and> mset (push lt xs) = mset xs"
    and pop_spec: "strict_weak_order lt (set xs) \<Longrightarrow> xs \<noteq> [] \<Longrightarrow> heap lt xs \<Longrightarrow>
      heap lt (butlast (pop lt xs)) \<and> mset (pop lt xs) = mset xs \<and> last (pop lt xs) = hd xs"
begin

lemma append_push:
  assumes "strict_weak_order lt (insert x (set xs))" "heap lt xs"
  shows "heap lt (push lt (xs @ [x])) \<and> mset (push lt (xs @ [x])) = add_mset x (mset xs)"
  using push_spec [of lt "xs @ [x]"] assms by simp

lemma pop_back:
  assumes "strict_weak_order lt (set xs)" "heap lt xs" "xs \<noteq> []"
  obtains ys x where "pop lt xs = ys @ [x]" "heap lt ys" "mset xs = add_mset x (mset ys)"
    "\<And>y. y \<in> set xs \<Longrightarrow> \<not> lt x y"
proof -
  let ?p = "pop lt xs"
  from pop_spec [OF assms(1,3,2)] have p: "heap lt (butlast ?p)" "mset ?p = mset xs"
    "last ?p = hd xs" by simp_all
  from p(2) assms(3) have "?p \<noteq> []" by auto
  then have eq: "?p = butlast ?p @ [last ?p]" by simp
  have "mset ?p = add_mset (last ?p) (mset (butlast ?p))"
    using \<open>?p \<noteq> []\<close> by (simp add: mset_butlast_last)
  then show ?thesis
    using that [OF eq p(1)] p heap_first [OF assms(1,2)] by simp
qed

end

interpretation std_heap: std_heap_ops push_heap pop_heap is_heap
proof (unfold_locales, goal_cases)
  case (1 lt)
  then show ?case by (simp add: is_heap_def)
next
  case (2 lt xs x)
  then show ?case by (intro strict_weak_order.is_heap_top [of lt "set xs"]) auto
next
  case (3 lt xs)
  then show ?case by (intro strict_weak_order.push_heap_correct [of lt "set xs"]) auto
next
  case (4 lt xs)
  then show ?case by (intro strict_weak_order.pop_heap_correct [of lt "set xs"]) auto
qed

text \<open>A comparator induced by a key into a linear order is a strict weak order.\<close>

lemma strict_weak_order_key:
  fixes key :: "'a \<Rightarrow> 'k::linorder"
  assumes "\<And>a b. a \<in> A \<Longrightarrow> b \<in> A \<Longrightarrow> cmp a b \<longleftrightarrow> key b < key a"
  shows "strict_weak_order cmp A"
  using assms by unfold_locales (auto simp: not_less)

end
