(* ===== verification/Mailbox.thy ===== *)
theory Mailbox
  imports Prelude
begin

text \<open>
  The interface between the broker and the message queues: what the broker relies on when it
  posts one message to several mailboxes. The message queue provides it.
\<close>

section \<open>Posting to several mailboxes\<close>

text \<open>Post a message to the mailboxes at the given addresses, one after the other.\<close>

fun post_to :: "('q \<Rightarrow> 'm \<Rightarrow> 'q result) \<Rightarrow> 'm \<Rightarrow> 'a list \<Rightarrow> ('a \<rightharpoonup> 'q) \<Rightarrow> ('a \<rightharpoonup> 'q) result" where
  "post_to post m [] st = Inr st"
| "post_to post m (a # as) st =
     (case st a of
        None \<Rightarrow> Inl (UB ''no mailbox at this address'')
      | Some q \<Rightarrow> res_bind (post q m) (\<lambda>q'. post_to post m as (st(a \<mapsto> q'))))"

text \<open>Post several messages to one mailbox.\<close>

fun post_all :: "('q \<Rightarrow> 'm \<Rightarrow> 'q result) \<Rightarrow> 'm list \<Rightarrow> 'q \<Rightarrow> 'q result" where
  "post_all post [] q = Inr q"
| "post_all post (m # ms) q = res_bind (post q m) (\<lambda>q'. post_all post ms q')"

lemma post_to_dom: "post_to post m as st = Inr st' \<Longrightarrow> dom st' = dom st"
proof (induction as arbitrary: st)
  case (Cons a as)
  from Cons.prems obtain q q' where "st a = Some q" "post_to post m as (st(a \<mapsto> q')) = Inr st'"
    by (auto simp: res_bind_eq_Inr split: option.splits)
  moreover from this(2) have "dom st' = dom (st(a \<mapsto> q'))" by (rule Cons.IH)
  ultimately show ?case by (simp add: insert_absorb domI)
qed simp

lemma post_to_other: "post_to post m as st = Inr st' \<Longrightarrow> a \<notin> set as \<Longrightarrow> st' a = st a"
  by (induction as arbitrary: st) (auto simp: res_bind_eq_Inr split: option.splits)

section \<open>The contract of a mailbox\<close>

text \<open>
  \<open>good n q\<close>: the mailbox is well formed and can count \<open>n\<close> more messages before its counter wraps;
  \<open>cap q\<close>: how many messages it can hold.
\<close>

locale mailbox =
  fixes post :: "'q \<Rightarrow> 'm \<Rightarrow> 'q result" and good :: "nat \<Rightarrow> 'q \<Rightarrow> bool" and cap :: "'q \<Rightarrow> nat"
    and pending :: "'q \<Rightarrow> 'm list" and place :: "'m \<Rightarrow> 'm list \<Rightarrow> 'm list" and full :: error
  assumes post_ok: "good (Suc n) q \<Longrightarrow> length (pending q) < cap q \<Longrightarrow>
      \<exists>q'. post q m = Inr q' \<and> good n q' \<and> pending q' = place m (pending q) \<and> cap q' = cap q"
    and post_full: "good n q \<Longrightarrow> \<not> length (pending q) < cap q \<Longrightarrow> post q m = Inl full"
    and good_mono: "good (Suc n) q \<Longrightarrow> good n q"
begin

lemma post_to_ok:
  assumes "distinct as"
    and "\<forall>a \<in> set as. \<exists>q. st a = Some q \<and> good (Suc n) q \<and> length (pending q) < cap q"
  shows "\<exists>st'. post_to post m as st = Inr st' \<and>
    (\<forall>a \<in> set as. \<exists>q q'. st a = Some q \<and> st' a = Some q' \<and> good n q' \<and>
       pending q' = place m (pending q) \<and> cap q' = cap q)"
  using assms
proof (induction as arbitrary: st)
  case Nil
  then show ?case by simp
next
  case (Cons a as)
  obtain q where q: "st a = Some q" "good (Suc n) q" "length (pending q) < cap q"
    using Cons.prems(2) by auto
  obtain q' where q': "post q m = Inr q'" "good n q'" "pending q' = place m (pending q)" "cap q' = cap q"
    using post_ok [OF q(2,3)] by blast
  let ?st = "st(a \<mapsto> q')"
  have same: "?st b = st b" if "b \<in> set as" for b using that Cons.prems(1) by auto
  have "\<forall>b \<in> set as. \<exists>q. ?st b = Some q \<and> good (Suc n) q \<and> length (pending q) < cap q"
    using Cons.prems(2) same by simp
  moreover have "distinct as" using Cons.prems(1) by simp
  ultimately obtain st' where st': "post_to post m as ?st = Inr st'"
    "\<forall>b \<in> set as. \<exists>p p'. ?st b = Some p \<and> st' b = Some p' \<and> good n p' \<and>
       pending p' = place m (pending p) \<and> cap p' = cap p"
    using Cons.IH [of ?st] by blast
  have a: "st' a = Some q'" using post_to_other [OF st'(1), of a] Cons.prems(1) by simp
  have "\<exists>q q'. st b = Some q \<and> st' b = Some q' \<and> good n q' \<and>
      pending q' = place m (pending q) \<and> cap q' = cap q" if "b \<in> set (a # as)" for b
  proof (cases "b = a")
    case True
    with a q q' show ?thesis by blast
  next
    case False
    with that st'(2) same show ?thesis by auto
  qed
  moreover have "post_to post m (a # as) st = Inr st'" using q(1) q'(1) st'(1) by simp
  ultimately show ?case by blast
qed

lemma post_all_ok:
  "good (length ms + n) q \<Longrightarrow> length (pending q) + length ms \<le> cap q \<Longrightarrow>
     (\<And>m ms. length (place m ms) = Suc (length ms)) \<Longrightarrow>
     \<exists>q'. post_all post ms q = Inr q' \<and> good n q' \<and> pending q' = fold place ms (pending q) \<and> cap q' = cap q"
proof (induction ms arbitrary: q)
  case Nil
  then show ?case by simp
next
  case (Cons m ms)
  then obtain q' where "post q m = Inr q'" "good (length ms + n) q'" "pending q' = place m (pending q)" "cap q' = cap q"
    using post_ok [of "length ms + n" q m] by auto
  with Cons.IH [of q'] Cons.prems(2,3) show ?case by auto
qed

lemma post_to_full:
  assumes "distinct as" and "\<forall>a \<in> set as. \<exists>q. st a = Some q \<and> good (Suc n) q"
    and "a \<in> set as" "st a = Some q" "\<not> length (pending q) < cap q"
  shows "post_to post m as st = Inl full"
  using assms
proof (induction as arbitrary: st)
  case Nil
  then show ?case by simp
next
  case (Cons b bs)
  obtain p where p: "st b = Some p" "good (Suc n) p" using Cons.prems(2) by auto
  show ?case
  proof (cases "length (pending p) < cap p")
    case False
    with p post_full show ?thesis by simp
  next
    case True
    with p post_ok obtain p' where p': "post p m = Inr p'" by blast
    have "b \<noteq> a" using p True Cons.prems(4,5) by auto
    have "post_to post m bs (st(b \<mapsto> p')) = Inl full"
      by (rule Cons.IH) (use Cons.prems \<open>b \<noteq> a\<close> in auto)
    with p p' show ?thesis by simp
  qed
qed

end

section \<open>The contract of a mailbox with a reader\<close>

text \<open>A mailbox that its reader has emptied can count up to its limit again.\<close>

text \<open>Take messages one after the other; a call that finds none ends the sequence.\<close>

fun take_msgs :: "('q \<Rightarrow> ('m option \<times> 'q) wait result) \<Rightarrow> nat \<Rightarrow> 'q \<Rightarrow> ('m list \<times> 'q) result" where
  "take_msgs tk 0 q = Inr ([], q)"
| "take_msgs tk (Suc k) q =
     res_bind (tk q) (\<lambda>r. case r of
       Returns (Some m, q') \<Rightarrow> res_bind (take_msgs tk k q') (\<lambda>(ms, q''). Inr (m # ms, q''))
     | Returns (None, q') \<Rightarrow> Inr ([], q')
     | Blocks \<Rightarrow> Inr ([], q))"

locale mailbox_reader = mailbox +
  fixes tk :: "'a \<Rightarrow> ('b option \<times> 'a) wait result" and closed :: "'a \<Rightarrow> bool" and limit :: nat
  assumes take_ok: "good n q \<Longrightarrow> pending q = m # ms \<Longrightarrow>
      \<exists>q'. tk q = Inr (Returns (Some m, q')) \<and> good n q' \<and> pending q' = ms \<and> cap q' = cap q \<and>
        closed q' = closed q"
    and take_empty: "good n q \<Longrightarrow> pending q = [] \<Longrightarrow>
      (if closed q then \<exists>q'. tk q = Inr (Returns (None, q')) \<and> good n q' \<and> pending q' = [] \<and> cap q' = cap q \<and> closed q'
       else tk q = Inr Blocks)"
    and take_resets: "good n q \<Longrightarrow> tk q = Inr (Returns (r, q')) \<Longrightarrow> pending q' = [] \<Longrightarrow> k < limit \<Longrightarrow> good k q'"
begin

lemma take_msgs_ok:
  "good n q \<Longrightarrow> k \<le> length (pending q) \<Longrightarrow>
     \<exists>q'. take_msgs tk k q = Inr (take k (pending q), q') \<and> good n q' \<and> pending q' = drop k (pending q)"
proof (induction k arbitrary: q)
  case 0
  then show ?case by simp
next
  case (Suc k)
  then obtain m ms where ms: "pending q = m # ms" by (cases "pending q") auto
  obtain q' where q': "tk q = Inr (Returns (Some m, q'))" "good n q'" "pending q' = ms"
    using take_ok [OF Suc.prems(1) ms] by blast
  with Suc.IH [of q'] Suc.prems(2) ms show ?case by auto
qed

end

end
