(* ===== verification/Message_Queue.thy ===== *)
theory Message_Queue
  imports Memory_Pool Msg Std_Heap Mailbox
begin

text \<open>
  The priority queue of \<^verbatim>\<open>message_queue.h\<close> and \<^verbatim>\<open>message_queue.cpp\<close>: nodes are built in blocks
  of the queue's own memory pool, the vector holds their addresses as a binary heap, and a
  32-bit counter orders messages of equal priority. Each member function is one definition; the
  part of \<open>enqueue\<close> before the mutex is taken and the part under it are separate, because other
  threads may run in between.
\<close>

section \<open>State\<close>

record Node =
  message :: Msg
  sequence_number :: uint32_t

text \<open>
  The layout of a struct on the 64-bit targets of the project: each field at the next multiple
  of its alignment, the whole padded to the largest alignment. \<open>node_size\<close> follows from the
  fields of \<open>Node\<close>, \<open>Msg\<close> and the largest payload, with the one-byte index that libstdc++ puts
  behind the storage of a variant.
\<close>

definition align_up :: "nat \<Rightarrow> nat \<Rightarrow> nat" where
  "align_up n a = (n + a - 1) div a * a"

definition struct_size :: "(nat \<times> nat) list \<Rightarrow> nat" where
  "struct_size fs =
     align_up (foldl (\<lambda>off (size, al). align_up off al + size) 0 fs)
       (foldr (\<lambda>(size, al) m. max al m) fs 1)"

definition sizeof_HeartbeatAckMsg :: nat where
  "sizeof_HeartbeatAckMsg = struct_size [(4, 4), (8, 8), (8, 8)]"

definition sizeof_MessageVariant :: nat where
  "sizeof_MessageVariant = struct_size [(sizeof_HeartbeatAckMsg, 8), (1, 1)]"

definition sizeof_Msg :: nat where
  "sizeof_Msg = struct_size [(8, 8), (sizeof_MessageVariant, 8), (2, 2), (4, 4)]"

definition node_size :: nat where
  "node_size = struct_size [(sizeof_Msg, 8), (4, 4)]"

text \<open>
  \<open>mq_nodes\<close> gives the \<open>Node\<close> objects that live in the blocks of the pool, \<open>mq_reserved\<close> the
  capacity reserved for the vector.
\<close>

record MessageQueue =
  mq_pool :: MemoryPool
  mq_queue :: "ptr list"
  mq_nodes :: "ptr \<rightharpoonup> Node"
  mq_reserved :: size_t
  mq_shutdown :: bool
  mq_sequence :: uint32_t

section \<open>Operations\<close>

definition NodeComparator :: "Node \<Rightarrow> Node \<Rightarrow> bool" where
  "NodeComparator a b =
     (if msg_less (message a) (message b) then True
      else if msg_less (message b) (message a) then False
      else sequence_number a > sequence_number b)"

text \<open>
  The heap algorithms apply the comparator to the nodes behind the pointers of the vector, which
  must all be alive.
\<close>

definition node_ptr_less :: "(ptr \<rightharpoonup> Node) \<Rightarrow> ptr \<Rightarrow> ptr \<Rightarrow> bool" where
  "node_ptr_less nodes a b = NodeComparator (the (nodes a)) (the (nodes b))"

definition check_live :: "(ptr \<rightharpoonup> Node) \<Rightarrow> ptr list \<Rightarrow> unit result" where
  "check_live nodes v =
     (if list_all (\<lambda>a. nodes a \<noteq> None) v then Inr () else Inl (UB ''dereference of a dead node''))"

definition MessageQueue_new :: "ptr \<Rightarrow> size_t \<Rightarrow> size_t \<Rightarrow> MessageQueue result" where
  "MessageQueue_new base msg_size max_msgs =
     res_bind (MemoryPool_new base msg_size max_msgs) (\<lambda>p.
     Inr \<lparr>mq_pool = p, mq_queue = [], mq_nodes = Map.empty, mq_reserved = max_msgs,
          mq_shutdown = False, mq_sequence = 0\<rparr>)"

text \<open>\<open>enqueue\<close> up to the lock.\<close>

definition enqueue_alloc :: "MessageQueue \<Rightarrow> (ptr \<times> MessageQueue) result" where
  "enqueue_alloc q =
     res_bind (allocate (mq_pool q)) (\<lambda>(raw, p).
     res_bind (assert_that (raw \<noteq> nullptr) ''Memory pool out of memory!'') (\<lambda>_.
     Inr (raw, q\<lparr>mq_pool := p\<rparr>)))"

text \<open>\<open>enqueue\<close> under the lock: placement new, \<open>push_back\<close>, \<open>push_heap\<close>.\<close>

definition enqueue_insert :: "MessageQueue \<Rightarrow> ptr \<Rightarrow> Msg \<Rightarrow> MessageQueue result" where
  "enqueue_insert q raw m =
     res_bind (use_block (mq_pool q) raw node_size) (\<lambda>p.
     let nodes = (mq_nodes q)(raw \<mapsto> \<lparr>message = m, sequence_number = mq_sequence q\<rparr>);
         v = mq_queue q @ [raw]
     in res_bind (check_live nodes v) (\<lambda>_.
        Inr (q\<lparr>mq_pool := p, mq_nodes := nodes, mq_sequence := mq_sequence q + 1,
               mq_queue := push_heap (node_ptr_less nodes) v\<rparr>)))"

definition enqueue :: "MessageQueue \<Rightarrow> Msg \<Rightarrow> MessageQueue result" where
  "enqueue q m = res_bind (enqueue_alloc q) (\<lambda>(raw, q'). enqueue_insert q' raw m)"

text \<open>\<open>pop_heap\<close>, \<open>back\<close> and \<open>pop_back\<close>; the last two are undefined on an empty vector.\<close>

definition pop_node :: "MessageQueue \<Rightarrow> (ptr \<times> MessageQueue) result" where
  "pop_node q =
     (if mq_queue q = [] then Inl (UB ''back() on an empty vector'')
      else res_bind (check_live (mq_nodes q) (mq_queue q)) (\<lambda>_.
           let v = pop_heap (node_ptr_less (mq_nodes q)) (mq_queue q)
           in Inr (last v, q\<lparr>mq_queue := butlast v\<rparr>)))"

text \<open>Copying the message out, destroying the node and returning its block.\<close>

definition release_node :: "MessageQueue \<Rightarrow> ptr \<Rightarrow> (Msg \<times> MessageQueue) result" where
  "release_node q node =
     (case mq_nodes q node of
        None \<Rightarrow> Inl (UB ''dereference of a dead node'')
      | Some n \<Rightarrow>
          res_bind (deallocate (mq_pool q) node) (\<lambda>p.
          Inr (message n, q\<lparr>mq_nodes := (mq_nodes q)(node := None), mq_pool := p\<rparr>)))"

text \<open>The predicate both waits use.\<close>

definition wait_pred :: "MessageQueue \<Rightarrow> bool" where
  "wait_pred q \<longleftrightarrow> mq_queue q \<noteq> [] \<or> mq_shutdown q"

definition dequeue :: "MessageQueue \<Rightarrow> (Msg option \<times> MessageQueue) wait result" where
  "dequeue q =
     (if \<not> wait_pred q then Inr Blocks
      else if mq_shutdown q \<and> mq_queue q = []
      then Inr (Returns (None, q\<lparr>mq_sequence := 0\<rparr>))
      else res_bind (pop_node q) (\<lambda>(node, q1).
           let q2 = (if mq_queue q1 = [] then q1\<lparr>mq_sequence := 0\<rparr> else q1)
           in res_bind (release_node q2 node) (\<lambda>(m, q3). Inr (Returns (Some m, q3)))))"

text \<open>
  \<open>try_dequeue\<close> in the state in which its timed wait ends: \<^verbatim>\<open>wait_for\<close> returns the value of the
  predicate then.
\<close>

definition try_dequeue :: "MessageQueue \<Rightarrow> (Msg option \<times> MessageQueue) result" where
  "try_dequeue q =
     (if \<not> wait_pred q then Inr (None, q)
      else res_bind (pop_node q) (\<lambda>(node, q1).
           res_bind (release_node q1 node) (\<lambda>(m, q2). Inr (Some m, q2))))"

definition mq_is_empty :: "MessageQueue \<Rightarrow> bool" where
  "mq_is_empty q \<longleftrightarrow> mq_queue q = []"

definition notify_shutdown :: "MessageQueue \<Rightarrow> MessageQueue" where
  "notify_shutdown q = q\<lparr>mq_shutdown := True\<rparr>"

text \<open>The destructor: every node left is destroyed and its block returned.\<close>

fun drain_nodes :: "MessageQueue \<Rightarrow> ptr list \<Rightarrow> MessageQueue result" where
  "drain_nodes q [] = Inr q"
| "drain_nodes q (node # rest) =
     res_bind (release_node q node) (\<lambda>(_, q'). drain_nodes q' rest)"

definition MessageQueue_destroy :: "MessageQueue \<Rightarrow> MessageQueue result" where
  "MessageQueue_destroy q =
     res_bind (drain_nodes q (mq_queue q)) (\<lambda>q'. Inr (q'\<lparr>mq_queue := []\<rparr>))"

section \<open>The order of nodes\<close>

lemma node_size_eq: "node_size = 56"
  by (simp add: node_size_def sizeof_Msg_def sizeof_MessageVariant_def sizeof_HeartbeatAckMsg_def
      struct_size_def align_up_def)

text \<open>
  The place of a node in the delivery order as one number: higher priorities come first, equal
  priorities by sequence number.
\<close>

definition node_rank :: "Node \<Rightarrow> nat" where
  "node_rank n = (65535 - unat (msg_priority (message n))) * 2 ^ 32 + unat (sequence_number n)"

lemma NodeComparator_iff: "NodeComparator a b \<longleftrightarrow> node_rank b < node_rank a"
proof -
  have p: "unat (msg_priority (message n)) \<le> 65535" for n
    using unat_bound [of "msg_priority (message n)"] by simp
  have s: "unat (sequence_number n) < 2 ^ 32" for n
    using unat_bound [of "sequence_number n"] by simp
  have lex: "i * 2 ^ 32 + x < j * 2 ^ 32 + y \<longleftrightarrow> i < j \<or> i = j \<and> x < y"
    if "x < 2 ^ 32" "y < 2 ^ 32" for i j x y :: nat
    using that by (cases i j rule: linorder_cases) (auto dest!: less_imp_Suc_add)
  let ?p = "\<lambda>n. 65535 - unat (msg_priority (message n))"
  have "node_rank b < node_rank a \<longleftrightarrow>
      ?p b < ?p a \<or> ?p b = ?p a \<and> unat (sequence_number b) < unat (sequence_number a)"
    unfolding node_rank_def by (rule lex [OF s s])
  with p [of a] p [of b] show ?thesis
    by (auto simp: NodeComparator_def msg_less_def word_less_nat_alt)
qed

interpretation node_order: strict_weak_order NodeComparator UNIV
  by (rule strict_weak_order_key [where key = node_rank]) (rule NodeComparator_iff)

lemma node_ptr_order: "strict_weak_order (node_ptr_less nodes) A"
  by (rule strict_weak_order_key [where key = "\<lambda>a. node_rank (the (nodes a))"])
    (simp add: node_ptr_less_def NodeComparator_iff)

section \<open>Well-formed queues\<close>

text \<open>The nodes of the vector, in the order of the vector.\<close>

definition mq_contents :: "MessageQueue \<Rightarrow> Node list" where
  "mq_contents q = map (\<lambda>a. the (mq_nodes q a)) (mq_queue q)"

text \<open>
  \<open>mq_wf q H\<close>: the vector holds distinct blocks, exactly the ones in which a node lives, ordered
  as a heap; the blocks \<open>H\<close> have been taken from the pool by calls of \<open>enqueue\<close> that do not hold
  the lock yet; the other blocks are free, and a block can hold a node.
\<close>

definition mq_wf :: "MessageQueue \<Rightarrow> ptr set \<Rightarrow> bool" where
  "mq_wf q H \<longleftrightarrow>
     pool_avail (mq_pool q) (pool_blocks (mq_pool q) - (set (mq_queue q) \<union> H)) \<and>
     distinct (mq_queue q) \<and> set (mq_queue q) \<union> H \<subseteq> pool_blocks (mq_pool q) \<and>
     set (mq_queue q) \<inter> H = {} \<and> dom (mq_nodes q) = set (mq_queue q) \<and>
     is_heap (node_ptr_less (mq_nodes q)) (mq_queue q) \<and>
     node_size \<le> unat (block_size (mq_pool q)) \<and>
     mq_reserved q = block_count (mq_pool q)"

definition mq_capacity :: "MessageQueue \<Rightarrow> nat" where
  "mq_capacity q = unat (mq_reserved q)"

lemma mq_wf_geometry: "mq_wf q H \<Longrightarrow> pool_geometry (mq_pool q)"
  by (auto simp: mq_wf_def pool_avail_def pool_rel_def)

lemma mq_wf_capacity:
  assumes "mq_wf q H"
  shows "mq_capacity q = card (pool_blocks (mq_pool q))"
  using card_pool_blocks [OF mq_wf_geometry [OF assms]] assms
  by (simp add: mq_capacity_def mq_wf_def)

lemma mq_wf_finite: "mq_wf q H \<Longrightarrow> finite H"
  by (rule finite_subset [OF _ finite_pool_blocks [of "mq_pool q"]]) (simp add: mq_wf_def)

lemma mq_wf_bound:
  assumes "mq_wf q H"
  shows "length (mq_queue q) + card H \<le> mq_capacity q"
proof -
  have "length (mq_queue q) + card H = card (set (mq_queue q) \<union> H)"
    using assms mq_wf_finite [OF assms]
    by (simp add: mq_wf_def distinct_card card_Un_disjoint)
  also have "\<dots> \<le> card (pool_blocks (mq_pool q))"
    using assms by (intro card_mono) (auto simp: mq_wf_def)
  finally show ?thesis by (simp add: mq_wf_capacity [OF assms])
qed

lemma mq_wf_full_iff:
  assumes "mq_wf q H"
  shows "set (mq_queue q) \<union> H = pool_blocks (mq_pool q) \<longleftrightarrow>
    length (mq_queue q) + card H = mq_capacity q"
proof -
  have "length (mq_queue q) + card H = card (set (mq_queue q) \<union> H)"
    using assms mq_wf_finite [OF assms]
    by (simp add: mq_wf_def distinct_card card_Un_disjoint)
  moreover have "set (mq_queue q) \<union> H \<subseteq> pool_blocks (mq_pool q)"
    using assms by (simp add: mq_wf_def)
  ultimately show ?thesis
    using mq_wf_capacity [OF assms] by (metis card_subset_eq finite_pool_blocks)
qed

lemma check_live_ok: "set v \<subseteq> dom nodes \<Longrightarrow> check_live nodes v = Inr ()"
  by (auto simp: check_live_def list_all_iff)

lemma length_mq_contents [simp]: "length (mq_contents q) = length (mq_queue q)"
  by (simp add: mq_contents_def)

lemma mset_mq_contents:
  "mset (mq_contents q) = image_mset (\<lambda>a. the (mq_nodes q a)) (mset (mq_queue q))"
  by (simp add: mq_contents_def)

lemma MessageQueue_new_wf:
  assumes "pool_area base msg_size max_msgs" "node_size \<le> unat msg_size"
  obtains q where "MessageQueue_new base msg_size max_msgs = Inr q" "mq_wf q {}"
    "mq_queue q = []" "mq_shutdown q = False" "mq_sequence q = 0" "mq_capacity q = unat max_msgs"
proof -
  obtain p where p: "MemoryPool_new base msg_size max_msgs = Inr p"
    and rel: "pool_rel p (map (block_addr base msg_size) [0..<unat max_msgs])"
    and flds: "pool_data p = base" "block_size p = msg_size" "block_count p = max_msgs"
    using MemoryPool_new_ok [OF assms(1)] by blast
  have "pool_blocks p = set (map (block_addr base msg_size) [0..<unat max_msgs])"
    by (auto simp: pool_blocks_def flds)
  with rel have "pool_avail p (pool_blocks p)" by (auto simp: pool_avail_def)
  with p flds assms(2) show ?thesis
    by (intro that [of "\<lparr>mq_pool = p, mq_queue = [], mq_nodes = Map.empty,
          mq_reserved = max_msgs, mq_shutdown = False, mq_sequence = 0\<rparr>"])
      (simp_all add: MessageQueue_new_def mq_wf_def mq_capacity_def is_heap_def)
qed

section \<open>The operations keep the queue well formed\<close>

lemma enqueue_alloc_full:
  assumes "mq_wf q H" "length (mq_queue q) + card H = mq_capacity q"
  shows "enqueue_alloc q = Inl (AssertFailed ''Memory pool out of memory!'')"
proof -
  have "set (mq_queue q) \<union> H = pool_blocks (mq_pool q)"
    using mq_wf_full_iff [OF assms(1)] assms(2) by simp
  then have "pool_avail (mq_pool q) {}" using assms(1) by (simp add: mq_wf_def)
  then show ?thesis using pool.alloc_exhausted by (simp add: enqueue_alloc_def)
qed

lemma enqueue_alloc_ok:
  assumes wf: "mq_wf q H" and room: "length (mq_queue q) + card H < mq_capacity q"
  obtains raw p where "enqueue_alloc q = Inr (raw, q\<lparr>mq_pool := p\<rparr>)"
    "mq_wf (q\<lparr>mq_pool := p\<rparr>) (insert raw H)" "raw \<notin> H"
proof -
  let ?F = "pool_blocks (mq_pool q) - (set (mq_queue q) \<union> H)"
  have av: "pool_avail (mq_pool q) ?F" and sub: "set (mq_queue q) \<union> H \<subseteq> pool_blocks (mq_pool q)"
    using wf by (simp_all add: mq_wf_def)
  have "set (mq_queue q) \<union> H \<noteq> pool_blocks (mq_pool q)"
    using mq_wf_full_iff [OF wf] room by simp
  with sub have ne: "?F \<noteq> {}" by blast
  from pool_avail_alloc [OF av ne] obtain raw p where
    alloc: "allocate (mq_pool q) = Inr (raw, p)" "raw \<in> ?F" "pool_avail p (?F - {raw})"
    and same: "same_pool (mq_pool q) p"
    by blast
  have "raw \<noteq> nullptr" using alloc(2) pool_avail_blocks [OF av] by blast
  then have "enqueue_alloc q = Inr (raw, q\<lparr>mq_pool := p\<rparr>)"
    using alloc(1) by (simp add: enqueue_alloc_def)
  moreover have "?F - {raw} = pool_blocks p - (set (mq_queue q) \<union> insert raw H)"
    using same_pool_simps(1) [OF same] by auto
  then have "mq_wf (q\<lparr>mq_pool := p\<rparr>) (insert raw H)"
    using wf alloc same_pool_simps [OF same] same by (simp add: mq_wf_def same_pool_def)
  ultimately show ?thesis using that alloc(2) by blast
qed

lemma is_heap_cong:
  assumes "\<And>a b. a \<in> set v \<Longrightarrow> b \<in> set v \<Longrightarrow> f a b = g a b"
  shows "is_heap f v = is_heap g v"
proof -
  have "v ! heap_parent i \<in> set v" if "i \<in> {1..<length v}" for i
    using that heap_parent_bound [of i "length v"] by simp
  then show ?thesis using assms by (auto simp: is_heap_def)
qed

text \<open>Building a node in a block outside the vector does not change the order of the vector.\<close>

lemma is_heap_other_node:
  assumes "raw \<notin> set v"
  shows "is_heap (node_ptr_less (nodes(raw := x))) v = is_heap (node_ptr_less nodes) v"
  by (rule is_heap_cong) (use assms in \<open>auto simp: node_ptr_less_def\<close>)

lemma enqueue_insert_ok:
  assumes wf: "mq_wf q (insert raw H)" and raw: "raw \<notin> H"
  obtains q' where "enqueue_insert q raw m = Inr q'" "mq_wf q' H"
    "mset (mq_contents q') =
       add_mset \<lparr>message = m, sequence_number = mq_sequence q\<rparr> (mset (mq_contents q))"
    "mq_sequence q' = mq_sequence q + 1" "mq_shutdown q' = mq_shutdown q"
    "mq_reserved q' = mq_reserved q"
proof -
  let ?n = "\<lparr>message = m, sequence_number = mq_sequence q\<rparr>"
  let ?nodes = "(mq_nodes q)(raw \<mapsto> ?n)" and ?v = "mq_queue q @ [raw]"
  let ?F = "pool_blocks (mq_pool q) - (set (mq_queue q) \<union> insert raw H)"
  let ?w = "push_heap (node_ptr_less ?nodes) ?v"
  have av: "pool_avail (mq_pool q) ?F" and dist: "distinct ?v"
    and blk: "raw \<in> pool_blocks (mq_pool q)" and fits: "node_size \<le> unat (block_size (mq_pool q))"
    and dom: "dom (mq_nodes q) = set (mq_queue q)" and new: "raw \<notin> set (mq_queue q)"
    using wf by (auto simp: mq_wf_def)
  from pool_avail_use [OF av blk _ fits] obtain p where
    p: "use_block (mq_pool q) raw node_size = Inr p" "pool_avail p ?F"
    and same: "same_pool (mq_pool q) p" by blast
  have heap: "is_heap (node_ptr_less ?nodes) (mq_queue q)"
    using wf is_heap_other_node [OF new] by (simp add: mq_wf_def)
  have w: "is_heap (node_ptr_less ?nodes) ?w" and mset_w: "mset ?w = mset (raw # mq_queue q)"
    using std_heap.append_push [OF node_ptr_order heap, of raw] by simp_all
  have set_w: "set ?w = insert raw (set (mq_queue q))"
    using mset_eq_setD [OF mset_w] by simp
  have dist_w: "distinct ?w" using mset_eq_imp_distinct_iff [OF mset_w] dist by simp
  let ?q = "q\<lparr>mq_pool := p, mq_nodes := ?nodes, mq_sequence := mq_sequence q + 1, mq_queue := ?w\<rparr>"
  have "enqueue_insert q raw m = Inr ?q"
    using p(1) dom by (simp add: enqueue_insert_def check_live_ok subset_insertI Let_def)
  moreover have "?F = pool_blocks p - (set ?w \<union> H)"
    using same_pool_simps(1) [OF same] set_w by auto
  then have "mq_wf ?q H"
    using wf w p(2) same_pool_simps [OF same] same set_w dist_w raw dom
    by (simp add: mq_wf_def same_pool_def)
  moreover have "mset (mq_contents ?q) = add_mset ?n (mset (mq_contents q))"
  proof -
    have "image_mset (\<lambda>a. the (?nodes a)) (mset (mq_queue q)) =
        image_mset (\<lambda>a. the (mq_nodes q a)) (mset (mq_queue q))"
      by (rule image_mset_cong) (use new in auto)
    with mset_w show ?thesis by (simp add: mset_mq_contents)
  qed
  ultimately show ?thesis using that by simp
qed

lemma pop_node_ok:
  assumes wf: "mq_wf q H" and ne: "mq_queue q \<noteq> []"
  obtains node v n where "pop_node q = Inr (node, q\<lparr>mq_queue := v\<rparr>)"
    "mset (mq_queue q) = add_mset node (mset v)" "mq_nodes q node = Some n"
    "is_heap (node_ptr_less (mq_nodes q)) v"
    "\<And>x. x \<in> set (mq_contents q) \<Longrightarrow> node_rank n \<le> node_rank x"
proof -
  let ?lt = "node_ptr_less (mq_nodes q)"
  have dom: "dom (mq_nodes q) = set (mq_queue q)" and heap: "is_heap ?lt (mq_queue q)"
    using wf by (simp_all add: mq_wf_def)
  obtain v node where pop: "pop_heap ?lt (mq_queue q) = v @ [node]" "is_heap ?lt v"
    and ms: "mset (mq_queue q) = add_mset node (mset v)"
    and top: "\<And>y. y \<in> set (mq_queue q) \<Longrightarrow> \<not> ?lt node y"
    using std_heap.pop_back [OF node_ptr_order heap ne] by blast
  have "node \<in> set (mq_queue q)"
    using ms by (metis set_mset_mset union_single_eq_member)
  then obtain n where n: "mq_nodes q node = Some n" using dom by blast
  have "pop_node q = Inr (node, q\<lparr>mq_queue := v\<rparr>)"
    using ne pop(1) dom by (simp add: pop_node_def check_live_ok Let_def)
  moreover have "node_rank n \<le> node_rank x" if x: "x \<in> set (mq_contents q)" for x
  proof -
    from x obtain a where "a \<in> set (mq_queue q)" "x = the (mq_nodes q a)"
      by (auto simp: mq_contents_def)
    with top [of a] n show ?thesis by (simp add: node_ptr_less_def NodeComparator_iff not_less)
  qed
  ultimately show ?thesis using that pop(2) ms n by blast
qed

text \<open>Popping and releasing, with the sequence counter as the caller left it.\<close>

lemma take_node_ok:
  assumes wf: "mq_wf q H" and ne: "mq_queue q \<noteq> []"
  obtains node v n p where "pop_node q = Inr (node, q\<lparr>mq_queue := v\<rparr>)"
    "\<And>s. release_node (q\<lparr>mq_queue := v, mq_sequence := s\<rparr>) node =
       Inr (message n, q\<lparr>mq_queue := v, mq_sequence := s,
         mq_nodes := (mq_nodes q)(node := None), mq_pool := p\<rparr>)"
    "\<And>s. mq_wf (q\<lparr>mq_queue := v, mq_sequence := s,
         mq_nodes := (mq_nodes q)(node := None), mq_pool := p\<rparr>) H"
    "\<And>s. mset (mq_contents q) = add_mset n (mset (mq_contents (q\<lparr>mq_queue := v,
         mq_sequence := s, mq_nodes := (mq_nodes q)(node := None), mq_pool := p\<rparr>)))"
    "\<And>x. x \<in> set (mq_contents q) \<Longrightarrow> node_rank n \<le> node_rank x"
proof -
  obtain node v n where pop: "pop_node q = Inr (node, q\<lparr>mq_queue := v\<rparr>)"
    and ms: "mset (mq_queue q) = mset (node # v)" and n: "mq_nodes q node = Some n"
    and heap: "is_heap (node_ptr_less (mq_nodes q)) v"
    and top: "\<And>x. x \<in> set (mq_contents q) \<Longrightarrow> node_rank n \<le> node_rank x"
    using pop_node_ok [OF wf ne] by auto
  let ?F = "pool_blocks (mq_pool q) - (set (mq_queue q) \<union> H)"
  have set_q: "set (mq_queue q) = insert node (set v)" using mset_eq_setD [OF ms] by simp
  have dist: "distinct (node # v)"
    using mset_eq_imp_distinct_iff [OF ms] wf by (simp add: mq_wf_def)
  have av: "pool_avail (mq_pool q) ?F" and blk: "node \<in> pool_blocks (mq_pool q)"
    and disj: "node \<notin> H" and dom: "dom (mq_nodes q) = set (mq_queue q)"
    using wf set_q by (auto simp: mq_wf_def)
  from pool_avail_dealloc [OF av blk] set_q obtain p where
    p: "deallocate (mq_pool q) node = Inr p" "pool_avail p (insert node ?F)"
    and same: "same_pool (mq_pool q) p" by blast
  have free: "insert node ?F = pool_blocks p - (set v \<union> H)"
    using set_q dist disj blk same_pool_simps(1) [OF same] by auto
  let ?nodes = "(mq_nodes q)(node := None)"
  let ?q = "\<lambda>s. q\<lparr>mq_queue := v, mq_sequence := s, mq_nodes := ?nodes, mq_pool := p\<rparr>"
  have "is_heap (node_ptr_less ?nodes) v"
    using heap is_heap_other_node [of node v] dist by simp
  then have "mq_wf (?q s) H" for s
    using wf p(2) free same_pool_simps [OF same] same set_q dist dom
    by (auto simp: mq_wf_def same_pool_def)
  moreover have "mset (mq_contents q) = add_mset n (mset (mq_contents (?q s)))" for s
  proof -
    have "image_mset (\<lambda>a. the (?nodes a)) (mset v) = image_mset (\<lambda>a. the (mq_nodes q a)) (mset v)"
      by (rule image_mset_cong) (use dist in auto)
    with ms n show ?thesis by (simp add: mset_mq_contents)
  qed
  moreover have "release_node (q\<lparr>mq_queue := v, mq_sequence := s\<rparr>) node = Inr (message n, ?q s)" for s
    using n p(1) by (simp add: release_node_def)
  ultimately show ?thesis using that [OF pop] top by blast
qed

lemma enqueue_full:
  "mq_wf q H \<Longrightarrow> length (mq_queue q) + card H = mq_capacity q \<Longrightarrow>
     enqueue q m = Inl (AssertFailed ''Memory pool out of memory!'')"
  by (simp add: enqueue_def enqueue_alloc_full)

lemma enqueue_ok:
  assumes "mq_wf q H" "length (mq_queue q) + card H < mq_capacity q"
  obtains q' where "enqueue q m = Inr q'" "mq_wf q' H"
    "mset (mq_contents q') =
       add_mset \<lparr>message = m, sequence_number = mq_sequence q\<rparr> (mset (mq_contents q))"
    "mq_sequence q' = mq_sequence q + 1" "mq_shutdown q' = mq_shutdown q"
    "mq_reserved q' = mq_reserved q"
proof -
  obtain raw p where alloc: "enqueue_alloc q = Inr (raw, q\<lparr>mq_pool := p\<rparr>)"
    and wf: "mq_wf (q\<lparr>mq_pool := p\<rparr>) (insert raw H)" "raw \<notin> H"
    using enqueue_alloc_ok [OF assms] by blast
  have "mq_contents (q\<lparr>mq_pool := p\<rparr>) = mq_contents q" by (simp add: mq_contents_def)
  then show ?thesis
    using enqueue_insert_ok [OF wf, of m] alloc that by (auto simp: enqueue_def)
qed

lemma dequeue_ok:
  assumes "mq_wf q H" "mq_queue q \<noteq> []"
  obtains n q' where "dequeue q = Inr (Returns (Some (message n), q'))" "mq_wf q' H"
    "mset (mq_contents q) = add_mset n (mset (mq_contents q'))"
    "\<And>x. x \<in> set (mq_contents q) \<Longrightarrow> node_rank n \<le> node_rank x"
    "mq_sequence q' = (if mq_queue q' = [] then 0 else mq_sequence q)"
    "mq_shutdown q' = mq_shutdown q" "mq_reserved q' = mq_reserved q"
proof -
  obtain node v n p where pop: "pop_node q = Inr (node, q\<lparr>mq_queue := v\<rparr>)"
    and rel: "\<And>s. release_node (q\<lparr>mq_queue := v, mq_sequence := s\<rparr>) node =
       Inr (message n, q\<lparr>mq_queue := v, mq_sequence := s,
         mq_nodes := (mq_nodes q)(node := None), mq_pool := p\<rparr>)"
    and res: "\<And>s. mq_wf (q\<lparr>mq_queue := v, mq_sequence := s,
         mq_nodes := (mq_nodes q)(node := None), mq_pool := p\<rparr>) H"
      "\<And>s. mset (mq_contents q) = add_mset n (mset (mq_contents (q\<lparr>mq_queue := v,
         mq_sequence := s, mq_nodes := (mq_nodes q)(node := None), mq_pool := p\<rparr>)))"
      "\<And>x. x \<in> set (mq_contents q) \<Longrightarrow> node_rank n \<le> node_rank x"
    using take_node_ok [OF assms] by blast
  define s where "s = (if v = [] then 0 else mq_sequence q)"
  have "(if v = [] then q\<lparr>mq_queue := v, mq_sequence := 0\<rparr> else q\<lparr>mq_queue := v\<rparr>) =
      q\<lparr>mq_queue := v, mq_sequence := s\<rparr>" by (simp add: s_def)
  then have deq: "dequeue q = Inr (Returns (Some (message n), q\<lparr>mq_queue := v, mq_sequence := s,
         mq_nodes := (mq_nodes q)(node := None), mq_pool := p\<rparr>))"
    using assms(2) pop rel by (simp add: dequeue_def wait_pred_def)
  show ?thesis by (rule that [OF deq res]) (simp_all add: s_def)
qed

lemma try_dequeue_ok:
  assumes "mq_wf q H" "mq_queue q \<noteq> []"
  obtains n q' where "try_dequeue q = Inr (Some (message n), q')" "mq_wf q' H"
    "mset (mq_contents q) = add_mset n (mset (mq_contents q'))"
    "\<And>x. x \<in> set (mq_contents q) \<Longrightarrow> node_rank n \<le> node_rank x"
    "mq_sequence q' = mq_sequence q" "mq_shutdown q' = mq_shutdown q"
    "mq_reserved q' = mq_reserved q"
proof -
  obtain node v n p where pop: "pop_node q = Inr (node, q\<lparr>mq_queue := v\<rparr>)"
    and rel: "\<And>s. release_node (q\<lparr>mq_queue := v, mq_sequence := s\<rparr>) node =
       Inr (message n, q\<lparr>mq_queue := v, mq_sequence := s,
         mq_nodes := (mq_nodes q)(node := None), mq_pool := p\<rparr>)"
    and res: "\<And>s. mq_wf (q\<lparr>mq_queue := v, mq_sequence := s,
         mq_nodes := (mq_nodes q)(node := None), mq_pool := p\<rparr>) H"
      "\<And>s. mset (mq_contents q) = add_mset n (mset (mq_contents (q\<lparr>mq_queue := v,
         mq_sequence := s, mq_nodes := (mq_nodes q)(node := None), mq_pool := p\<rparr>)))"
      "\<And>x. x \<in> set (mq_contents q) \<Longrightarrow> node_rank n \<le> node_rank x"
    using take_node_ok [OF assms] by blast
  have "q\<lparr>mq_queue := v, mq_sequence := mq_sequence q\<rparr> = q\<lparr>mq_queue := v\<rparr>" by simp
  then have deq: "try_dequeue q = Inr (Some (message n), q\<lparr>mq_queue := v,
         mq_sequence := mq_sequence q, mq_nodes := (mq_nodes q)(node := None), mq_pool := p\<rparr>)"
    using assms(2) pop rel [of "mq_sequence q"] by (simp add: try_dequeue_def wait_pred_def)
  show ?thesis by (rule that [OF deq res]) simp_all
qed

lemma dequeue_empty:
  "mq_queue q = [] \<Longrightarrow> dequeue q =
     Inr (if mq_shutdown q then Returns (None, q\<lparr>mq_sequence := 0\<rparr>) else Blocks)"
  by (simp add: dequeue_def wait_pred_def)

lemma try_dequeue_empty:
  "mq_queue q = [] \<Longrightarrow> try_dequeue q =
     (if mq_shutdown q then Inl (UB ''back() on an empty vector'') else Inr (None, q))"
  by (simp add: try_dequeue_def wait_pred_def pop_node_def)

lemma mq_wf_notify_shutdown [wf_intros]: "mq_wf q H \<Longrightarrow> mq_wf (notify_shutdown q) H"
  by (simp add: mq_wf_def notify_shutdown_def)

lemma mq_wf_sequence [wf_intros]: "mq_wf q H \<Longrightarrow> mq_wf (q\<lparr>mq_sequence := s\<rparr>) H"
  by (simp add: mq_wf_def)

section \<open>The queue refines a priority list\<close>

text \<open>
  The abstract queue is the list of pending messages in delivery order; a new message goes behind
  every message of the same or a higher priority.
\<close>

definition pq_insert :: "Msg \<Rightarrow> Msg list \<Rightarrow> Msg list" where
  "pq_insert m ms = takeWhile (\<lambda>x. msg_priority m \<le> msg_priority x) ms @
     m # dropWhile (\<lambda>x. msg_priority m \<le> msg_priority x) ms"

definition pending_msgs :: "MessageQueue \<Rightarrow> Msg list" where
  "pending_msgs q = map message (sort_key node_rank (mq_contents q))"

text \<open>The sequence numbers in use are distinct and below the counter.\<close>

definition fifo_ok :: "MessageQueue \<Rightarrow> bool" where
  "fifo_ok q \<longleftrightarrow> distinct (map sequence_number (mq_contents q)) \<and>
     (\<forall>n \<in> set (mq_contents q). sequence_number n < mq_sequence q)"

lemma length_pending_msgs [simp]: "length (pending_msgs q) = length (mq_queue q)"
  by (simp add: pending_msgs_def)

lemma pending_msgs_empty_iff: "pending_msgs q = [] \<longleftrightarrow> mq_queue q = []"
  by (metis length_0_conv length_pending_msgs)

lemma node_rank_eq_iff:
  "node_rank a = node_rank b \<longleftrightarrow>
     msg_priority (message a) = msg_priority (message b) \<and> sequence_number a = sequence_number b"
proof -
  have "node_rank a = node_rank b \<longleftrightarrow> \<not> NodeComparator a b \<and> \<not> NodeComparator b a"
    by (auto simp: NodeComparator_iff)
  then show ?thesis by (auto simp: NodeComparator_def msg_less_def)
qed

lemma fifo_inj_rank:
  assumes "distinct (map sequence_number ns)"
  shows "inj_on node_rank (set ns)"
proof (rule inj_onI)
  fix a b
  assume "a \<in> set ns" "b \<in> set ns" "node_rank a = node_rank b"
  with assms show "a = b" by (auto simp: node_rank_eq_iff distinct_map dest: inj_onD)
qed

lemma insort_key_split:
  "insort_key f x xs = takeWhile (\<lambda>y. \<not> f x \<le> f y) xs @ x # dropWhile (\<lambda>y. \<not> f x \<le> f y) xs"
  by (induction xs) auto

lemma map_takeWhile_cong:
  assumes "\<And>x. x \<in> set xs \<Longrightarrow> P x \<longleftrightarrow> Q (f x)"
  shows "map f (takeWhile P xs) = takeWhile Q (map f xs)"
    and "map f (dropWhile P xs) = dropWhile Q (map f xs)"
  using assms by (induction xs) auto


lemma sort_contents_insert:
  assumes "mset ns' = add_mset n (mset ns)" "distinct (map sequence_number ns')"
  shows "sort_key node_rank ns' = insort_key node_rank n (sort_key node_rank ns)"
proof -
  have "mset (insort_key node_rank n (sort_key node_rank ns)) = mset ns'"
    using assms(1) by simp
  then show ?thesis
    using sort_key_inj_key_eq [OF _ fifo_inj_rank [OF assms(2)]]
    by (metis sorted_insort_key sorted_sort_key)
qed

lemma distinct_map_mset: "mset xs = mset ys \<Longrightarrow> distinct (map f xs) \<longleftrightarrow> distinct (map f ys)"
  by (metis mset_eq_imp_distinct_iff mset_map)

lemma pending_msgs_enqueue:
  assumes fifo: "fifo_ok q" and seq: "mq_sequence q + 1 \<noteq> 0"
    and ms: "mset (mq_contents q') =
       add_mset \<lparr>message = m, sequence_number = mq_sequence q\<rparr> (mset (mq_contents q))"
    and seq': "mq_sequence q' = mq_sequence q + 1"
  shows "fifo_ok q'" and "pending_msgs q' = pq_insert m (pending_msgs q)"
proof -
  let ?n = "\<lparr>message = m, sequence_number = mq_sequence q\<rparr>"
  have below: "sequence_number x < mq_sequence q" if "x \<in> set (mq_contents q)" for x
    using fifo that by (simp add: fifo_ok_def)
  have set': "set (mq_contents q') = insert ?n (set (mq_contents q))"
    using mset_eq_setD [of "mq_contents q'" "?n # mq_contents q"] ms by simp
  have dist: "distinct (map sequence_number (mq_contents q'))"
    using distinct_map_mset [of "mq_contents q'" "?n # mq_contents q" sequence_number] ms fifo below
    by (force simp: fifo_ok_def)
  have step: "mq_sequence q < mq_sequence q + 1"
    using seq unatSuc [of "mq_sequence q"] by (simp add: word_less_nat_alt add.commute)
  show "fifo_ok q'"
    using dist set' below step seq' by (auto simp: fifo_ok_def dest: less_trans)
  have rank: "\<not> node_rank ?n \<le> node_rank x \<longleftrightarrow> msg_priority m \<le> msg_priority (message x)"
    if "x \<in> set (sort_key node_rank (mq_contents q))" for x
    using below [of x] that
    by (auto simp: not_le NodeComparator_iff [symmetric] NodeComparator_def msg_less_def)
  show "pending_msgs q' = pq_insert m (pending_msgs q)"
    unfolding pending_msgs_def pq_insert_def sort_contents_insert [OF ms dist] insort_key_split
    using map_takeWhile_cong [where xs = "sort_key node_rank (mq_contents q)" and f = message
        and Q = "\<lambda>x. msg_priority m \<le> msg_priority x", OF rank]
    by simp
qed

lemma pending_msgs_take:
  assumes fifo: "fifo_ok q" and ms: "mset (mq_contents q) = add_mset n (mset (mq_contents q'))"
    and min: "\<And>x. x \<in> set (mq_contents q) \<Longrightarrow> node_rank n \<le> node_rank x"
    and seq: "mq_queue q' = [] \<or> mq_sequence q' = mq_sequence q"
  shows "fifo_ok q'" and "pending_msgs q = message n # pending_msgs q'"
proof -
  have set': "set (mq_contents q) = insert n (set (mq_contents q'))"
    using mset_eq_setD [of "mq_contents q" "n # mq_contents q'"] ms by simp
  have dist: "distinct (map sequence_number (mq_contents q))"
    using fifo by (simp add: fifo_ok_def)
  then have "distinct (map sequence_number (n # mq_contents q'))"
    using distinct_map_mset [of "mq_contents q" "n # mq_contents q'" sequence_number] ms by simp
  then show "fifo_ok q'"
    using fifo set' seq by (auto simp: fifo_ok_def mq_contents_def)
  have "insort_key node_rank n (sort_key node_rank (mq_contents q')) =
      n # sort_key node_rank (mq_contents q')"
    using min set' by (intro insort_is_Cons) auto
  then show "pending_msgs q = message n # pending_msgs q'"
    by (simp add: pending_msgs_def sort_contents_insert [OF ms dist])
qed

section \<open>Runs\<close>

text \<open>A call on the queue, what its caller sees, and runs of calls on both levels.\<close>

datatype mq_op = Enq Msg | Deq | TryDeq | Shut

datatype mq_obs = Done | Got Msg | Nothing | Blocked

fun mq_step :: "mq_op \<Rightarrow> MessageQueue \<Rightarrow> (mq_obs \<times> MessageQueue) result" where
  "mq_step (Enq m) q = res_bind (enqueue q m) (\<lambda>q'. Inr (Done, q'))"
| "mq_step Deq q = res_bind (dequeue q) (\<lambda>w. case w of
       Blocks \<Rightarrow> Inr (Blocked, q)
     | Returns (None, q') \<Rightarrow> Inr (Nothing, q')
     | Returns (Some m, q') \<Rightarrow> Inr (Got m, q'))"
| "mq_step TryDeq q = res_bind (try_dequeue q) (\<lambda>r. case r of
       (None, q') \<Rightarrow> Inr (Nothing, q')
     | (Some m, q') \<Rightarrow> Inr (Got m, q'))"
| "mq_step Shut q = Inr (Done, notify_shutdown q)"

fun pq_step :: "nat \<Rightarrow> mq_op \<Rightarrow> Msg list \<times> bool \<Rightarrow> (mq_obs \<times> (Msg list \<times> bool)) result" where
  "pq_step cap (Enq m) (ms, shut) =
     (if length ms < cap then Inr (Done, (pq_insert m ms, shut))
      else Inl (AssertFailed ''Memory pool out of memory!''))"
| "pq_step cap Deq (ms, shut) =
     (case ms of
        [] \<Rightarrow> Inr (if shut then Nothing else Blocked, (ms, shut))
      | m # ms' \<Rightarrow> Inr (Got m, (ms', shut)))"
| "pq_step cap TryDeq (ms, shut) =
     (case ms of
        [] \<Rightarrow> if shut then Inl (UB ''back() on an empty vector'') else Inr (Nothing, (ms, shut))
      | m # ms' \<Rightarrow> Inr (Got m, (ms', shut)))"
| "pq_step cap Shut (ms, shut) = Inr (Done, (ms, True))"

text \<open>The observations up to the first failure, and the failure if there is one.\<close>

fun obs_run :: "('op \<Rightarrow> 's \<Rightarrow> ('o \<times> 's) result) \<Rightarrow> 'op list \<Rightarrow> 's \<Rightarrow> 'o list \<times> error option" where
  "obs_run step [] s = ([], None)"
| "obs_run step (x # xs) s =
     (case step x s of
        Inl e \<Rightarrow> ([], Some e)
      | Inr (ob, s') \<Rightarrow> (let (obs, e) = obs_run step xs s' in (ob # obs, e)))"

fun is_Enq :: "mq_op \<Rightarrow> bool" where
  "is_Enq (Enq _) \<longleftrightarrow> True"
| "is_Enq _ \<longleftrightarrow> False"

definition mq_sim :: "nat \<Rightarrow> MessageQueue \<Rightarrow> Msg list \<times> bool \<Rightarrow> bool" where
  "mq_sim cap q s \<longleftrightarrow> mq_wf q {} \<and> fifo_ok q \<and> mq_capacity q = cap \<and>
     s = (pending_msgs q, mq_shutdown q)"

text \<open>What one call and its abstract counterpart have to agree on.\<close>

definition step_agrees ::
  "nat \<Rightarrow> mq_op \<Rightarrow> MessageQueue \<Rightarrow> (mq_obs \<times> MessageQueue) result \<Rightarrow>
   (mq_obs \<times> (Msg list \<times> bool)) result \<Rightarrow> bool" where
  "step_agrees cap x q r r' \<longleftrightarrow> (case r' of
      Inl e \<Rightarrow> r = Inl e
    | Inr (ob, s') \<Rightarrow> \<exists>q'. r = Inr (ob, q') \<and> mq_sim cap q' s' \<and>
        unat (mq_sequence q') \<le> unat (mq_sequence q) + (if is_Enq x then 1 else 0))"

lemma mq_sim_enqueue:
  assumes "mq_sim cap q (ms, shut)" "unat (mq_sequence q) + 1 < 2 ^ 32"
  shows "step_agrees cap (Enq m) q (mq_step (Enq m) q) (pq_step cap (Enq m) (ms, shut))"
proof -
  from assms(1) have wf: "mq_wf q {}" and fifo: "fifo_ok q" and cap: "mq_capacity q = cap"
    and ms: "ms = pending_msgs q" "shut = mq_shutdown q"
    by (simp_all add: mq_sim_def)
  have seq: "unat (mq_sequence q + 1) = unat (mq_sequence q) + 1"
    using assms(2) by (simp add: unat_word_ariths)
  then have nz: "mq_sequence q + 1 \<noteq> 0" by auto
  show ?thesis
  proof (cases "length (mq_queue q) < cap")
    case True
    then obtain q' where q': "enqueue q m = Inr q'" "mq_wf q' {}"
      "mset (mq_contents q') =
         add_mset \<lparr>message = m, sequence_number = mq_sequence q\<rparr> (mset (mq_contents q))"
      "mq_sequence q' = mq_sequence q + 1" "mq_shutdown q' = mq_shutdown q"
      "mq_reserved q' = mq_reserved q"
      using enqueue_ok [OF wf, of m] cap by auto
    from pending_msgs_enqueue [OF fifo nz q'(3,4)] q' True cap ms seq show ?thesis
      by (simp add: step_agrees_def mq_sim_def mq_capacity_def)
  next
    case False
    with mq_wf_bound [OF wf] cap have "length (mq_queue q) + card {} = mq_capacity q" by simp
    with enqueue_full [OF wf, of m] False ms show ?thesis by (simp add: step_agrees_def)
  qed
qed

lemma mq_sim_dequeue:
  assumes "mq_sim cap q (ms, shut)"
  shows "step_agrees cap Deq q (mq_step Deq q) (pq_step cap Deq (ms, shut))"
proof -
  from assms have wf: "mq_wf q {}" and fifo: "fifo_ok q" and cap: "mq_capacity q = cap"
    and ms: "ms = pending_msgs q" "shut = mq_shutdown q"
    by (simp_all add: mq_sim_def)
  show ?thesis
  proof (cases "mq_queue q = []")
    case True
    then have "pending_msgs q = []" by (simp add: pending_msgs_empty_iff)
    moreover have "pending_msgs (q\<lparr>mq_sequence := 0\<rparr>) = []" "fifo_ok (q\<lparr>mq_sequence := 0\<rparr>)"
      using True by (simp_all add: pending_msgs_def fifo_ok_def mq_contents_def)
    ultimately show ?thesis
      using True assms mq_wf_sequence [OF wf, of 0] cap ms dequeue_empty [OF True]
      by (auto simp: step_agrees_def mq_sim_def mq_capacity_def)
  next
    case False
    obtain n q' where q': "dequeue q = Inr (Returns (Some (message n), q'))" "mq_wf q' {}"
      "mset (mq_contents q) = add_mset n (mset (mq_contents q'))"
      "\<And>x. x \<in> set (mq_contents q) \<Longrightarrow> node_rank n \<le> node_rank x"
      "mq_sequence q' = (if mq_queue q' = [] then 0 else mq_sequence q)"
      "mq_shutdown q' = mq_shutdown q" "mq_reserved q' = mq_reserved q"
      using dequeue_ok [OF wf False] by blast
    have "mq_queue q' = [] \<or> mq_sequence q' = mq_sequence q" using q'(5) by auto
    from pending_msgs_take [OF fifo q'(3,4) this] q'(1,2,5-7) cap ms show ?thesis
      by (simp add: step_agrees_def mq_sim_def mq_capacity_def)
  qed
qed

lemma mq_sim_try_dequeue:
  assumes "mq_sim cap q (ms, shut)"
  shows "step_agrees cap TryDeq q (mq_step TryDeq q) (pq_step cap TryDeq (ms, shut))"
proof -
  from assms have wf: "mq_wf q {}" and fifo: "fifo_ok q" and cap: "mq_capacity q = cap"
    and ms: "ms = pending_msgs q" "shut = mq_shutdown q"
    by (simp_all add: mq_sim_def)
  show ?thesis
  proof (cases "mq_queue q = []")
    case True
    then have "pending_msgs q = []" by (simp add: pending_msgs_empty_iff)
    then show ?thesis
      using True assms ms try_dequeue_empty [OF True] by (simp add: step_agrees_def mq_sim_def)
  next
    case False
    obtain n q' where q': "try_dequeue q = Inr (Some (message n), q')" "mq_wf q' {}"
      "mset (mq_contents q) = add_mset n (mset (mq_contents q'))"
      "\<And>x. x \<in> set (mq_contents q) \<Longrightarrow> node_rank n \<le> node_rank x"
      "mq_sequence q' = mq_sequence q"
      "mq_shutdown q' = mq_shutdown q" "mq_reserved q' = mq_reserved q"
      using try_dequeue_ok [OF wf False] by blast
    have "mq_queue q' = [] \<or> mq_sequence q' = mq_sequence q" using q'(5) by auto
    from pending_msgs_take [OF fifo q'(3,4) this] q'(1,2,5-7) cap ms show ?thesis
      by (simp add: step_agrees_def mq_sim_def mq_capacity_def)
  qed
qed

lemma mq_sim_step:
  assumes "mq_sim cap q s" "is_Enq x \<Longrightarrow> unat (mq_sequence q) + 1 < 2 ^ 32"
  shows "step_agrees cap x q (mq_step x q) (pq_step cap x s)"
proof -
  obtain ms shut where s: "s = (ms, shut)" by (cases s)
  show ?thesis
  proof (cases x)
    case (Enq m)
    with assms mq_sim_enqueue show ?thesis by (simp add: s del: mq_step.simps pq_step.simps)
  next
    case Deq
    with assms(1) mq_sim_dequeue show ?thesis by (simp add: s del: mq_step.simps pq_step.simps)
  next
    case TryDeq
    with assms(1) mq_sim_try_dequeue show ?thesis by (simp add: s del: mq_step.simps pq_step.simps)
  next
    case Shut
    with assms(1) mq_wf_notify_shutdown show ?thesis
      by (auto simp: s step_agrees_def mq_sim_def notify_shutdown_def mq_capacity_def
          fifo_ok_def pending_msgs_def mq_contents_def)
  qed
qed

lemma mq_sim_run:
  assumes "mq_sim cap q s" "unat (mq_sequence q) + length (filter is_Enq xs) < 2 ^ 32"
  shows "obs_run mq_step xs q = obs_run (pq_step cap) xs s"
  using assms
proof (induction xs arbitrary: q s)
  case Nil
  then show ?case by simp
next
  case (Cons x xs)
  have agree: "step_agrees cap x q (mq_step x q) (pq_step cap x s)"
    by (rule mq_sim_step [OF Cons.prems(1)]) (use Cons.prems(2) in auto)
  show ?case
  proof (cases "pq_step cap x s")
    case (Inl e)
    with agree show ?thesis by (simp add: step_agrees_def)
  next
    case (Inr r)
    obtain ob s' where r: "r = (ob, s')" by (cases r)
    from agree Inr r obtain q' where q': "mq_step x q = Inr (ob, q')" "mq_sim cap q' s'"
      "unat (mq_sequence q') \<le> unat (mq_sequence q) + (if is_Enq x then 1 else 0)"
      by (auto simp: step_agrees_def)
    have "unat (mq_sequence q') + length (filter is_Enq xs) < 2 ^ 32"
      using q'(3) Cons.prems(2) by (auto split: if_splits)
    from Cons.IH [OF q'(2) this] q'(1) Inr r show ?thesis by simp
  qed
qed

section \<open>The destructor\<close>

lemma drain_nodes_ok:
  assumes "pool_avail (mq_pool q) F" "distinct v" "set v \<subseteq> dom (mq_nodes q)"
    and "set v \<subseteq> pool_blocks (mq_pool q)" "set v \<inter> F = {}"
  shows "\<exists>q'. drain_nodes q v = Inr q' \<and> pool_avail (mq_pool q') (F \<union> set v) \<and>
    pool_blocks (mq_pool q') = pool_blocks (mq_pool q) \<and>
    mq_nodes q' = (mq_nodes q) |` (- set v)"
  using assms
proof (induction v arbitrary: q F)
  case Nil
  then show ?case by (simp add: restrict_map_def)
next
  case (Cons node v)
  obtain n where n: "mq_nodes q node = Some n" using Cons.prems(3) by auto
  from pool_avail_dealloc [OF Cons.prems(1), of node] Cons.prems(4,5) obtain p where
    p: "deallocate (mq_pool q) node = Inr p" "pool_avail p (insert node F)"
    and same: "same_pool (mq_pool q) p" by auto
  let ?q = "q\<lparr>mq_nodes := (mq_nodes q)(node := None), mq_pool := p\<rparr>"
  have "drain_nodes q (node # v) = drain_nodes ?q v"
    using n p(1) by (simp add: release_node_def)
  moreover have "\<exists>q'. drain_nodes ?q v = Inr q' \<and>
      pool_avail (mq_pool q') (insert node F \<union> set v) \<and>
      pool_blocks (mq_pool q') = pool_blocks (mq_pool ?q) \<and>
      mq_nodes q' = mq_nodes ?q |` (- set v)"
    by (rule Cons.IH) (use p(2) Cons.prems same_pool_simps(1) [OF same] in auto)
  moreover have "(mq_nodes q)(node := None) |` (- set v) = mq_nodes q |` (- set (node # v))"
    by (auto simp: restrict_map_def)
  ultimately show ?case using same_pool_simps(1) [OF same] by auto
qed

lemma MessageQueue_destroy_ok:
  assumes "mq_wf q {}"
  shows "\<exists>q'. MessageQueue_destroy q = Inr q' \<and> mq_queue q' = [] \<and> mq_nodes q' = Map.empty \<and>
    pool_avail (mq_pool q') (pool_blocks (mq_pool q))"
proof -
  let ?F = "pool_blocks (mq_pool q) - set (mq_queue q)"
  have prems: "pool_avail (mq_pool q) ?F" "distinct (mq_queue q)"
    "set (mq_queue q) \<subseteq> dom (mq_nodes q)" "set (mq_queue q) \<subseteq> pool_blocks (mq_pool q)"
    "set (mq_queue q) \<inter> ?F = {}" "dom (mq_nodes q) = set (mq_queue q)"
    using assms by (auto simp: mq_wf_def)
  moreover from prems(4) have "?F \<union> set (mq_queue q) = pool_blocks (mq_pool q)" by blast
  moreover from prems(6) have "mq_nodes q |` (- set (mq_queue q)) = Map.empty"
    by (metis Compl_disjoint dom_eq_empty_conv dom_restrict)
  ultimately show ?thesis
    using drain_nodes_ok [OF prems(1-5)] by (auto simp: MessageQueue_destroy_def)
qed

section \<open>Wrap-around of the sequence counter\<close>

primrec enqueue_try_rounds :: "nat \<Rightarrow> Msg \<Rightarrow> MessageQueue \<Rightarrow> MessageQueue result" where
  "enqueue_try_rounds 0 m q = Inr q"
| "enqueue_try_rounds (Suc n) m q =
     res_bind (enqueue_try_rounds n m q) (\<lambda>q1.
     res_bind (enqueue q1 m) (\<lambda>q2.
     res_bind (try_dequeue q2) (\<lambda>(_, q3). Inr q3)))"

lemma enqueue_try_rounds_ok:
  assumes "mq_wf q {}" "mq_queue q = []" "0 < mq_capacity q"
  shows "\<exists>q'. enqueue_try_rounds n m q = Inr q' \<and> mq_wf q' {} \<and> mq_queue q' = [] \<and>
    mq_sequence q' = mq_sequence q + of_nat n \<and> mq_capacity q' = mq_capacity q"
proof (induction n)
  case 0
  then show ?case using assms by simp
next
  case (Suc n)
  then obtain q1 where q1: "enqueue_try_rounds n m q = Inr q1" "mq_wf q1 {}" "mq_queue q1 = []"
    "mq_sequence q1 = mq_sequence q + of_nat n" "mq_capacity q1 = mq_capacity q"
    by blast
  obtain q2 where q2: "enqueue q1 m = Inr q2" "mq_wf q2 {}"
    "mset (mq_contents q2) = add_mset \<lparr>message = m, sequence_number = mq_sequence q1\<rparr>
       (mset (mq_contents q1))"
    "mq_sequence q2 = mq_sequence q1 + 1" "mq_reserved q2 = mq_reserved q1"
    using enqueue_ok [OF q1(2), of m] q1(3,5) assms(3) by auto
  have len: "length (mq_queue q2) = 1"
    using arg_cong [OF q2(3), of size] q1(3) by (simp add: mset_mq_contents)
  then have "mq_queue q2 \<noteq> []" by auto
  then obtain x q3 where q3: "try_dequeue q2 = Inr (Some (message x), q3)" "mq_wf q3 {}"
    "mset (mq_contents q2) = add_mset x (mset (mq_contents q3))"
    "mq_sequence q3 = mq_sequence q2" "mq_reserved q3 = mq_reserved q2"
    using try_dequeue_ok [OF q2(2)] by blast
  have "mq_queue q3 = []"
    using arg_cong [OF q3(3), of size] len by (simp add: mset_mq_contents)
  moreover have "mq_sequence q3 = mq_sequence q + of_nat (Suc n)"
    using q3(4) q2(4) q1(4) by simp
  moreover have "mq_capacity q3 = mq_capacity q"
    using q3(5) q2(5) q1(5) by (simp add: mq_capacity_def)
  ultimately show ?case using q1(1) q2(1) q3(1,2) by simp
qed

section \<open>The queue as a mailbox\<close>

definition mq_good :: "nat \<Rightarrow> MessageQueue \<Rightarrow> bool" where
  "mq_good n q \<longleftrightarrow> mq_wf q {} \<and> fifo_ok q \<and> unat (mq_sequence q) + n < 2 ^ 32"

definition mq_room :: "MessageQueue \<Rightarrow> bool" where
  "mq_room q \<longleftrightarrow> length (pending_msgs q) < mq_capacity q"

lemma length_pq_insert [simp]: "length (pq_insert m ms) = Suc (length ms)"
  by (metis pq_insert_def add_Suc_right length_Cons length_append takeWhile_dropWhile_id)

lemma set_pq_insert [simp]: "set (pq_insert m ms) = insert m (set ms)"
  by (metis pq_insert_def Un_insert_right list.simps(15) set_append takeWhile_dropWhile_id)

interpretation mq: mailbox enqueue mq_good mq_capacity pending_msgs pq_insert
  "AssertFailed ''Memory pool out of memory!''"
proof (unfold_locales, goal_cases)
  case (1 n q m)
  then have wf: "mq_wf q {}" and fifo: "fifo_ok q" and bound: "unat (mq_sequence q) + Suc n < 2 ^ 32"
    and room: "length (mq_queue q) + card ({} :: ptr set) < mq_capacity q"
    by (simp_all add: mq_good_def)
  have seq: "unat (mq_sequence q + 1) = unat (mq_sequence q) + 1"
    using bound by (simp add: unat_word_ariths)
  then have nz: "mq_sequence q + 1 \<noteq> 0" by auto
  obtain q' where q': "enqueue q m = Inr q'" "mq_wf q' {}"
    "mset (mq_contents q') =
       add_mset \<lparr>message = m, sequence_number = mq_sequence q\<rparr> (mset (mq_contents q))"
    "mq_sequence q' = mq_sequence q + 1" "mq_reserved q' = mq_reserved q"
    using enqueue_ok [OF wf room] by blast
  with pending_msgs_enqueue [OF fifo nz q'(3,4)] seq bound show ?case
    by (simp add: mq_good_def mq_capacity_def)
next
  case (2 n q m)
  then have wf: "mq_wf q {}" by (simp add: mq_good_def)
  from mq_wf_bound [OF wf] 2 show ?case
    by (intro enqueue_full [OF wf]) simp
next
  case (3 n q)
  then show ?case by (simp add: mq_good_def)
qed

lemma notify_shutdown_simps [simp]:
  "pending_msgs (notify_shutdown q) = pending_msgs q" "mq_capacity (notify_shutdown q) = mq_capacity q"
  "mq_shutdown (notify_shutdown q)" "mq_queue (notify_shutdown q) = mq_queue q"
  "mq_good n (notify_shutdown q) = mq_good n q"
  by (simp_all add: notify_shutdown_def pending_msgs_def mq_contents_def mq_capacity_def mq_good_def
      mq_wf_def fifo_ok_def)

interpretation mq_reader: mailbox_reader enqueue mq_good mq_capacity pending_msgs pq_insert
  "AssertFailed ''Memory pool out of memory!''" dequeue mq_shutdown "2 ^ 32"
proof (unfold_locales, goal_cases)
  case (1 n q m ms)
  then have wf: "mq_wf q {}" and fifo: "fifo_ok q" and bound: "unat (mq_sequence q) + n < 2 ^ 32"
    by (simp_all add: mq_good_def)
  from 1(2) have ne: "mq_queue q \<noteq> []" using pending_msgs_empty_iff [of q] by auto
  obtain x q' where q': "dequeue q = Inr (Returns (Some (message x), q'))" "mq_wf q' {}"
    "mset (mq_contents q) = add_mset x (mset (mq_contents q'))"
    "\<And>y. y \<in> set (mq_contents q) \<Longrightarrow> node_rank x \<le> node_rank y"
    "mq_sequence q' = (if mq_queue q' = [] then 0 else mq_sequence q)"
    "mq_shutdown q' = mq_shutdown q" "mq_reserved q' = mq_reserved q"
    using dequeue_ok [OF wf ne] by metis
  have seq: "mq_queue q' = [] \<or> mq_sequence q' = mq_sequence q" using q'(5) by simp
  have "unat (mq_sequence q') + n < 2 ^ 32" using q'(5) bound by simp
  moreover have "message x = m" "pending_msgs q' = ms"
    using pending_msgs_take(2) [OF fifo q'(3,4) seq] 1(2) by simp_all
  moreover have "fifo_ok q'" by (rule pending_msgs_take(1) [OF fifo q'(3,4) seq])
  ultimately show ?case using q'(1,2,6,7) by (simp add: mq_good_def mq_capacity_def)
next
  case (2 n q)
  then have e: "mq_queue q = []" by (simp add: pending_msgs_empty_iff)
  then have "pending_msgs (q\<lparr>mq_sequence := 0\<rparr>) = []" "fifo_ok (q\<lparr>mq_sequence := 0\<rparr>)"
    by (simp_all add: pending_msgs_def fifo_ok_def mq_contents_def)
  with 2 mq_wf_sequence [of q "{}" 0] show ?case
    by (auto simp: dequeue_empty [OF e] mq_good_def mq_capacity_def)
next
  case (3 n q r q' k)
  then have wf: "mq_wf q {}" and fifo: "fifo_ok q" by (simp_all add: mq_good_def)
  show ?case
  proof (cases "mq_queue q = []")
    case True
    with 3(2) have "q' = q\<lparr>mq_sequence := 0\<rparr>" by (auto simp: dequeue_empty split: if_splits)
    with mq_wf_sequence [OF wf, of 0] True 3(4) show ?thesis
      by (simp add: mq_good_def fifo_ok_def mq_contents_def)
  next
    case False
    show ?thesis
    proof (rule dequeue_ok [OF wf False])
      fix x q1
      assume q1: "dequeue q = Inr (Returns (Some (message x), q1))" "mq_wf q1 {}"
        "mq_sequence q1 = (if mq_queue q1 = [] then 0 else mq_sequence q)"
      have "q1 = q'" using q1(1) 3(2) by simp
      moreover have "mq_queue q' = []" using 3(3) by (simp only: pending_msgs_empty_iff)
      ultimately show "mq_good k q'" using q1(2,3) 3(4) by (simp add: mq_good_def fifo_ok_def mq_contents_def)
    qed
  qed
qed

section \<open>Properties of the queue\<close>

text \<open>A queue of two blocks of 64 bytes at address 4096, and two messages, for the examples.\<close>

lemma example_queue:
  obtains q where "MessageQueue_new 4096 64 2 = Inr q" "mq_wf q {}" "mq_queue q = []"
    "mq_shutdown q = False" "mq_sequence q = 0" "mq_capacity q = 2"
proof -
  have "pool_area 4096 64 2" by (simp add: pool_area_def ptr_aligned_def)
  then show ?thesis
    using that MessageQueue_new_wf [of 4096 64 2] by (force simp: node_size_eq)
qed

definition example_msg :: "MessageVariant \<Rightarrow> Msg" where
  "example_msg d = \<lparr>sending_task = 8, msg_data = d,
     msg_priority = message_priorities ! variant_index d,
     msg_type = message_types ! variant_index d\<rparr>"

text \<open>C1: The queue is a priority queue with first-in first-out order among equal priorities: for
  every sequence of \<open>enqueue\<close>, \<open>dequeue\<close>, \<open>try_dequeue\<close> and \<open>notify_shutdown\<close> with fewer than
  \<open>2 ^ 32\<close> calls of \<open>enqueue\<close>, a fresh queue whose blocks are aligned and can hold a node gives its callers the
  same observations as the abstract list in which a message is inserted behind all messages of
  at least its priority and taken from the front; it fails exactly where the list does, by the
  assertion when \<open>max_msgs\<close> messages are pending and by the undefined \<open>try_dequeue\<close> on an empty
  queue that was shut down.\<close>

theorem queue_refines_priority_list:
  assumes "pool_area base msg_size max_msgs" "node_size \<le> unat msg_size"
    and "length (filter is_Enq xs) < 2 ^ 32"
  shows "\<exists>q. MessageQueue_new base msg_size max_msgs = Inr q \<and>
    obs_run mq_step xs q = obs_run (pq_step (unat max_msgs)) xs ([], False)"
proof -
  obtain q where q: "MessageQueue_new base msg_size max_msgs = Inr q" "mq_wf q {}"
    "mq_queue q = []" "mq_shutdown q = False" "mq_sequence q = 0" "mq_capacity q = unat max_msgs"
    using MessageQueue_new_wf [OF assms(1,2)] by blast
  have "mq_sim (unat max_msgs) q ([], False)"
    using q by (simp add: mq_sim_def fifo_ok_def mq_contents_def pending_msgs_def)
  from mq_sim_run [OF this, of xs] q assms(3) show ?thesis by auto
qed

theorem queue_refines_priority_list_witness:
  "\<exists>q. MessageQueue_new 4096 64 2 = Inr q \<and>
     obs_run mq_step
       [Enq (example_msg (HeartbeatMsg 1 0)), Enq (example_msg (StateMsg 2)), Deq, Deq, Deq, Shut, Deq] q =
     ([Done, Done, Got (example_msg (StateMsg 2)), Got (example_msg (HeartbeatMsg 1 0)), Blocked,
       Done, Nothing], None)"
proof -
  let ?xs = "[Enq (example_msg (HeartbeatMsg 1 0)), Enq (example_msg (StateMsg 2)), Deq, Deq, Deq,
    Shut, Deq]"
  have "pool_area 4096 64 2" "node_size \<le> unat (64 :: size_t)" "length (filter is_Enq ?xs) < 2 ^ 32"
    by (simp_all add: pool_area_def ptr_aligned_def node_size_eq)
  from queue_refines_priority_list [OF this] show ?thesis
    by (simp add: pq_insert_def example_msg_def message_priorities_def)
qed

text \<open>Whatever the sequence counter holds, \<open>dequeue\<close> on a non-empty well-formed queue returns
  one of the pending messages, none of which has a higher priority, removes exactly that one and
  leaves the queue well formed.\<close>

lemma dequeue_highest_priority:
  assumes "mq_wf q H" "mq_queue q \<noteq> []"
  shows "\<exists>n q'. dequeue q = Inr (Returns (Some (message n), q')) \<and> mq_wf q' H \<and>
    n \<in> set (mq_contents q) \<and> mset (mq_contents q') = mset (mq_contents q) - {#n#} \<and>
    (\<forall>x \<in> set (mq_contents q). msg_priority (message x) \<le> msg_priority (message n))"
proof -
  obtain n q' where q': "dequeue q = Inr (Returns (Some (message n), q'))" "mq_wf q' H"
    "mset (mq_contents q) = add_mset n (mset (mq_contents q'))"
    "\<And>x. x \<in> set (mq_contents q) \<Longrightarrow> node_rank n \<le> node_rank x"
    using dequeue_ok [OF assms] by blast
  have "n \<in> set (mq_contents q)"
    using q'(3) by (metis set_mset_mset union_single_eq_member)
  moreover have "msg_priority (message x) \<le> msg_priority (message n)"
    if "x \<in> set (mq_contents q)" for x
  proof -
    have "\<not> NodeComparator n x" using q'(4) [OF that] by (simp add: NodeComparator_iff not_less)
    then show ?thesis by (auto simp: NodeComparator_def msg_less_def split: if_splits)
  qed
  ultimately show ?thesis using q' by auto
qed

text \<open>\<open>enqueue\<close> succeeds exactly while fewer than \<open>max_msgs\<close> blocks are in use by pending
  messages or by other calls of \<open>enqueue\<close>, and then it never makes the vector outgrow its reserved
  capacity; otherwise it fails by its assertion.\<close>

lemma enqueue_succeeds_iff_room:
  assumes "mq_wf q H"
  shows "if length (mq_queue q) + card H < unat (mq_reserved q)
    then \<exists>q'. enqueue q m = Inr q' \<and> mq_wf q' H \<and> length (mq_queue q') = length (mq_queue q) + 1 \<and>
      length (mq_queue q') \<le> unat (mq_reserved q')
    else enqueue q m = Inl (AssertFailed ''Memory pool out of memory!'')"
proof (cases "length (mq_queue q) + card H < mq_capacity q")
  case True
  obtain q' where q': "enqueue q m = Inr q'" "mq_wf q' H"
    "mset (mq_contents q') =
       add_mset \<lparr>message = m, sequence_number = mq_sequence q\<rparr> (mset (mq_contents q))"
    using enqueue_ok [OF assms True] by blast
  have "length (mq_queue q') = length (mq_queue q) + 1"
    using arg_cong [OF q'(3), of size] by (simp add: mset_mq_contents)
  with q' mq_wf_bound [OF q'(2)] True show ?thesis by (simp add: mq_capacity_def)
next
  case False
  with mq_wf_bound [OF assms] enqueue_full [OF assms, of m] show ?thesis
    by (simp add: mq_capacity_def)
qed

text \<open>C28: Destroying a queue returns every block to the pool and leaves no node alive.\<close>

theorem queue_destroy_frees_all:
  assumes "mq_wf q {}"
  shows "\<exists>q'. MessageQueue_destroy q = Inr q' \<and> mq_queue q' = [] \<and> mq_nodes q' = Map.empty \<and>
    pool_avail (mq_pool q') (pool_blocks (mq_pool q))"
  by (rule MessageQueue_destroy_ok [OF assms])

theorem queue_destroy_frees_all_witness:
  "\<exists>q q'. mq_wf q {} \<and> MessageQueue_destroy q = Inr q' \<and>
     pool_avail (mq_pool q') (pool_blocks (mq_pool q))"
proof -
  obtain q where q: "mq_wf q {}" using example_queue by blast
  from queue_destroy_frees_all [OF q] q show ?thesis by blast
qed



text \<open>C37: Only \<open>dequeue\<close> resets the sequence counter when the queue runs empty. A queue that is
  emptied by \<open>try_dequeue\<close> keeps counting, and after \<open>2 ^ 32 - 1\<close> messages the counter wraps
  between two pending messages: of two messages of equal priority the later one is delivered
  first.\<close>

theorem sequence_wrap_breaks_fifo:
  assumes "mq_wf q {}" "mq_queue q = []" "mq_sequence q = 0" "2 \<le> mq_capacity q"
    and "msg_priority a = msg_priority b"
  shows "\<exists>q1 q2 q3 q4. enqueue_try_rounds (2 ^ 32 - 1) a q = Inr q1 \<and> mq_queue q1 = [] \<and>
    enqueue q1 a = Inr q2 \<and> enqueue q2 b = Inr q3 \<and> dequeue q3 = Inr (Returns (Some b, q4))"
proof -
  obtain q1 where q1: "enqueue_try_rounds (2 ^ 32 - 1) a q = Inr q1" "mq_wf q1 {}"
    "mq_queue q1 = []" "mq_sequence q1 = 0 + of_nat (2 ^ 32 - 1)" "mq_capacity q1 = mq_capacity q"
    using enqueue_try_rounds_ok [OF assms(1,2), of "2 ^ 32 - 1" a] assms(3,4) by auto
  have seq1: "mq_sequence q1 = 4294967295" using q1(4) by simp
  obtain q2 where q2: "enqueue q1 a = Inr q2" "mq_wf q2 {}"
    "mset (mq_contents q2) = add_mset \<lparr>message = a, sequence_number = 4294967295\<rparr>
       (mset (mq_contents q1))" "mq_sequence q2 = mq_sequence q1 + 1" "mq_reserved q2 = mq_reserved q1"
    using enqueue_ok [OF q1(2), of a] q1(3,5) seq1 assms(4) by auto
  have seq2: "mq_sequence q2 = 0" using q2(4) seq1 by simp
  have c2: "mset (mq_contents q2) = {#\<lparr>message = a, sequence_number = 4294967295\<rparr>#}"
    using q2(3) q1(3) by (simp add: mq_contents_def)
  have len2: "length (mq_queue q2) = 1"
    using arg_cong [OF c2, of size] by (simp add: mset_mq_contents)
  obtain q3 where q3: "enqueue q2 b = Inr q3" "mq_wf q3 {}"
    "mset (mq_contents q3) = add_mset \<lparr>message = b, sequence_number = 0\<rparr> (mset (mq_contents q2))"
    using enqueue_ok [OF q2(2), of b] len2 seq2 assms(4) q1(5) q2(5) by (auto simp: mq_capacity_def)
  let ?a = "\<lparr>message = a, sequence_number = 4294967295\<rparr>"
  let ?b = "\<lparr>message = b, sequence_number = 0\<rparr>"
  have c3: "mset (mq_contents q3) = {#?b, ?a#}" using q3(3) c2 by simp
  have "mq_queue q3 \<noteq> []" using c3 by (auto simp: mq_contents_def)
  then obtain n q4 where q4: "dequeue q3 = Inr (Returns (Some (message n), q4))"
    "mset (mq_contents q3) = add_mset n (mset (mq_contents q4))"
    "\<And>x. x \<in> set (mq_contents q3) \<Longrightarrow> node_rank n \<le> node_rank x"
    using dequeue_ok [OF q3(2)] by metis
  have "set (mq_contents q3) = {?b, ?a}" using mset_eq_setD [of _ "[?b, ?a]"] c3 by simp
  moreover have "n \<in> set (mq_contents q3)"
    using q4(2) by (metis set_mset_mset union_single_eq_member)
  moreover have "node_rank ?b < node_rank ?a"
    using assms(5) by (simp add: node_rank_def)
  ultimately have "n = ?b" using q4(3) [of ?b] by auto
  with q1 q2 q3 q4 show ?thesis by auto
qed

theorem sequence_wrap_breaks_fifo_witness:
  "\<exists>q q1 q2 q3 q4. MessageQueue_new 4096 64 2 = Inr q \<and>
    enqueue_try_rounds (2 ^ 32 - 1) (example_msg (StateMsg 1)) q = Inr q1 \<and>
    enqueue q1 (example_msg (StateMsg 1)) = Inr q2 \<and> enqueue q2 (example_msg (StateMsg 2)) = Inr q3 \<and>
    dequeue q3 = Inr (Returns (Some (example_msg (StateMsg 2)), q4))"
proof -
  obtain q where q: "MessageQueue_new 4096 64 2 = Inr q" "mq_wf q {}" "mq_queue q = []"
    "mq_sequence q = 0" "mq_capacity q = 2"
    using example_queue by blast
  have "2 \<le> mq_capacity q" "msg_priority (example_msg (StateMsg 1)) = msg_priority (example_msg (StateMsg 2))"
    using q(5) by (simp_all add: example_msg_def)
  from sequence_wrap_breaks_fifo [OF q(2-4) this] q(1) show ?thesis by blast
qed

end
