(* ===== verification/Logger.thy ===== *)
theory Logger
  imports Prelude
begin

text \<open>
  The asynchronous logger of \<^verbatim>\<open>logger.h\<close> and \<^verbatim>\<open>logger.cpp\<close>: callers append entries to a queue, a
  worker thread takes them from the front, formats them and hands the line to every sink. The
  worker's program counter is part of the state, so that the calls of other threads can fall
  between any two of its steps.
\<close>

section \<open>Levels, entries and clocks\<close>

text \<open>The enumerator \<^verbatim>\<open>ERROR\<close> of the source is \<open>LOG_ERROR\<close>, since task states have an \<open>ERROR\<close> too.\<close>

datatype LogLevel = DEBUG | INFO | WARN | LOG_ERROR | MSG_TRAFFIC

fun LogLevel_value :: "LogLevel \<Rightarrow> nat" where
  "LogLevel_value DEBUG = 0"
| "LogLevel_value INFO = 1"
| "LogLevel_value WARN = 2"
| "LogLevel_value LOG_ERROR = 3"
| "LogLevel_value MSG_TRAFFIC = 4"

lemma LogLevel_value_inject [simp]: "LogLevel_value a = LogLevel_value b \<longleftrightarrow> a = b"
  by (cases a; cases b) simp_all

text \<open>The built-in comparison of the scoped enumeration.\<close>

instantiation LogLevel :: linorder
begin

definition less_eq_LogLevel :: "LogLevel \<Rightarrow> LogLevel \<Rightarrow> bool" where
  "less_eq_LogLevel a b \<longleftrightarrow> LogLevel_value a \<le> LogLevel_value b"

definition less_LogLevel :: "LogLevel \<Rightarrow> LogLevel \<Rightarrow> bool" where
  "less_LogLevel a b \<longleftrightarrow> LogLevel_value a < LogLevel_value b"

instance
  by intro_classes (auto simp: less_eq_LogLevel_def less_LogLevel_def)

end

record LogEntry =
  le_level :: LogLevel
  le_component :: string
  le_message :: string
  le_timestampMs :: uint64_t
  le_threadId :: nat

text \<open>
  One reading of the clocks, in nanoseconds: the steady clock, the system clock and the steady
  reading that was stored in \<open>STARTUP_TIME\<close>.
\<close>

record clock =
  steady_now :: int
  system_now :: int
  STARTUP_TIME :: int

section \<open>Sinks\<close>

text \<open>
  An output stream: while it is in a good state, it appends what is written to it. The text is
  the contents of the file, or what the console sink has written.
\<close>

record ostream =
  os_good :: bool
  os_text :: string

definition os_write :: "ostream \<Rightarrow> string \<Rightarrow> ostream" where
  "os_write s x = (if os_good s then s\<lparr>os_text := os_text s @ x\<rparr> else s)"

datatype ILogSink = FileSink (sink_stream: ostream) | ConsoleSink (sink_stream: ostream) | SocketSink int bool

abbreviation (input) newline :: string where
  "newline \<equiv> [CHR 0x0A]"

text \<open>
  The constructor of the file sink. What the file system answers is given by the three outcomes:
  opening for append, opening for output, which truncates the file, and opening for append again.
  \<open>old\<close> is what the file held before.
\<close>

definition FileSink_new :: "string \<Rightarrow> bool \<Rightarrow> bool \<Rightarrow> bool \<Rightarrow> string \<Rightarrow> ILogSink result" where
  "FileSink_new old append_ok create_ok reopen_ok path =
     (if append_ok then Inr (FileSink \<lparr>os_good = True, os_text = old\<rparr>)
      else if \<not> create_ok
      then Inl (RuntimeError (''FileSink: Unable to create log file: '' @ path))
      else if \<not> reopen_ok
      then Inl (RuntimeError (''FileSink: Unable to open log file after creation: '' @ path))
      else Inr (FileSink \<lparr>os_good = True, os_text = []\<rparr>))"

definition ConsoleSink_new :: "ostream \<Rightarrow> ILogSink" where
  "ConsoleSink_new out = ConsoleSink out"

definition SocketSink_new :: "string \<Rightarrow> uint16_t \<Rightarrow> ILogSink" where
  "SocketSink_new host port = SocketSink (-1) False"

text \<open>\<open>ILogSink::log\<close>; the socket sink is a stub in the source.\<close>

fun sink_log :: "ILogSink \<Rightarrow> string \<Rightarrow> ILogSink" where
  "sink_log (FileSink ofs) formatted = FileSink (os_write (os_write ofs formatted) newline)"
| "sink_log (ConsoleSink std_out) formatted = ConsoleSink (os_write (os_write std_out formatted) newline)"
| "sink_log (SocketSink sockfd connected) formatted = SocketSink sockfd connected"

section \<open>The logger\<close>

datatype worker_pc = W_Wait | W_Dispatch LogEntry | W_Exited

record Logger =
  min_level :: LogLevel
  relative_ts :: bool
  log_queue :: "LogEntry list"
  sinks :: "ILogSink list"
  stopping :: bool
  worker :: worker_pc

text \<open>
  The only instance has static storage, so \<open>relative_ts\<close>, which the constructor does not
  initialise, is zero.
\<close>

definition Logger_new :: Logger where
  "Logger_new = \<lparr>min_level = MSG_TRAFFIC, relative_ts = False, log_queue = [], sinks = [],
     stopping = False, worker = W_Wait\<rparr>"

definition add_sink :: "ILogSink \<Rightarrow> Logger \<Rightarrow> Logger" where
  "add_sink s L = L\<lparr>sinks := sinks L @ [s]\<rparr>"

definition set_level :: "LogLevel \<Rightarrow> Logger \<Rightarrow> Logger" where
  "set_level level L = L\<lparr>min_level := level\<rparr>"

definition use_relative_timestamps :: "bool \<Rightarrow> Logger \<Rightarrow> Logger" where
  "use_relative_timestamps enable L = L\<lparr>relative_ts := enable\<rparr>"

definition timestamp_ms :: "bool \<Rightarrow> clock \<Rightarrow> uint64_t" where
  "timestamp_ms relative c =
     word_of_int (duration_ms (if relative then steady_now c - STARTUP_TIME c else system_now c))"

text \<open>\<open>Logger::log\<close>, called at the clock reading \<open>c\<close> by the thread \<open>tid\<close>.\<close>

definition Logger_log ::
  "clock \<Rightarrow> nat \<Rightarrow> LogLevel \<Rightarrow> string \<Rightarrow> string \<Rightarrow> Logger \<Rightarrow> Logger" where
  "Logger_log c tid level component message L =
     (if level < min_level L then L
      else L\<lparr>log_queue := log_queue L @
             [\<lparr>le_level = level, le_component = component, le_message = message,
               le_timestampMs = timestamp_ms (relative_ts L) c, le_threadId = tid\<rparr>]\<rparr>)"

definition Logger_shutdown :: "Logger \<Rightarrow> Logger" where
  "Logger_shutdown L = L\<lparr>stopping := True\<rparr>"

fun level_str :: "LogLevel \<Rightarrow> string" where
  "level_str MSG_TRAFFIC = ''TRAFFIC''"
| "level_str DEBUG = ''DEBUG''"
| "level_str INFO = ''INFO''"
| "level_str WARN = ''WARN''"
| "level_str LOG_ERROR = ''ERROR''"

definition format_entry :: "LogEntry \<Rightarrow> string" where
  "format_entry e =
     to_string (le_timestampMs e) @ '' ['' @ le_component e @ ''] '' @ level_str (le_level e) @
     '' - '' @ le_message e"

text \<open>One step of \<open>worker_loop\<close>: the critical section, or the work after it.\<close>

definition worker_step :: "Logger \<Rightarrow> Logger wait" where
  "worker_step L =
     (case worker L of
        W_Wait \<Rightarrow>
          if \<not> (stopping L \<or> log_queue L \<noteq> []) then Blocks
          else if stopping L \<and> log_queue L = [] then Returns (L\<lparr>worker := W_Exited\<rparr>)
          else Returns (L\<lparr>worker := W_Dispatch (hd (log_queue L)), log_queue := tl (log_queue L)\<rparr>)
      | W_Dispatch e \<Rightarrow>
          Returns (L\<lparr>sinks := map (\<lambda>s. sink_log s (format_entry e)) (sinks L), worker := W_Wait\<rparr>)
      | W_Exited \<Rightarrow> Blocks)"

text \<open>What every step of the worker decreases.\<close>

definition worker_measure :: "Logger \<Rightarrow> nat" where
  "worker_measure L = 2 * length (log_queue L) +
     (case worker L of W_Wait \<Rightarrow> 1 | W_Dispatch _ \<Rightarrow> 2 | W_Exited \<Rightarrow> 0)"

lemma worker_step_measure: "worker_step L = Returns L' \<Longrightarrow> worker_measure L' < worker_measure L"
  by (cases "log_queue L")
    (auto simp: worker_step_def worker_measure_def split: worker_pc.splits if_splits)

text \<open>\<open>worker_loop\<close> while no other thread uses the logger: it runs until it waits or has ended.\<close>

function worker_loop :: "Logger \<Rightarrow> Logger" where
  "worker_loop L = (case worker_step L of Blocks \<Rightarrow> L | Returns L' \<Rightarrow> worker_loop L')"
  by pat_completeness auto

termination
  by (relation "measure worker_measure") (auto dest: worker_step_measure)

declare worker_loop.simps [simp del]

text \<open>The destructor: signal the shutdown and join the worker.\<close>

definition Logger_destroy :: "Logger \<Rightarrow> Logger" where
  "Logger_destroy L = worker_loop (Logger_shutdown L)"

section \<open>What a sink owes the logger\<close>

text \<open>
  The contract of \<open>ILogSink\<close>: a sink in a usable state appends the line and a newline to its text
  and stays usable.
\<close>

locale log_sink =
  fixes emit :: "'s \<Rightarrow> string \<Rightarrow> 's" and contents :: "'s \<Rightarrow> string" and usable :: "'s \<Rightarrow> bool"
  assumes emit_contents: "usable s \<Longrightarrow> contents (emit s x) = contents s @ x @ newline"
    and emit_usable: "usable s \<Longrightarrow> usable (emit s x)"
begin

lemma foldl_emit:
  "usable s \<Longrightarrow> usable (foldl emit s xs) \<and>
     contents (foldl emit s xs) = contents s @ concat (map (\<lambda>x. x @ newline) xs)"
proof (induction xs rule: rev_induct)
  case Nil
  then show ?case by simp
next
  case (snoc x xs)
  then show ?case by (simp add: emit_contents emit_usable)
qed

lemma contents_grow: "usable s \<Longrightarrow> \<exists>more. contents (foldl emit s xs) = contents s @ more"
  using foldl_emit by blast

end

fun sink_usable :: "ILogSink \<Rightarrow> bool" where
  "sink_usable (FileSink ofs) \<longleftrightarrow> os_good ofs"
| "sink_usable (ConsoleSink std_out) \<longleftrightarrow> os_good std_out"
| "sink_usable (SocketSink sockfd connected) \<longleftrightarrow> False"

definition sink_text :: "ILogSink \<Rightarrow> string" where
  "sink_text s = os_text (sink_stream s)"

interpretation stream_sink: log_sink sink_log sink_text sink_usable
proof (unfold_locales, goal_cases)
  case (1 s x)
  then show ?case by (cases s) (simp_all add: sink_text_def os_write_def)
next
  case (2 s x)
  then show ?case by (cases s) (simp_all add: os_write_def)
qed

section \<open>Interleavings\<close>

text \<open>
  One step of any thread. The list holds the entry that the step accepted into the queue, if any.
\<close>

inductive logger_step :: "Logger \<Rightarrow> LogEntry list \<Rightarrow> Logger \<Rightarrow> bool" where
  step_log: "logger_step L
     (if level < min_level L then []
      else [\<lparr>le_level = level, le_component = component, le_message = message,
             le_timestampMs = timestamp_ms (relative_ts L) c, le_threadId = tid\<rparr>])
     (Logger_log c tid level component message L)"
| step_set_level: "logger_step L [] (set_level level L)"
| step_relative: "logger_step L [] (use_relative_timestamps enable L)"
| step_shutdown: "logger_step L [] (Logger_shutdown L)"
| step_worker: "worker_step L = Returns L' \<Longrightarrow> logger_step L [] L'"

inductive logger_exec :: "Logger \<Rightarrow> LogEntry list \<Rightarrow> Logger \<Rightarrow> bool" where
  exec_refl: "logger_exec L [] L"
| exec_step: "logger_exec L es L' \<Longrightarrow> logger_step L' es' L'' \<Longrightarrow> logger_exec L (es @ es') L''"

inductive_cases logger_stepE: "logger_step L es L'"

text \<open>The entries that were accepted and not handed to the sinks yet.\<close>

definition log_pending :: "Logger \<Rightarrow> LogEntry list" where
  "log_pending L = (case worker L of W_Dispatch e \<Rightarrow> [e] | _ \<Rightarrow> []) @ log_queue L"

text \<open>The sinks after a list of entries.\<close>

definition sinks_after :: "ILogSink list \<Rightarrow> LogEntry list \<Rightarrow> ILogSink list" where
  "sinks_after ss es = map (\<lambda>s. foldl sink_log s (map format_entry es)) ss"

lemma sinks_after_simps [simp]:
  "sinks_after ss [] = ss"
  "map (\<lambda>s. sink_log s (format_entry e)) (sinks_after ss ds) = sinks_after ss (ds @ [e])"
  by (simp_all add: sinks_after_def)

lemma worker_step_cases:
  assumes "worker_step L = Returns L'"
  obtains (finish) "worker L = W_Wait" "stopping L" "log_queue L = []" "L' = L\<lparr>worker := W_Exited\<rparr>"
  | (take) e es where "worker L = W_Wait" "log_queue L = e # es"
      "L' = L\<lparr>worker := W_Dispatch e, log_queue := es\<rparr>"
  | (dispatch) e where "worker L = W_Dispatch e"
      "L' = L\<lparr>sinks := map (\<lambda>s. sink_log s (format_entry e)) (sinks L), worker := W_Wait\<rparr>"
  using assms
  by (cases "worker L"; cases "log_queue L")
    (auto simp: worker_step_def split: if_splits)

text \<open>
  The invariant of all executions: what was handed to the sinks, followed by what is pending, is
  what was accepted.
\<close>

definition log_split :: "ILogSink list \<Rightarrow> LogEntry list \<Rightarrow> Logger \<Rightarrow> bool" where
  "log_split ss es L \<longleftrightarrow> (\<exists>ds. es = ds @ log_pending L \<and> sinks L = sinks_after ss ds)"

lemma log_split_worker:
  assumes "log_split ss es L" "worker_step L = Returns L'"
  shows "log_split ss es L'"
proof -
  obtain ds where ds: "es = ds @ log_pending L" "sinks L = sinks_after ss ds"
    using assms(1) by (auto simp: log_split_def)
  from assms(2) show ?thesis
  proof (cases rule: worker_step_cases)
    case (dispatch e)
    with ds have "es = (ds @ [e]) @ log_pending L'" "sinks L' = sinks_after ss (ds @ [e])"
      by (simp_all add: log_pending_def)
    then show ?thesis unfolding log_split_def by blast
  qed (use ds in \<open>auto simp: log_split_def log_pending_def\<close>)
qed

lemma log_split_step:
  assumes "logger_step L es' L'" "log_split ss es L"
  shows "log_split ss (es @ es') L'"
  using assms
proof (cases rule: logger_step.cases)
  case (step_worker)
  with log_split_worker [OF assms(2)] show ?thesis by simp
qed (auto simp: log_split_def log_pending_def Logger_log_def set_level_def
      use_relative_timestamps_def Logger_shutdown_def)

lemma log_split_exec:
  "logger_exec L es L' \<Longrightarrow> log_pending L = [] \<Longrightarrow> log_split (sinks L) es L'"
proof (induction rule: logger_exec.induct)
  case (exec_refl L)
  then show ?case by (simp add: log_split_def)
next
  case (exec_step L es L' es' L'')
  then show ?case using log_split_step by blast
qed

lemma worker_loop_split: "log_split ss es L \<Longrightarrow> log_split ss es (worker_loop L)"
proof (induction L rule: worker_loop.induct)
  case (1 L)
  show ?case
  proof (cases "worker_step L")
    case Blocks
    with 1 show ?thesis by (simp add: worker_loop.simps [of L])
  next
    case (Returns L')
    with 1 log_split_worker [OF _ Returns] show ?thesis by (simp add: worker_loop.simps [of L])
  qed
qed

lemma worker_step_stopping:
  "worker_step L = Returns L' \<Longrightarrow> stopping L' = stopping L"
  by (erule worker_step_cases) simp_all

lemma worker_loop_exits:
  "stopping L \<Longrightarrow> worker L \<noteq> W_Exited \<Longrightarrow>
     worker (worker_loop L) = W_Exited \<and> log_queue (worker_loop L) = []"
proof (induction L rule: worker_loop.induct)
  case (1 L)
  have "worker_step L \<noteq> Blocks" using 1(2,3) by (cases "worker L") (simp_all add: worker_step_def)
  then obtain L' where L': "worker_step L = Returns L'" by (cases "worker_step L") simp_all
  have loop: "worker_loop L = worker_loop L'" using L' by (simp add: worker_loop.simps [of L])
  from L' show ?case
  proof (cases rule: worker_step_cases)
    case finish
    then have "worker_step L' = Blocks" by (simp add: worker_step_def)
    then have "worker_loop L' = L'" by (simp add: worker_loop.simps [of L'])
    with loop finish show ?thesis by simp
  qed (use 1 L' loop worker_step_stopping [OF L'] in auto)
qed

lemma usable_text_after:
  assumes "log_split ss es L" "i < length ss" "sink_usable (ss ! i)"
  obtains ds where "es = ds @ log_pending L"
    "sink_text (sinks L ! i) = sink_text (ss ! i) @ concat (map (\<lambda>e. format_entry e @ newline) ds)"
proof -
  from assms(1) obtain ds where ds: "es = ds @ log_pending L" "sinks L = sinks_after ss ds"
    by (auto simp: log_split_def)
  show ?thesis
  proof (rule that [OF ds(1)])
    show "sink_text (sinks L ! i) =
        sink_text (ss ! i) @ concat (map (\<lambda>e. format_entry e @ newline) ds)"
      using stream_sink.foldl_emit [OF assms(3), of "map format_entry ds"] assms(2) ds(2)
      by (simp add: sinks_after_def comp_def)
  qed
qed

lemma exited_sinks:
  "logger_exec L es L' \<Longrightarrow> worker L = W_Exited \<Longrightarrow> worker L' = W_Exited \<and> sinks L' = sinks L"
proof (induction rule: logger_exec.induct)
  case (exec_refl L)
  then show ?case by simp
next
  case (exec_step L es L' es' L'')
  from exec_step.hyps(2) exec_step show ?case
    by (cases rule: logger_step.cases)
      (simp_all add: Logger_log_def set_level_def use_relative_timestamps_def Logger_shutdown_def
        worker_step_def)
qed

text \<open>The worker ends only after a shutdown.\<close>

lemma exited_stopping:
  "logger_exec L es L' \<Longrightarrow> worker L \<noteq> W_Exited \<Longrightarrow> worker L' = W_Exited \<Longrightarrow> stopping L'"
proof (induction rule: logger_exec.induct)
  case (exec_refl L)
  then show ?case by simp
next
  case (exec_step L es L' es' L'')
  from exec_step.hyps(2) show ?case
  proof (cases rule: logger_step.cases)
    case step_worker
    from step_worker(2) show ?thesis
      by (cases rule: worker_step_cases) (use exec_step.prems in auto)
  qed (use exec_step in \<open>auto simp: Logger_log_def set_level_def use_relative_timestamps_def
        Logger_shutdown_def split: if_splits\<close>)
qed

lemma Logger_destroy_exited:
  "worker L = W_Exited \<Longrightarrow> Logger_destroy L = Logger_shutdown L"
  by (simp add: Logger_destroy_def Logger_shutdown_def worker_step_def
      worker_loop.simps [of "L\<lparr>stopping := True\<rparr>"])

lemma Logger_log_unchanged: "Logger_log c tid level comp0 text0 L = L \<longleftrightarrow> level < min_level L"
proof -
  have "M\<lparr>log_queue := log_queue M @ [e]\<rparr> \<noteq> M" for M :: Logger and e
    by (cases M) simp
  then show ?thesis by (simp add: Logger_log_def)
qed

section \<open>Properties of the logger\<close>

text \<open>A logger with one console sink that lets warnings and errors pass, for the examples.\<close>

definition example_logger :: Logger where
  "example_logger = set_level WARN
     (add_sink (ConsoleSink_new \<lparr>os_good = True, os_text = []\<rparr>) Logger_new)"

definition example_clock :: clock where
  "example_clock = \<lparr>steady_now = 5000000, system_now = 7000000, STARTUP_TIME = 2000000\<rparr>"

definition example_entry :: LogEntry where
  "example_entry = \<lparr>le_level = LOG_ERROR, le_component = ''A'', le_message = ''x'',
     le_timestampMs = 7, le_threadId = 1\<rparr>"

lemma example_logger_simps [simp]:
  "min_level example_logger = WARN" "relative_ts example_logger = False"
  "log_queue example_logger = []" "worker example_logger = W_Wait"
  "sinks example_logger = [ConsoleSink \<lparr>os_good = True, os_text = []\<rparr>]"
  "log_pending example_logger = []"
  by (simp_all add: example_logger_def set_level_def add_sink_def ConsoleSink_new_def Logger_new_def
      log_pending_def)

lemma example_format: "format_entry example_entry = ''7 [A] ERROR - x''"
  by (simp add: format_entry_def example_entry_def to_string_def decimal.simps char_of_def bit_0)

lemma example_exec:
  "logger_exec example_logger [example_entry]
     (Logger_log example_clock 1 LOG_ERROR ''A'' ''x'' example_logger)"
  using exec_step [OF exec_refl step_log [of example_logger LOG_ERROR "''A''" "''x''" example_clock 1]]
  by (simp add: less_LogLevel_def timestamp_ms_def duration_ms_def example_clock_def example_entry_def)

text \<open>C19: However the calls of other threads interleave with the worker, every sink whose stream
  is good has been handed, in order and exactly once each, the lines of the accepted entries that
  are not pending any more: its text is what it held, followed by one formatted line per entry of
  a prefix of the accepted entries, and the rest of them is what the worker still holds or finds
  in the queue.\<close>

theorem log_delivery_in_order:
  assumes "logger_exec L es L'" "log_pending L = []"
    and "i < length (sinks L)" "sink_usable (sinks L ! i)"
  shows "\<exists>ds. es = ds @ log_pending L' \<and>
    sink_text (sinks L' ! i) =
      sink_text (sinks L ! i) @ concat (map (\<lambda>e. format_entry e @ newline) ds)"
  using usable_text_after [OF log_split_exec [OF assms(1,2)] assms(3,4)] by metis

theorem log_delivery_in_order_witness:
  "\<exists>L. logger_exec example_logger [example_entry] L \<and> log_pending L = [] \<and>
     sink_text (sinks L ! 0) = format_entry example_entry @ newline"
proof -
  define L1 where "L1 = Logger_log example_clock 1 LOG_ERROR ''A'' ''x'' example_logger"
  let ?L2 = "L1\<lparr>worker := W_Dispatch example_entry, log_queue := []\<rparr>"
  let ?L3 = "?L2\<lparr>sinks := map (\<lambda>s. sink_log s (format_entry example_entry)) (sinks ?L2), worker := W_Wait\<rparr>"
  have q: "worker L1 = W_Wait" "log_queue L1 = [example_entry]" "sinks L1 = sinks example_logger"
    by (simp_all add: L1_def Logger_log_def less_LogLevel_def timestamp_ms_def duration_ms_def example_clock_def
        example_entry_def)
  have "logger_step L1 [] ?L2" by (rule step_worker) (simp add: worker_step_def q)
  with example_exec [folded L1_def] have 2: "logger_exec example_logger ([example_entry] @ []) ?L2" by (rule exec_step)
  have "logger_step ?L2 [] ?L3" by (rule step_worker) (simp add: worker_step_def)
  with 2 have "logger_exec example_logger (([example_entry] @ []) @ []) ?L3" by (rule exec_step)
  then have run: "logger_exec example_logger [example_entry] ?L3" by simp
  have none: "log_pending ?L3 = []" by (simp add: log_pending_def)
  obtain ds where ds: "[example_entry] = ds @ log_pending ?L3"
    "sink_text (sinks ?L3 ! 0) = sink_text (sinks example_logger ! 0) @ concat (map (\<lambda>e. format_entry e @ newline) ds)"
    using log_delivery_in_order [OF run, of 0] by auto
  from ds(1) none have "ds = [example_entry]" by simp
  with ds(2) have "sink_text (sinks ?L3 ! 0) = format_entry example_entry @ newline" by (simp add: q(3) sink_text_def)
  with run none show ?thesis by blast
qed

text \<open>C20: What the destructor flushes: after any execution the worker has ended when the
  destructor returns, and every sink whose stream is good holds, in order and once each, the lines
  of the accepted entries except those that are left in the queue. If the worker was still alive
  when the destructor was called, in particular if \<open>shutdown\<close> was not called before, nothing is
  left and all entries ever accepted are flushed. If it had already ended, after an earlier call
  of \<open>shutdown\<close>, what was accepted since then stays in the queue and is lost: the destructor
  changes neither the queue nor the sinks.\<close>

theorem logger_destroy_flushes:
  assumes "logger_exec L es L'" "log_pending L = []"
    and "i < length (sinks L)" "sink_usable (sinks L ! i)"
  shows "worker (Logger_destroy L') = W_Exited \<and>
    (\<exists>ds. es = ds @ log_queue (Logger_destroy L') \<and>
       sink_text (sinks (Logger_destroy L') ! i) =
         sink_text (sinks L ! i) @ concat (map (\<lambda>e. format_entry e @ newline) ds)) \<and>
    (worker L' \<noteq> W_Exited \<longrightarrow> log_queue (Logger_destroy L') = []) \<and>
    (worker L \<noteq> W_Exited \<and> \<not> stopping L' \<longrightarrow> log_queue (Logger_destroy L') = []) \<and>
    (worker L' = W_Exited \<longrightarrow>
       log_queue (Logger_destroy L') = log_queue L' \<and> sinks (Logger_destroy L') = sinks L')"
proof -
  let ?L = "Logger_destroy L'"
  have "logger_exec L (es @ []) (Logger_shutdown L')"
    by (rule exec_step [OF assms(1) step_shutdown])
  then have "log_split (sinks L) es ?L"
    using worker_loop_split log_split_exec assms(2) unfolding Logger_destroy_def by simp
  then obtain ds where ds: "es = ds @ log_pending ?L"
    "sink_text (sinks ?L ! i) = sink_text (sinks L ! i) @ concat (map (\<lambda>e. format_entry e @ newline) ds)"
    using usable_text_after assms(3,4) by blast
  have alive: "worker ?L = W_Exited \<and> log_queue ?L = []" if "worker L' \<noteq> W_Exited"
    using worker_loop_exits [of "Logger_shutdown L'"] that
    by (simp add: Logger_destroy_def Logger_shutdown_def)
  moreover have ended: "?L = Logger_shutdown L'" if "worker L' = W_Exited"
    by (rule Logger_destroy_exited [OF that])
  ultimately have "worker ?L = W_Exited"
    by (cases "worker L' = W_Exited") (simp_all add: Logger_shutdown_def)
  moreover from this have "log_pending ?L = log_queue ?L" by (simp add: log_pending_def)
  ultimately show ?thesis
    using ds alive ended exited_stopping [OF assms(1)] by (auto simp: Logger_shutdown_def)
qed

text \<open>Logging after the worker has ended: shut down, let the worker end, log one entry.\<close>

definition example_late :: Logger where
  "example_late = Logger_log example_clock 1 LOG_ERROR ''A'' ''x''
     ((Logger_shutdown example_logger)\<lparr>worker := W_Exited\<rparr>)"

lemma example_late_simps:
  "worker example_late = W_Exited" "log_queue example_late = [example_entry]"
  "sinks example_late = [ConsoleSink \<lparr>os_good = True, os_text = []\<rparr>]"
  by (simp_all add: example_late_def Logger_log_def Logger_shutdown_def less_LogLevel_def
      timestamp_ms_def duration_ms_def example_clock_def example_entry_def)

lemma example_late_exec: "logger_exec example_logger [example_entry] example_late"
proof -
  let ?L1 = "Logger_shutdown example_logger" and ?L2 = "(Logger_shutdown example_logger)\<lparr>worker := W_Exited\<rparr>"
  have 1: "logger_exec example_logger ([] @ []) ?L1" by (rule exec_step [OF exec_refl step_shutdown])
  have "logger_step ?L1 [] ?L2"
    by (rule step_worker) (simp add: worker_step_def Logger_shutdown_def)
  with 1 have 2: "logger_exec example_logger (([] @ []) @ []) ?L2" by (rule exec_step)
  from exec_step [OF 2 step_log [of ?L2 LOG_ERROR "''A''" "''x''" example_clock 1]] show ?thesis
    by (simp add: example_late_def Logger_shutdown_def less_LogLevel_def timestamp_ms_def duration_ms_def
        example_clock_def example_entry_def)
qed

theorem logger_destroy_flushes_witness:
  "sink_text (sinks (Logger_destroy (Logger_log example_clock 1 LOG_ERROR ''A'' ''x'' example_logger)) ! 0) =
     ''7 [A] ERROR - x'' @ newline \<and>
   log_queue (Logger_destroy example_late) = [example_entry] \<and>
   sink_text (sinks (Logger_destroy example_late) ! 0) = []"
proof (intro conjI)
  let ?L = "Logger_log example_clock 1 LOG_ERROR ''A'' ''x'' example_logger"
  have L: "worker ?L = W_Wait" by (simp add: Logger_log_def)
  have "i < length (sinks example_logger)" "sink_usable (sinks example_logger ! i)"
    "sink_text (sinks example_logger ! i) = []" if "i = 0" for i
    using that by (simp_all add: sink_text_def)
  note good = this [OF refl]
  note flush = logger_destroy_flushes [OF example_exec _ good(1,2)]
  then obtain ds where ds: "[example_entry] = ds @ log_queue (Logger_destroy ?L)"
    "sink_text (sinks (Logger_destroy ?L) ! 0) = concat (map (\<lambda>e. format_entry e @ newline) ds)"
    using good(3) by auto
  moreover have "log_queue (Logger_destroy ?L) = []" using flush L by simp
  ultimately have "ds = [example_entry]" by simp
  with ds(2) example_format show "sink_text (sinks (Logger_destroy ?L) ! 0) = ''7 [A] ERROR - x'' @ newline"
    by simp
  from logger_destroy_flushes [OF example_late_exec _ good(1,2)] show
    "log_queue (Logger_destroy example_late) = [example_entry]"
    "sink_text (sinks (Logger_destroy example_late) ! 0) = []"
    by (simp_all add: example_late_simps sink_text_def)
qed

text \<open>Once the worker has ended, nothing that is logged reaches a sink any more, although
  \<open>log\<close> still accepts entries into the queue.\<close>

lemma log_after_exit_is_lost:
  assumes "logger_exec L es L'" "worker L = W_Exited"
  shows "sinks L' = sinks L \<and> worker_step L' = Blocks"
  using exited_sinks [OF assms] by (simp add: worker_step_def)

text \<open>C39: The level filter: after \<open>set_level\<close> an entry is accepted exactly if its level is not
  below the given one in the order of the enumeration. Since that order puts message traffic
  above errors, a logger whose level was never set drops every error, warning and information
  and keeps message traffic only.\<close>

theorem log_level_filter:
  "(Logger_log c tid level comp0 text0 (set_level lv L) = set_level lv L \<longleftrightarrow>
      LogLevel_value level < LogLevel_value lv) \<and>
   (Logger_log c tid level comp0 text0 Logger_new = Logger_new \<longleftrightarrow> level \<noteq> MSG_TRAFFIC)"
proof -
  have "level < MSG_TRAFFIC \<longleftrightarrow> level \<noteq> MSG_TRAFFIC" by (cases level) (simp_all add: less_LogLevel_def)
  then show ?thesis by (simp add: Logger_log_unchanged set_level_def less_LogLevel_def Logger_new_def)
qed

text \<open>Opening a log file: the constructor throws exactly if the file can neither be opened
  for append nor created and reopened; a file that could be opened at once keeps its contents, and
  the sink it gives is usable.\<close>

lemma file_sink_open:
  "(case FileSink_new old a c r path of
      Inl e \<Rightarrow> \<not> a \<and> \<not> (c \<and> r) \<and> (\<exists>m. e = RuntimeError (m @ path))
    | Inr s \<Rightarrow> (a \<or> c \<and> r) \<and> sink_usable s \<and> sink_text s = (if a then old else []))"
  by (auto simp: FileSink_new_def sink_text_def)

end
