(* ===== verification/Std_Map.thy ===== *)
theory Std_Map
  imports Prelude
begin

text \<open>
  \<^verbatim>\<open>std::map\<close>, as the sources use it: the entries in ascending order of the key, which is the order
  in which a range-based \<open>for\<close> visits them, and assignment through \<^verbatim>\<open>operator[]\<close>.
\<close>

section \<open>The map and its operations\<close>

type_synonym ('k, 'v) std_map = "('k \<times> 'v) list"

text \<open>\<^verbatim>\<open>m[k] = v\<close>\<close>

fun map_assign :: "'k::linorder \<Rightarrow> 'v \<Rightarrow> ('k, 'v) std_map \<Rightarrow> ('k, 'v) std_map" where
  "map_assign k v [] = [(k, v)]"
| "map_assign k v ((k', v') # m) =
     (if k < k' then (k, v) # (k', v') # m
      else if k = k' then (k, v) # m
      else (k', v') # map_assign k v m)"

text \<open>\<^verbatim>\<open>m.find(k)\<close>\<close>

abbreviation map_find :: "('k, 'v) std_map \<Rightarrow> 'k \<rightharpoonup> 'v" where
  "map_find \<equiv> map_of"

definition map_sorted :: "('k::linorder, 'v) std_map \<Rightarrow> bool" where
  "map_sorted m \<longleftrightarrow> sorted_wrt (<) (map fst m)"

section \<open>The contract of an ordered map\<close>

locale ordered_map =
  fixes assign :: "'k::linorder \<Rightarrow> 'v \<Rightarrow> 'm \<Rightarrow> 'm" and find :: "'m \<Rightarrow> 'k \<rightharpoonup> 'v"
    and entries :: "'m \<Rightarrow> ('k \<times> 'v) list" and valid :: "'m \<Rightarrow> bool"
  assumes find_assign: "valid m \<Longrightarrow> find (assign k v m) = (find m)(k \<mapsto> v)"
    and valid_assign: "valid m \<Longrightarrow> valid (assign k v m)"
    and entries_find: "valid m \<Longrightarrow> (k, v) \<in> set (entries m) \<longleftrightarrow> find m k = Some v"
    and entries_sorted: "valid m \<Longrightarrow> sorted_wrt (<) (map fst (entries m))"
begin

lemma entries_distinct: "valid m \<Longrightarrow> distinct (map fst (entries m))"
  using entries_sorted strict_sorted_iff by auto

lemma dom_find: "valid m \<Longrightarrow> dom (find m) = fst ` set (entries m)"
  using entries_find by force

lemma keys_assign: "valid m \<Longrightarrow> fst ` set (entries (assign k v m)) = insert k (fst ` set (entries m))"
  using dom_find [of "assign k v m"] dom_find [of m] find_assign [of m k v] valid_assign [of m k v]
  by auto

lemma all_values:
  "valid m \<Longrightarrow> (\<forall>(k, v) \<in> set (entries m). P v) \<longleftrightarrow> (\<forall>k v. find m k = Some v \<longrightarrow> P v)"
  using entries_find by fastforce

lemma all_values_assign:
  assumes "valid m"
  shows "(\<forall>(k, v) \<in> set (entries (assign k0 v0 m)). P v) \<longleftrightarrow>
    P v0 \<and> (\<forall>k v. find m k = Some v \<longrightarrow> k = k0 \<or> P v)"
  unfolding all_values [OF valid_assign [OF assms]] find_assign [OF assms] by auto

end

lemma map_sorted_Nil [simp]: "map_sorted []"
  by (simp add: map_sorted_def)

lemma fst_map_assign: "fst ` set (map_assign k v m) = insert k (fst ` set m)"
proof (induction m)
  case (Cons e m)
  then show ?case by (cases e) (simp add: insert_commute)
qed simp

lemma map_sorted_assign [simp, wf_intros]: "map_sorted m \<Longrightarrow> map_sorted (map_assign k v m)"
proof (induction m)
  case Nil
  then show ?case by (simp add: map_sorted_def)
next
  case (Cons e m)
  then show ?case
    using fst_map_assign [of k v m] by (cases e) (auto simp: map_sorted_def)
qed

lemma map_find_assign [simp]: "map_sorted m \<Longrightarrow> map_find (map_assign k v m) = (map_find m)(k \<mapsto> v)"
proof (induction m)
  case Nil
  then show ?case by auto
next
  case (Cons e m)
  then show ?case by (cases e) (auto simp: map_sorted_def fun_upd_twist)
qed

interpretation std_map: ordered_map map_assign map_find "\<lambda>m. m" map_sorted
proof (unfold_locales, goal_cases)
  case (3 m k v)
  then have "distinct (map fst m)" by (auto simp: map_sorted_def strict_sorted_iff)
  then show ?case by simp
qed (simp_all, simp add: map_sorted_def)

text \<open>Replacing the values in place, as a loop over references does, keeps the keys.\<close>

lemma map_sorted_map_values:
  "map fst m' = map fst m \<Longrightarrow> map_sorted m' = map_sorted m"
  by (simp add: map_sorted_def)

lemma length_map_assign_old [simp]:
  "map_sorted m \<Longrightarrow> k \<in> fst ` set m \<Longrightarrow> map fst (map_assign k v m) = map fst m"
proof (induction m)
  case (Cons e m)
  then show ?case by (cases e) (force simp: map_sorted_def)
qed simp

end
