(* ===== verification/World.thy ===== *)
theory World
  imports Message_Queue Logger Std_Map
begin

text \<open>
  The objects of a running system: the task objects with their base part (\<^verbatim>\<open>task.h\<close>) and the part
  their class adds (\<^verbatim>\<open>state_manager.h\<close>, \<^verbatim>\<open>heart_beat.h\<close>), the broker's static members, the logger
  and the clocks. The operations on them are in the theories of the components.
\<close>

section \<open>The parts of a task object\<close>

text \<open>
  The state manager's \<open>current_state\<close> and \<open>target_state\<close> have no initialiser: \<open>None\<close> is an
  indeterminate value. A null shared pointer is the address 0.
\<close>

record StateManager =
  task_states :: "(ptr, TaskState) std_map"
  sm_current_state :: "TaskState option"
  target_state :: "TaskState option"
  task_registration_observer :: ptr

text \<open>Time points are readings of the steady clock in nanoseconds.\<close>

record TaskStatus =
  awaiting_response :: bool
  last_heartbeat_id :: uint32_t
  last_heartbeat_time :: int
  last_response_time :: int

record HeartBeatTask =
  monitored_tasks :: "(ptr, TaskStatus) std_map"
  state_manager :: ptr
  response_timeout_ms :: int
  next_heartbeat_id :: uint32_t
  unresponsive_action :: TaskState

text \<open>The dynamic class of an object, with the members it adds to \<open>Task\<close>.\<close>

datatype derived =
    UserTask
  | DerivedStateManager StateManager
  | DerivedHeartBeat HeartBeatTask

text \<open>
  Where a thread of a task is: there is none (not joinable), before the test of \<open>running\<close>, before
  \<open>dequeue\<close>, in \<open>process_message\<close> with the message it took, or at its end; the periodic thread in
  \<open>periodic_task_process\<close> or asleep.
\<close>

datatype thread =
    NoThread
  | AtTest
  | AtDequeue
  | AtProcess Msg
  | AtPeriodic
  | AtSleep int
  | AtEnd

text \<open>
  \<open>control_block\<close> and \<open>owned\<close> say which control block the shared pointers to the object use and
  whether one of them is left.
\<close>

record Task =
  name :: string
  current_state :: TaskState
  running :: bool
  queue_thread :: thread
  periodic_thread :: thread
  periodic_task_interval_ms :: int
  message_queue :: MessageQueue
  derived_part :: derived
  control_block :: nat
  owned :: bool

text \<open>The accessors of the class.\<close>

abbreviation is_running :: "Task \<Rightarrow> bool" where
  "is_running t \<equiv> running t"

abbreviation get_name :: "Task \<Rightarrow> string" where
  "get_name t \<equiv> name t"

abbreviation get_current_state :: "Task \<Rightarrow> TaskState" where
  "get_current_state t \<equiv> current_state t"

abbreviation get_message_queue :: "Task \<Rightarrow> MessageQueue" where
  "get_message_queue t \<equiv> message_queue t"

section \<open>The system\<close>

text \<open>A weak pointer: the address of the object and its control block.\<close>

datatype weak_ptr = Weak (wp_object: ptr) (wp_block: nat)

record Broker =
  initialized :: bool
  subscriber_lists :: "weak_ptr list list"
  subscribers_reserved :: nat

text \<open>
  \<open>clocks\<close> are the readings of the clocks in the order in which they are taken and
  \<open>clock_reads\<close> counts them; \<open>this_thread\<close> is the running thread and \<open>next_block\<close> the next
  control block.
\<close>

record World =
  tasks :: "ptr \<rightharpoonup> Task"
  broker :: Broker
  logger :: Logger
  clocks :: "nat \<Rightarrow> clock"
  clock_reads :: nat
  this_thread :: nat
  next_block :: nat

definition get_task :: "World \<Rightarrow> ptr \<Rightarrow> Task result" where
  "get_task w p =
     (case tasks w p of
        None \<Rightarrow> Inl (UB ''dereference of a null or dangling task pointer'')
      | Some t \<Rightarrow> Inr t)"

definition put_task :: "ptr \<Rightarrow> Task \<Rightarrow> World \<Rightarrow> World" where
  "put_task p t w = w\<lparr>tasks := (tasks w)(p \<mapsto> t)\<rparr>"

text \<open>\<^verbatim>\<open>weak_ptr::lock\<close>: the object, when the control block still has an owner.\<close>

definition weak_lock :: "World \<Rightarrow> weak_ptr \<Rightarrow> ptr option" where
  "weak_lock w wp =
     (case tasks w (wp_object wp) of
        None \<Rightarrow> None
      | Some t \<Rightarrow> if owned t \<and> control_block t = wp_block wp then Some (wp_object wp) else None)"

text \<open>The weak pointer made from a shared pointer.\<close>

definition weak_of :: "World \<Rightarrow> ptr \<Rightarrow> weak_ptr" where
  "weak_of w p = (case tasks w p of None \<Rightarrow> Weak nullptr 0 | Some t \<Rightarrow> Weak p (control_block t))"

definition shared_from_this :: "World \<Rightarrow> ptr \<Rightarrow> ptr result" where
  "shared_from_this w p =
     res_bind (get_task w p) (\<lambda>t. if owned t then Inr p else Inl BadWeakPtr)"

text \<open>Logging and reading the steady clock.\<close>

definition world_log :: "LogLevel \<Rightarrow> string \<Rightarrow> string \<Rightarrow> World \<Rightarrow> World" where
  "world_log level component text w =
     w\<lparr>logger := Logger_log (clocks w (clock_reads w)) (this_thread w) level component text (logger w),
       clock_reads := Suc (clock_reads w)\<rparr>"

definition steady_clock_now :: "World \<Rightarrow> int \<times> World" where
  "steady_clock_now w = (steady_now (clocks w (clock_reads w)), w\<lparr>clock_reads := Suc (clock_reads w)\<rparr>)"

text \<open>
  The constructor of \<open>Task\<close>, with the address of the storage its queue's pool allocates, and the
  creation of the first shared pointer to an object, as the \<open>create\<close> functions do it.
\<close>

definition Task_new :: "string \<Rightarrow> ptr \<Rightarrow> size_t \<Rightarrow> derived \<Rightarrow> Task result" where
  "Task_new task_name base queue_msg_count d =
     res_bind (MessageQueue_new base (of_nat node_size) queue_msg_count) (\<lambda>q.
     Inr \<lparr>name = task_name, current_state = NOT_STARTED, running = False, queue_thread = NoThread,
          periodic_thread = NoThread, periodic_task_interval_ms = 0, message_queue = q,
          derived_part = d, control_block = 0, owned = False\<rparr>)"

definition make_shared :: "ptr \<Rightarrow> Task \<Rightarrow> World \<Rightarrow> World" where
  "make_shared p t w =
     put_task p (t\<lparr>control_block := next_block w, owned := True\<rparr>) (w\<lparr>next_block := Suc (next_block w)\<rparr>)"

section \<open>Lemmas\<close>

named_theorems world_simps \<open>reading the fields of an updated world\<close>

lemma get_task_simps [simp]:
  "tasks w p = Some t \<Longrightarrow> get_task w p = Inr t"
  "tasks w p = None \<Longrightarrow> get_task w p = Inl (UB ''dereference of a null or dangling task pointer'')"
  by (simp_all add: get_task_def)

lemma get_task_eq_Inr [simp]: "get_task w p = Inr t \<longleftrightarrow> tasks w p = Some t"
  by (simp add: get_task_def split: option.splits)

lemma put_task_simps [simp, world_simps]:
  "tasks (put_task p t w) = (tasks w)(p \<mapsto> t)" "broker (put_task p t w) = broker w"
  "logger (put_task p t w) = logger w" "clocks (put_task p t w) = clocks w"
  "clock_reads (put_task p t w) = clock_reads w" "this_thread (put_task p t w) = this_thread w"
  "next_block (put_task p t w) = next_block w"
  by (simp_all add: put_task_def)

lemma world_log_simps [simp, world_simps]:
  "tasks (world_log l c x w) = tasks w" "broker (world_log l c x w) = broker w"
  "clocks (world_log l c x w) = clocks w" "this_thread (world_log l c x w) = this_thread w"
  "next_block (world_log l c x w) = next_block w"
  by (simp_all add: world_log_def)

lemma steady_clock_now_simps [simp, world_simps]:
  "tasks (snd (steady_clock_now w)) = tasks w" "broker (snd (steady_clock_now w)) = broker w"
  "logger (snd (steady_clock_now w)) = logger w" "clocks (snd (steady_clock_now w)) = clocks w"
  "this_thread (snd (steady_clock_now w)) = this_thread w"
  "next_block (snd (steady_clock_now w)) = next_block w"
  by (simp_all add: steady_clock_now_def)

lemma get_task_world_log [simp]: "get_task (world_log l c x w) p = get_task w p"
  by (simp add: get_task_def)

lemma weak_lock_world_log [simp]: "weak_lock (world_log l c x w) = weak_lock w"
  by (simp add: weak_lock_def fun_eq_iff)

lemma weak_lock_object: "weak_lock w wp = Some p \<Longrightarrow> wp_object wp = p \<and> (\<exists>t. tasks w p = Some t \<and> owned t)"
  by (auto simp: weak_lock_def split: option.splits if_splits)

lemma weak_lock_weak_of: "tasks w p = Some t \<Longrightarrow> owned t \<Longrightarrow> weak_lock w (weak_of w p) = Some p"
  by (simp add: weak_lock_def weak_of_def)

lemma weak_lock_unique: "weak_lock w wp = Some p \<Longrightarrow> weak_lock w wp' = Some p \<Longrightarrow> wp = wp'"
  by (cases wp; cases wp') (auto simp: weak_lock_def split: option.splits if_splits)

text \<open>Changing a task without touching its ownership does not change what weak pointers see.\<close>

lemma weak_lock_put_task:
  assumes "tasks w p = Some t" "owned t' = owned t" "control_block t' = control_block t"
  shows "weak_lock (put_task p t' w) = weak_lock w"
  using assms by (auto simp: weak_lock_def fun_eq_iff)

lemma Task_new_ok:
  assumes "pool_area base (of_nat node_size) cnt"
  obtains q where "Task_new nm base cnt d = Inr \<lparr>name = nm, current_state = NOT_STARTED,
      running = False, queue_thread = NoThread, periodic_thread = NoThread,
      periodic_task_interval_ms = 0, message_queue = q, derived_part = d, control_block = 0,
      owned = False\<rparr>"
    "\<And>n. n < 2 ^ 32 \<Longrightarrow> mq_good n q" "mq_queue q = []" "pending_msgs q = []"
    "mq_capacity q = unat cnt" "mq_shutdown q = False"
proof -
  have "node_size \<le> unat (of_nat node_size :: size_t)" by (simp add: node_size_eq)
  then obtain q where q: "MessageQueue_new base (of_nat node_size) cnt = Inr q" "mq_wf q {}"
    "mq_queue q = []" "mq_shutdown q = False" "mq_sequence q = 0" "mq_capacity q = unat cnt"
    using MessageQueue_new_wf [OF assms] by blast
  then show ?thesis
    by (intro that [of q])
      (simp_all add: Task_new_def mq_good_def fifo_ok_def mq_contents_def pending_msgs_def)
qed

end
