(* ===== verification/Broker.thy ===== *)
theory Broker
  imports World
begin

text \<open>
  The publish-subscribe broker of \<^verbatim>\<open>broker.h\<close>: one list of weak pointers per message type. A publish
  runs under the broker's mutex, delivers the message to every subscriber that still exists and
  drops the others from the list.
\<close>

section \<open>Operations\<close>

definition MESSAGE_TYPE_COUNT :: nat where
  "MESSAGE_TYPE_COUNT = length message_types"

definition DEFAULT_MAX_SUBSCRIBERS :: nat where
  "DEFAULT_MAX_SUBSCRIBERS = 16"

text \<open>The static members before \<open>main\<close>.\<close>

definition Broker_new :: Broker where
  "Broker_new = \<lparr>initialized = False, subscriber_lists = replicate MESSAGE_TYPE_COUNT [],
     subscribers_reserved = 0\<rparr>"

text \<open>A system before its first object is created, with the logger as its constructor leaves it.\<close>

definition World_new :: "(nat \<Rightarrow> clock) \<Rightarrow> World" where
  "World_new clks = \<lparr>tasks = Map.empty, broker = Broker_new, logger = Logger_new, clocks = clks,
     clock_reads = 0, this_thread = 0, next_block = 0\<rparr>"

definition Broker_initialize :: "nat \<Rightarrow> World \<Rightarrow> World" where
  "Broker_initialize max_subscribers w =
     w\<lparr>broker := (broker w)\<lparr>subscribers_reserved := max (subscribers_reserved (broker w)) max_subscribers,
                          initialized := True\<rparr>\<rparr>"

definition sender_name :: "World \<Rightarrow> Msg \<Rightarrow> string result" where
  "sender_name w m =
     (if get_sender m \<noteq> nullptr then res_bind (get_task w (get_sender m)) (\<lambda>t. Inr (name t))
      else Inr ''UnknownSender'')"

definition deliver_message :: "ptr \<Rightarrow> Msg \<Rightarrow> World \<Rightarrow> World result" where
  "deliver_message target m w =
     res_bind (sender_name w m) (\<lambda>sender.
     let w1 = world_log MSG_TRAFFIC sender (msg_str m) w
     in res_bind (get_task w1 target) (\<lambda>t.
        res_bind (enqueue (message_queue t) m) (\<lambda>q.
        Inr (put_task target (t\<lparr>message_queue := q\<rparr>) w1))))"

text \<open>The loop of \<open>publish\<close>: the subscribers that are kept, and the state after the deliveries.\<close>

fun publish_loop :: "Msg \<Rightarrow> weak_ptr list \<Rightarrow> World \<Rightarrow> (weak_ptr list \<times> World) result" where
  "publish_loop m [] w = Inr ([], w)"
| "publish_loop m (it # rest) w =
     (case weak_lock w it of
        Some subscriber \<Rightarrow>
          res_bind (deliver_message subscriber m w) (\<lambda>w1.
          res_bind (publish_loop m rest w1) (\<lambda>(kept, w2). Inr (it # kept, w2)))
      | None \<Rightarrow> publish_loop m rest w)"

definition set_subscribers :: "nat \<Rightarrow> weak_ptr list \<Rightarrow> World \<Rightarrow> World" where
  "set_subscribers i subs w =
     w\<lparr>broker := (broker w)\<lparr>subscriber_lists := (subscriber_lists (broker w))[i := subs]\<rparr>\<rparr>"

definition publish :: "Msg \<Rightarrow> World \<Rightarrow> World result" where
  "publish m w =
     res_bind (assert_that (initialized (broker w)) ''Broker not initialized!'') (\<lambda>_.
     let i = type_index (get_type m)
     in res_bind (assert_that (i < MESSAGE_TYPE_COUNT) ''Invalid message type!'') (\<lambda>_.
        res_bind (publish_loop m (subscriber_lists (broker w) ! i) w) (\<lambda>(subs, w1).
        Inr (set_subscribers i subs w1))))"

definition subscribe :: "ptr \<Rightarrow> Type \<Rightarrow> World \<Rightarrow> World result" where
  "subscribe task t w =
     res_bind (assert_that (initialized (broker w)) ''Broker not initialized!'') (\<lambda>_.
     let i = type_index t
     in res_bind (assert_that (i < MESSAGE_TYPE_COUNT) ''Invalid message type!'') (\<lambda>_.
        let subs = subscriber_lists (broker w) ! i
        in if list_ex (\<lambda>wp. weak_lock w wp = Some task) subs then Inr w
           else Inr (set_subscribers i (subs @ [weak_of w task]) w)))"

section \<open>Publishing as posting to mailboxes\<close>

definition queues :: "World \<Rightarrow> ptr \<rightharpoonup> MessageQueue" where
  "queues w p = map_option message_queue (tasks w p)"

definition with_queues :: "(ptr \<rightharpoonup> MessageQueue) \<Rightarrow> World \<Rightarrow> World" where
  "with_queues st w = w\<lparr>tasks := \<lambda>p. case (tasks w p, st p) of
       (Some t, Some q) \<Rightarrow> Some (t\<lparr>message_queue := q\<rparr>)
     | (x, _) \<Rightarrow> x\<rparr>"

definition is_live :: "World \<Rightarrow> weak_ptr \<Rightarrow> bool" where
  "is_live w wp \<longleftrightarrow> weak_lock w wp \<noteq> None"

definition live :: "World \<Rightarrow> weak_ptr list \<Rightarrow> ptr list" where
  "live w subs = map wp_object (filter (is_live w) subs)"

definition live_subscribers :: "World \<Rightarrow> Type \<Rightarrow> ptr list" where
  "live_subscribers w t = live w (subscriber_lists (broker w) ! type_index t)"

lemma type_index_count [simp]: "type_index t < MESSAGE_TYPE_COUNT"
  by (simp add: MESSAGE_TYPE_COUNT_def)

lemma live_simps [simp]:
  "live w [] = []"
  "live w (wp # subs) = (case weak_lock w wp of Some p \<Rightarrow> p # live w subs | None \<Rightarrow> live w subs)"
  by (auto simp: live_def is_live_def dest: weak_lock_object split: option.splits)

lemma live_set: "p \<in> set (live w subs) \<longleftrightarrow> (\<exists>wp \<in> set subs. weak_lock w wp = Some p)"
  by (induction subs) (auto split: option.splits)

lemma live_cong: "weak_lock w' = weak_lock w \<Longrightarrow> live w' subs = live w subs"
  by (simp add: live_def is_live_def [abs_def])

lemma live_filter [simp]: "live w (filter (is_live w) subs) = live w subs"
  by (simp add: live_def)

lemma live_distinct: "distinct subs \<Longrightarrow> distinct (live w subs)"
  by (induction subs) (auto simp: live_set dest: weak_lock_unique split: option.splits)

lemma live_exists: "p \<in> set (live w subs) \<Longrightarrow> \<exists>t. tasks w p = Some t \<and> owned t"
  by (auto simp: live_set dest: weak_lock_object)

lemma live_subscribers_exist:
  "p \<in> set (live_subscribers w ty) \<Longrightarrow> \<exists>t. tasks w p = Some t \<and> owned t"
  by (simp add: live_subscribers_def live_exists)

lemma with_queues_queues [simp]: "with_queues (queues w) w = w"
proof -
  have "(case (x, map_option message_queue x) of
      (Some t, Some q) \<Rightarrow> Some (t\<lparr>message_queue := q\<rparr>) | (y, _) \<Rightarrow> y) = x" for x :: "Task option"
    by (cases x) simp_all
  then show ?thesis by (simp add: with_queues_def queues_def)
qed

lemma with_queues_simps [simp, world_simps]:
  "broker (with_queues st w) = broker w" "logger (with_queues st w) = logger w"
  "clocks (with_queues st w) = clocks w" "clock_reads (with_queues st w) = clock_reads w"
  "this_thread (with_queues st w) = this_thread w" "next_block (with_queues st w) = next_block w"
  by (simp_all add: with_queues_def)

lemma with_queues_task:
  "tasks (with_queues st w) p =
     map_option (\<lambda>t. t\<lparr>message_queue := (case st p of Some q \<Rightarrow> q | None \<Rightarrow> message_queue t)\<rparr>) (tasks w p)"
  by (simp add: with_queues_def split: option.splits)

lemma queues_with_queues: "dom st = dom (queues w) \<Longrightarrow> queues (with_queues st w) = st"
proof (rule ext)
  fix p
  assume "dom st = dom (queues w)"
  then have "st p = None \<longleftrightarrow> tasks w p = None"
    by (metis domIff option.map_disc_iff queues_def)
  then show "queues (with_queues st w) p = st p"
    by (auto simp: queues_def with_queues_task)
qed

lemma weak_lock_with_queues [simp]: "weak_lock (with_queues st w) = weak_lock w"
  by (auto simp: weak_lock_def fun_eq_iff with_queues_task split: option.splits)

text \<open>Several log entries of the same text.\<close>

abbreviation log_times :: "nat \<Rightarrow> LogLevel \<Rightarrow> string \<Rightarrow> string \<Rightarrow> World \<Rightarrow> World" where
  "log_times n l c x w \<equiv> (world_log l c x ^^ n) w"

lemma log_times_simps [simp, world_simps]:
  "tasks (log_times n l c x w) = tasks w" "broker (log_times n l c x w) = broker w"
  "clocks (log_times n l c x w) = clocks w" "this_thread (log_times n l c x w) = this_thread w"
  "next_block (log_times n l c x w) = next_block w" "weak_lock (log_times n l c x w) = weak_lock w"
  by (induction n) simp_all

lemma world_log_with_queues: "with_queues st (world_log l c x w) = world_log l c x (with_queues st w)"
  by (simp add: with_queues_def world_log_def)

lemma log_times_with_queues: "log_times n l c x (with_queues st w) = with_queues st (log_times n l c x w)"
  by (induction n) (simp_all add: world_log_with_queues)

lemma deliver_message_eq:
  assumes "sender_name w m = Inr s" "tasks w p = Some t"
  shows "deliver_message p m w = res_bind (enqueue (message_queue t) m) (\<lambda>q.
    Inr (put_task p (t\<lparr>message_queue := q\<rparr>) (world_log MSG_TRAFFIC s (msg_str m) w)))"
  using assms by (simp add: deliver_message_def Let_def)

lemma sender_name_put_queue:
  "tasks w p = Some t \<Longrightarrow>
     sender_name (put_task p (t\<lparr>message_queue := q\<rparr>) (world_log l c x w)) m = sender_name w m"
  by (simp add: sender_name_def get_task_def)

lemma publish_loop_eq:
  assumes "sender_name w m = Inr s"
  shows "publish_loop m subs w =
    res_bind (post_to enqueue m (live w subs) (queues w)) (\<lambda>st.
      Inr (filter (is_live w) subs,
           log_times (length (live w subs)) MSG_TRAFFIC s (msg_str m) (with_queues st w)))"
  using assms
proof (induction subs arbitrary: w)
  case Nil
  then show ?case by simp
next
  case (Cons wp subs)
  show ?case
  proof (cases "weak_lock w wp")
    case None
    with Cons show ?thesis by (simp add: is_live_def)
  next
    case (Some p)
    then obtain t where t: "tasks w p = Some t" using weak_lock_object by blast
    show ?thesis
    proof (cases "enqueue (message_queue t) m")
      case (Inl e)
      with Some t Cons.prems show ?thesis by (simp add: deliver_message_eq queues_def)
    next
      case (Inr q)
      define w1 where "w1 = put_task p (t\<lparr>message_queue := q\<rparr>) (world_log MSG_TRAFFIC s (msg_str m) w)"
      have del: "deliver_message p m w = Inr w1"
        using Inr t Cons.prems by (simp add: deliver_message_eq w1_def)
      have wl: "weak_lock w1 = weak_lock w"
        using t weak_lock_put_task [of "world_log MSG_TRAFFIC s (msg_str m) w" p t] by (simp add: w1_def)
      have live1: "live w1 subs = live w subs" "is_live w1 = is_live w"
        using live_cong [OF wl] wl by (simp_all add: is_live_def fun_eq_iff)
      have q1: "queues w1 = (queues w)(p \<mapsto> q)" by (rule ext) (simp add: queues_def w1_def)
      have wq: "with_queues st w1 = world_log MSG_TRAFFIC s (msg_str m) (with_queues st w)"
        if "dom st = dom (queues w1)" for st
      proof -
        have "p \<in> dom st" unfolding that q1 by simp
        then obtain q' where "st p = Some q'" by blast
        then show ?thesis
          using t by (auto simp: w1_def put_task_def world_log_def with_queues_def fun_eq_iff)
      qed
      have "sender_name w1 m = Inr s"
        using sender_name_put_queue [OF t] Cons.prems by (simp add: w1_def)
      from Cons.IH [OF this] have "publish_loop m subs w1 =
        res_bind (post_to enqueue m (live w subs) ((queues w)(p \<mapsto> q))) (\<lambda>st.
          Inr (filter (is_live w) subs, log_times (Suc (length (live w subs))) MSG_TRAFFIC s (msg_str m)
            (with_queues st w)))"
        unfolding live1 q1 [symmetric]
        by (rule trans [OF _ res_bind_cong [OF refl]])
          (simp_all add: wq [OF post_to_dom] funpow_swap1)
      with Some t Inr del show ?thesis
        by (simp add: queues_def [of w p] is_live_def [of w wp] res_bind_assoc)
    qed
  qed
qed

lemma publish_eq:
  assumes "initialized (broker w)" "sender_name w m = Inr s"
  shows "publish m w =
    res_bind (post_to enqueue m (live_subscribers w (get_type m)) (queues w)) (\<lambda>st.
      Inr (set_subscribers (type_index (get_type m))
             (filter (is_live w) (subscriber_lists (broker w) ! type_index (get_type m)))
             (log_times (length (live_subscribers w (get_type m))) MSG_TRAFFIC s (msg_str m)
                (with_queues st w))))"
  using assms by (simp add: publish_def publish_loop_eq live_subscribers_def Let_def res_bind_assoc)

section \<open>The invariant of the broker\<close>

text \<open>
  There is a list for every message type, no list has the same weak pointer twice, and control
  blocks that are not in use yet occur nowhere.
\<close>

definition broker_ok :: "World \<Rightarrow> bool" where
  "broker_ok w \<longleftrightarrow> length (subscriber_lists (broker w)) = MESSAGE_TYPE_COUNT \<and>
     (\<forall>subs \<in> set (subscriber_lists (broker w)). distinct subs \<and>
        (\<forall>wp \<in> set subs. wp_block wp < next_block w)) \<and>
     (\<forall>p t. tasks w p = Some t \<longrightarrow> p \<noteq> nullptr \<and> control_block t < next_block w)"

lemma set_subscribers_simps [simp, world_simps]:
  "tasks (set_subscribers i subs w) = tasks w" "logger (set_subscribers i subs w) = logger w"
  "clocks (set_subscribers i subs w) = clocks w" "clock_reads (set_subscribers i subs w) = clock_reads w"
  "this_thread (set_subscribers i subs w) = this_thread w"
  "next_block (set_subscribers i subs w) = next_block w"
  "initialized (broker (set_subscribers i subs w)) = initialized (broker w)"
  "subscriber_lists (broker (set_subscribers i subs w)) = (subscriber_lists (broker w))[i := subs]"
  by (simp_all add: set_subscribers_def)

lemma weak_lock_set_subscribers [simp]: "weak_lock (set_subscribers i subs w) = weak_lock w"
  by (simp add: weak_lock_def fun_eq_iff)

lemma broker_ok_list:
  assumes "broker_ok w"
  shows "distinct (subscriber_lists (broker w) ! type_index t)"
    and "wp \<in> set (subscriber_lists (broker w) ! type_index t) \<Longrightarrow> wp_block wp < next_block w"
  using assms nth_mem [of "type_index t" "subscriber_lists (broker w)"] by (auto simp: broker_ok_def)

lemma live_subscribers_distinct: "broker_ok w \<Longrightarrow> distinct (live_subscribers w t)"
  by (simp add: live_subscribers_def live_distinct broker_ok_list)

lemma broker_ok_set_subscribers:
  assumes "broker_ok w" "distinct subs" "\<And>wp. wp \<in> set subs \<Longrightarrow> wp_block wp < next_block w"
  shows "broker_ok (set_subscribers i subs w)"
  using assms by (auto simp: broker_ok_def dest!: subsetD [OF set_update_subset_insert])

lemma broker_ok_cong:
  assumes "broker_ok w" "broker w' = broker w" "next_block w' = next_block w"
    and "\<And>p. map_option control_block (tasks w' p) = map_option control_block (tasks w p)"
  shows "broker_ok w'"
proof -
  have "p \<noteq> nullptr \<and> control_block t' < next_block w'" if "tasks w' p = Some t'" for p t'
    using assms(1,3) assms(4) [of p] that by (auto simp: broker_ok_def map_option_case split: option.splits)
  with assms(1-3) show ?thesis by (simp add: broker_ok_def)
qed

lemma broker_ok_with_queues: "broker_ok w \<Longrightarrow> broker_ok (with_queues st w)"
  by (rule broker_ok_cong) (simp_all add: with_queues_task option.map_comp comp_def)

lemma broker_ok_world_log [wf_intros]: "broker_ok w \<Longrightarrow> broker_ok (world_log l c x w)"
  by (rule broker_ok_cong) simp_all

lemma broker_ok_log_times: "broker_ok w \<Longrightarrow> broker_ok (log_times n l c x w)"
  by (rule broker_ok_cong) simp_all

lemma sender_name_ok:
  "get_sender m = nullptr \<or> tasks w (get_sender m) \<noteq> None \<Longrightarrow> \<exists>s. sender_name w m = Inr s"
  by (auto simp: sender_name_def)

section \<open>What a publish does\<close>

text \<open>
  The queue of a task after a publish: the message is inserted, once, exactly if the task is a live
  subscriber.
\<close>

definition delivered :: "nat \<Rightarrow> Msg \<Rightarrow> bool \<Rightarrow> Task \<Rightarrow> Task \<Rightarrow> bool" where
  "delivered n m b t t' \<longleftrightarrow>
     (if b then \<exists>q. t' = t\<lparr>message_queue := q\<rparr> \<and> mq_good n q \<and>
          pending_msgs q = pq_insert m (pending_msgs (message_queue t)) \<and>
          mq_capacity q = mq_capacity (message_queue t)
      else t' = t)"

lemma publish_ok:
  assumes ok: "broker_ok w" and init: "initialized (broker w)" and s: "sender_name w m = Inr s"
    and room: "\<forall>p \<in> set (live_subscribers w (get_type m)). \<forall>t. tasks w p = Some t \<longrightarrow>
      mq_good (Suc n) (message_queue t) \<and> mq_room (message_queue t)"
  obtains w' where "publish m w = Inr w'" "broker_ok w'"
    "\<And>p. rel_option (delivered n m (p \<in> set (live_subscribers w (get_type m)))) (tasks w p) (tasks w' p)"
    "subscriber_lists (broker w') = (subscriber_lists (broker w))[type_index (get_type m) :=
       filter (is_live w) (subscriber_lists (broker w) ! type_index (get_type m))]"
    "initialized (broker w')" "weak_lock w' = weak_lock w" "next_block w' = next_block w"
    "clocks w' = clocks w"
    "logger w' = logger (log_times (length (live_subscribers w (get_type m))) MSG_TRAFFIC s (msg_str m) w)"
proof -
  let ?l = "live_subscribers w (get_type m)" and ?i = "type_index (get_type m)"
  let ?subs = "filter (is_live w) (subscriber_lists (broker w) ! ?i)"
  have "\<forall>p \<in> set ?l. \<exists>q. queues w p = Some q \<and> mq_good (Suc n) q \<and>
      length (pending_msgs q) < mq_capacity q"
    using live_subscribers_exist [of _ w "get_type m"] room
    by (fastforce simp: queues_def mq_room_def)
  from mq.post_to_ok [OF live_subscribers_distinct [OF ok] this]
  obtain st where st: "post_to enqueue m ?l (queues w) = Inr st"
    and post: "\<And>p. p \<in> set ?l \<Longrightarrow> \<exists>q q'. queues w p = Some q \<and> st p = Some q' \<and> mq_good n q' \<and>
      pending_msgs q' = pq_insert m (pending_msgs q) \<and> mq_capacity q' = mq_capacity q"
    by blast
  let ?w1 = "log_times (length ?l) MSG_TRAFFIC s (msg_str m) (with_queues st w)"
  let ?w = "set_subscribers ?i ?subs ?w1"
  have "publish m w = Inr ?w" using publish_eq [OF init s] st by simp
  moreover have "broker_ok ?w"
    by (rule broker_ok_set_subscribers)
      (use broker_ok_list [OF ok] in \<open>auto simp: ok broker_ok_log_times broker_ok_with_queues\<close>)
  moreover have "rel_option (delivered n m (p \<in> set ?l)) (tasks w p) (tasks ?w p)" for p
  proof (cases "p \<in> set ?l")
    case True
    with post obtain q q' where q: "queues w p = Some q" "st p = Some q'" "mq_good n q'"
      "pending_msgs q' = pq_insert m (pending_msgs q)" "mq_capacity q' = mq_capacity q" by blast
    then obtain t where "tasks w p = Some t" "q = message_queue t" by (auto simp: queues_def)
    with True q show ?thesis by (auto simp: with_queues_task delivered_def)
  next
    case False
    then have "st p = queues w p" using post_to_other [OF st] by simp
    with False show ?thesis
      by (cases "tasks w p") (auto simp: with_queues_task queues_def delivered_def)
  qed
  ultimately show ?thesis using that init by (simp add: log_times_with_queues)
qed

lemma live_subscribers_publish:
  assumes "subscriber_lists (broker w') = (subscriber_lists (broker w))[type_index ty :=
       filter (is_live w) (subscriber_lists (broker w) ! type_index ty)]"
    and "weak_lock w' = weak_lock w" "broker_ok w"
  shows "live_subscribers w' ty' = live_subscribers w ty'"
proof -
  have len: "length (subscriber_lists (broker w)) = MESSAGE_TYPE_COUNT"
    using assms(3) by (simp add: broker_ok_def)
  show ?thesis
    unfolding live_subscribers_def live_cong [OF assms(2)] assms(1)
    by (cases "ty' = ty") (simp_all add: len)
qed

text \<open>A task is in the queue of deliveries once its subscription is recorded.\<close>

lemma subscribe_eq:
  assumes "initialized (broker w)"
  shows "subscribe p t w =
    (if p \<in> set (live_subscribers w t) then Inr w
     else Inr (set_subscribers (type_index t)
            (subscriber_lists (broker w) ! type_index t @ [weak_of w p]) w))"
  using assms by (simp add: subscribe_def Let_def live_subscribers_def live_set list_ex_iff)

lemma live_append: "live w (xs @ ys) = live w xs @ live w ys"
  by (simp add: live_def)

lemma subscribe_ok:
  assumes ok: "broker_ok w" and init: "initialized (broker w)" and t: "tasks w p = Some t" "owned t"
  obtains w' where "subscribe p ty w = Inr w'" "broker_ok w'" "tasks w' = tasks w"
    "initialized (broker w')" "logger w' = logger w" "clocks w' = clocks w"
    "clock_reads w' = clock_reads w" "next_block w' = next_block w" "this_thread w' = this_thread w"
    "live_subscribers w' ty = (if p \<in> set (live_subscribers w ty) then live_subscribers w ty
       else live_subscribers w ty @ [p])"
    "\<And>ty'. ty' \<noteq> ty \<Longrightarrow> live_subscribers w' ty' = live_subscribers w ty'"
proof (cases "p \<in> set (live_subscribers w ty)")
  case True
  with assms that [of w] show ?thesis by (simp add: subscribe_eq)
next
  case False
  let ?subs = "subscriber_lists (broker w) ! type_index ty @ [weak_of w p]"
  let ?w = "set_subscribers (type_index ty) ?subs w"
  have len: "length (subscriber_lists (broker w)) = MESSAGE_TYPE_COUNT"
    using ok by (simp add: broker_ok_def)
  have lock: "weak_lock w (weak_of w p) = Some p" by (rule weak_lock_weak_of [OF t])
  with False have new: "weak_of w p \<notin> set (subscriber_lists (broker w) ! type_index ty)"
    by (auto simp: live_subscribers_def live_set)
  have "control_block t < next_block w" using ok t by (simp add: broker_ok_def)
  then have "wp_block (weak_of w p) < next_block w" by (simp add: weak_of_def t)
  then have "broker_ok ?w"
    using broker_ok_list [OF ok] new by (intro broker_ok_set_subscribers [OF ok]) auto
  moreover have "live_subscribers ?w ty = live_subscribers w ty @ [p]"
    using lock len live_cong [of ?w w] by (simp add: live_subscribers_def live_append)
  moreover have "live_subscribers ?w ty' = live_subscribers w ty'" if "ty' \<noteq> ty" for ty'
    using that live_cong [of ?w w] by (simp add: live_subscribers_def)
  ultimately show ?thesis
    using that [of ?w] False init by (simp add: subscribe_eq)
qed

lemma broker_ok_make_shared:
  assumes "broker_ok w" "p \<noteq> nullptr" "tasks w p = None"
  shows "broker_ok (make_shared p t w)"
  using assms by (fastforce simp: broker_ok_def make_shared_def less_SucI)

lemma broker_ok_initial: "broker_ok (Broker_initialize n (World_new clks))"
  by (auto simp: broker_ok_def Broker_initialize_def World_new_def Broker_new_def)

lemma live_subscribers_initial: "live_subscribers (Broker_initialize n (World_new clks)) ty = []"
  by (simp add: live_subscribers_def Broker_initialize_def World_new_def Broker_new_def)

text \<open>A new object does not revive a weak pointer, not even at a reused address.\<close>

lemma live_make_shared:
  assumes "broker_ok w" "tasks w p = None"
  shows "live_subscribers (make_shared p t w) ty = live_subscribers w ty"
proof -
  have "weak_lock (make_shared p t w) wp = weak_lock w wp"
    if "wp \<in> set (subscriber_lists (broker w) ! type_index ty)" for wp
    using broker_ok_list(2) [OF assms(1) that] assms(2)
    by (auto simp: weak_lock_def make_shared_def split: option.splits)
  then have "filter (is_live (make_shared p t w)) (subscriber_lists (broker w) ! type_index ty) =
      filter (is_live w) (subscriber_lists (broker w) ! type_index ty)"
    by (intro filter_cong) (simp_all add: is_live_def)
  then show ?thesis by (simp add: live_subscribers_def live_def make_shared_def)
qed

section \<open>Properties of the broker\<close>

text \<open>A system with one task at address 8 that was not started, for the examples.\<close>

definition one_task_system :: "World \<Rightarrow> Task \<Rightarrow> bool" where
  "one_task_system w t \<longleftrightarrow> broker_ok w \<and> initialized (broker w) \<and> tasks w = [8 \<mapsto> t] \<and> owned t \<and>
     \<not> running t \<and> queue_thread t = NoThread \<and> periodic_thread t = NoThread \<and>
     periodic_task_interval_ms t = 0 \<and> derived_part t = UserTask \<and> control_block t = 0 \<and>
     (\<forall>n < 2 ^ 32. mq_good n (message_queue t)) \<and> pending_msgs (message_queue t) = [] \<and>
     mq_capacity (message_queue t) = 1 \<and> \<not> mq_shutdown (message_queue t) \<and>
     clocks w = (\<lambda>_. example_clock) \<and> (\<forall>ty. live_subscribers w ty = [])"

lemma example_world: "\<exists>w t. one_task_system w t"
proof -
  let ?w0 = "Broker_initialize 16 (World_new (\<lambda>_. example_clock))"
  have "pool_area 4096 (of_nat node_size) 1" by (simp add: pool_area_def ptr_aligned_def node_size_eq)
  then obtain q where q: "\<And>n. n < 2 ^ 32 \<Longrightarrow> mq_good n q" "pending_msgs q = []" "mq_queue q = []"
    "mq_capacity q = unat (1 :: size_t)" "mq_shutdown q = False"
    using Task_new_ok by metis
  let ?t = "\<lparr>name = ''A'', current_state = NOT_STARTED, running = False, queue_thread = NoThread,
      periodic_thread = NoThread, periodic_task_interval_ms = 0, message_queue = q,
      derived_part = UserTask, control_block = 0, owned = True\<rparr>"
  have empty: "tasks ?w0 8 = None" by (simp add: Broker_initialize_def World_new_def)
  have "broker_ok (make_shared 8 ?t ?w0)"
    by (rule broker_ok_make_shared [OF broker_ok_initial _ empty]) simp
  moreover have "\<forall>ty. live_subscribers (make_shared 8 ?t ?w0) ty = []"
    using live_make_shared [OF broker_ok_initial empty] by (simp add: live_subscribers_initial)
  ultimately have "one_task_system (make_shared 8 ?t ?w0) ?t"
    using q by (simp add: one_task_system_def make_shared_def Broker_initialize_def World_new_def)
  then show ?thesis by blast
qed

lemma one_task_room: "one_task_system w t \<Longrightarrow> mq_room (message_queue t)"
  by (simp add: one_task_system_def mq_room_def del: length_pending_msgs)

lemma example_subscribed:
  obtains w t where "broker_ok w" "initialized (broker w)" "tasks w = [8 \<mapsto> t]"
    "\<forall>n < 2 ^ 32. mq_good n (message_queue t)" "pending_msgs (message_queue t) = []"
    "mq_room (message_queue t)" "mq_capacity (message_queue t) = 1"
    "live_subscribers w (get_type (example_msg (StateMsg 2))) = [8]"
proof -
  obtain w0 t where sys: "one_task_system w0 t" using example_world by blast
  then have w0: "broker_ok w0" "initialized (broker w0)" "tasks w0 = [8 \<mapsto> t]" "owned t"
    "\<forall>n < 2 ^ 32. mq_good n (message_queue t)" "pending_msgs (message_queue t) = []"
    "mq_room (message_queue t)" "mq_capacity (message_queue t) = 1"
    "live_subscribers w0 Type_StateMsg = []"
    using one_task_room [OF sys] by (simp_all add: one_task_system_def)
  have "tasks w0 8 = Some t" using w0(3) by simp
  then obtain w where "broker_ok w" "initialized (broker w)" "tasks w = tasks w0"
    "live_subscribers w Type_StateMsg = [8]"
    using subscribe_ok [OF w0(1,2) _ w0(4), of 8 Type_StateMsg] w0(9)
    by (metis append_Nil empty_iff list.set(1))
  with that w0 show ?thesis by (simp add: example_msg_def get_type_def message_types_def)
qed

text \<open>C7: A publish reaches exactly the live subscribers: when the queues of the subscribers that
  still exist have room, \<open>publish\<close> succeeds, inserts the message once into the queue of each of
  them, at its place in the priority order, changes nothing else of any task, and leaves in the
  list of that message type just the subscribers that exist.\<close>

theorem publish_reaches_live_subscribers:
  assumes "broker_ok w" "initialized (broker w)"
    and "get_sender m = nullptr \<or> tasks w (get_sender m) \<noteq> None"
    and "\<forall>p \<in> set (live_subscribers w (get_type m)). \<forall>t. tasks w p = Some t \<longrightarrow>
      mq_good (Suc n) (message_queue t) \<and> mq_room (message_queue t)"
  shows "\<exists>w'. publish m w = Inr w' \<and> broker_ok w' \<and>
    (\<forall>p. rel_option (delivered n m (p \<in> set (live_subscribers w (get_type m)))) (tasks w p) (tasks w' p)) \<and>
    subscriber_lists (broker w') = (subscriber_lists (broker w))[type_index (get_type m) :=
       filter (is_live w) (subscriber_lists (broker w) ! type_index (get_type m))]"
proof -
  obtain s where s: "sender_name w m = Inr s" using sender_name_ok [OF assms(3)] by blast
  from publish_ok [OF assms(1,2) s assms(4)] show ?thesis by metis
qed

theorem publish_reaches_live_subscribers_witness:
  "\<exists>w w' t'. publish (example_msg (StateMsg 2)) w = Inr w' \<and> tasks w' 8 = Some t' \<and>
     pending_msgs (message_queue t') = [example_msg (StateMsg 2)]"
proof -
  let ?m = "example_msg (StateMsg 2)"
  obtain w t where w: "broker_ok w" "initialized (broker w)" "tasks w = [8 \<mapsto> t]"
    "\<forall>n < 2 ^ 32. mq_good n (message_queue t)" "pending_msgs (message_queue t) = []"
    "mq_room (message_queue t)" "live_subscribers w (get_type ?m) = [8]"
    using example_subscribed by blast
  have pre: "get_sender ?m = nullptr \<or> tasks w (get_sender ?m) \<noteq> None"
    "\<forall>p \<in> set (live_subscribers w (get_type ?m)). \<forall>t. tasks w p = Some t \<longrightarrow>
      mq_good (Suc 0) (message_queue t) \<and> mq_room (message_queue t)"
    using w by (simp_all add: example_msg_def get_sender_def)
  from publish_reaches_live_subscribers [OF w(1,2) pre] obtain w' where w': "publish ?m w = Inr w'"
    "\<And>p. rel_option (delivered 0 ?m (p \<in> set (live_subscribers w (get_type ?m)))) (tasks w p) (tasks w' p)"
    by blast
  from w'(2) [of 8] w obtain t' where "tasks w' 8 = Some t'" "pending_msgs (message_queue t') = [?m]"
    by (auto simp: delivered_def pq_insert_def option_rel_Some1)
  with w'(1) show ?thesis by blast
qed

text \<open>C26: A full queue stops the whole program: if one live subscriber of the type has no room,
  \<open>publish\<close> ends in the failed assertion of the pool, whatever the other subscribers are.\<close>

theorem publish_full_queue_aborts:
  assumes "broker_ok w" "initialized (broker w)"
    and "get_sender m = nullptr \<or> tasks w (get_sender m) \<noteq> None"
    and "\<forall>p \<in> set (live_subscribers w (get_type m)). \<forall>t. tasks w p = Some t \<longrightarrow>
      mq_good 1 (message_queue t)"
    and "p \<in> set (live_subscribers w (get_type m))" "tasks w p = Some t" "\<not> mq_room (message_queue t)"
  shows "publish m w = Inl (AssertFailed ''Memory pool out of memory!'')"
proof -
  obtain s where s: "sender_name w m = Inr s" using sender_name_ok [OF assms(3)] by blast
  have "\<forall>p \<in> set (live_subscribers w (get_type m)). \<exists>q. queues w p = Some q \<and> mq_good (Suc 0) q"
    using live_subscribers_exist [of _ w "get_type m"] assms(4) by (fastforce simp: queues_def)
  moreover have "queues w p = Some (message_queue t)" using assms(6) by (simp add: queues_def)
  ultimately have "post_to enqueue m (live_subscribers w (get_type m)) (queues w) =
      Inl (AssertFailed ''Memory pool out of memory!'')"
    using mq.post_to_full [OF live_subscribers_distinct [OF assms(1)]] assms(5,7)
    unfolding mq_room_def by blast
  then show ?thesis by (simp add: publish_eq [OF assms(2) s])
qed

theorem publish_full_queue_aborts_witness:
  "\<exists>w w'. publish (example_msg (StateMsg 2)) w = Inr w' \<and>
     publish (example_msg (StateMsg 2)) w' = Inl (AssertFailed ''Memory pool out of memory!'')"
proof -
  let ?m = "example_msg (StateMsg 2)"
  obtain w t where w: "broker_ok w" "initialized (broker w)" "tasks w = [8 \<mapsto> t]"
    "\<forall>n < 2 ^ 32. mq_good n (message_queue t)" "pending_msgs (message_queue t) = []"
    "mq_room (message_queue t)" "mq_capacity (message_queue t) = 1"
    "live_subscribers w (get_type ?m) = [8]"
    using example_subscribed by blast
  obtain s where s: "sender_name w ?m = Inr s"
    using sender_name_ok [of ?m w] w(3) by (auto simp: example_msg_def get_sender_def)
  have "\<forall>p \<in> set (live_subscribers w (get_type ?m)). \<forall>t. tasks w p = Some t \<longrightarrow>
      mq_good (Suc 1) (message_queue t) \<and> mq_room (message_queue t)"
    using w by simp
  from publish_ok [OF w(1,2) s this] obtain w' where w': "publish ?m w = Inr w'" "broker_ok w'"
    "\<And>p. rel_option (delivered 1 ?m (p \<in> set (live_subscribers w (get_type ?m)))) (tasks w p) (tasks w' p)"
    "initialized (broker w')" "weak_lock w' = weak_lock w"
    "subscriber_lists (broker w') = (subscriber_lists (broker w))[type_index (get_type ?m) :=
       filter (is_live w) (subscriber_lists (broker w) ! type_index (get_type ?m))]"
    by blast
  note live' = live_subscribers_publish [OF w'(6,5) w(1)]
  from w'(3) [of 8] w obtain q where q: "tasks w' 8 = Some (t\<lparr>message_queue := q\<rparr>)" "mq_good 1 q"
    "pending_msgs q = [?m]" "mq_capacity q = 1"
    by (auto simp: delivered_def pq_insert_def option_rel_Some1)
  then have "\<not> mq_room q" by (simp add: mq_room_def del: length_pending_msgs)
  have "publish ?m w' = Inl (AssertFailed ''Memory pool out of memory!'')"
    by (rule publish_full_queue_aborts [OF w'(2,4), where p = 8 and t = "t\<lparr>message_queue := q\<rparr>"])
      (use q \<open>\<not> mq_room q\<close> w live' in \<open>simp_all add: example_msg_def get_sender_def\<close>)
  with w'(1) show ?thesis by blast
qed

text \<open>Subscribing is idempotent: a task that exists is a live subscriber of the type
  afterwards, exactly once; subscribing again changes nothing, and no other subscription and no
  task is affected.\<close>

lemma subscribe_once:
  assumes "broker_ok w" "initialized (broker w)" "tasks w p = Some t" "owned t"
  shows "\<exists>w'. subscribe p ty w = Inr w' \<and> subscribe p ty w' = Inr w' \<and> broker_ok w' \<and>
    tasks w' = tasks w \<and> distinct (live_subscribers w' ty) \<and>
    (\<forall>ty'. set (live_subscribers w' ty') =
       (if ty' = ty then insert p (set (live_subscribers w ty')) else set (live_subscribers w ty')))"
proof -
  obtain w' where w': "subscribe p ty w = Inr w'" "broker_ok w'" "tasks w' = tasks w"
    "initialized (broker w')"
    "live_subscribers w' ty = (if p \<in> set (live_subscribers w ty) then live_subscribers w ty
       else live_subscribers w ty @ [p])"
    "\<And>ty'. ty' \<noteq> ty \<Longrightarrow> live_subscribers w' ty' = live_subscribers w ty'"
    using subscribe_ok [OF assms] by metis
  have "p \<in> set (live_subscribers w' ty)" using w'(5) by simp
  then have "subscribe p ty w' = Inr w'" using subscribe_eq [OF w'(4)] by simp
  moreover have "distinct (live_subscribers w' ty)" by (rule live_subscribers_distinct [OF w'(2)])
  moreover have "\<forall>ty'. set (live_subscribers w' ty') =
       (if ty' = ty then insert p (set (live_subscribers w ty')) else set (live_subscribers w ty'))"
    using w'(5,6) by auto
  ultimately show ?thesis using w'(1-3) by blast
qed

text \<open>Before \<open>Broker::initialize\<close> every publish and every subscription ends in the failed
  assertion, and afterwards neither of the two assertions of the broker can fail: a publish then
  fails only where posting the message to the queues of the live subscribers fails.\<close>

lemma broker_initialize_guard:
  "(\<not> initialized (broker w) \<longrightarrow>
      publish m w = Inl (AssertFailed ''Broker not initialized!'') \<and>
      subscribe p ty w = Inl (AssertFailed ''Broker not initialized!'')) \<and>
   (\<exists>w'. subscribe p ty (Broker_initialize k w) = Inr w') \<and>
   (get_sender m = nullptr \<longrightarrow>
      (\<forall>e. publish m (Broker_initialize k w) = Inl e \<longleftrightarrow>
         post_to enqueue m (live_subscribers w (get_type m)) (queues w) = Inl e))"
proof (intro conjI impI allI)
  let ?w = "Broker_initialize k w"
  have init: "initialized (broker ?w)" by (simp add: Broker_initialize_def)
  show "\<exists>w'. subscribe p ty ?w = Inr w'" using subscribe_eq [OF init] by auto
  fix e
  assume "get_sender m = nullptr"
  then have s: "sender_name ?w m = Inr ''UnknownSender''" by (simp add: sender_name_def)
  have wl: "weak_lock ?w = weak_lock w"
    by (simp add: weak_lock_def fun_eq_iff Broker_initialize_def)
  have "live_subscribers ?w ty = live_subscribers w ty" for ty
    using live_cong [OF wl] by (simp add: live_subscribers_def Broker_initialize_def)
  moreover have "queues ?w = queues w" by (simp add: queues_def fun_eq_iff Broker_initialize_def)
  ultimately show "publish m ?w = Inl e \<longleftrightarrow>
      post_to enqueue m (live_subscribers w (get_type m)) (queues w) = Inl e"
    by (simp add: publish_eq [OF init s] res_bind_eq_Inl)
qed (simp_all add: publish_def subscribe_def)

text \<open>Weak pointers keep their meaning when memory is reused: a new object at the address of
  a destroyed subscriber does not inherit its subscriptions.\<close>

lemma reused_address_not_subscribed:
  assumes "broker_ok w" "tasks w p = None" "p \<noteq> nullptr"
  shows "broker_ok (make_shared p t w) \<and> p \<notin> set (live_subscribers (make_shared p t w) ty)"
proof -
  have "p \<notin> set (live_subscribers w ty)" using live_subscribers_exist [of p w ty] assms(2) by auto
  with broker_ok_make_shared [OF assms(1,3,2)] live_make_shared [OF assms(1,2)] show ?thesis by simp
qed

end
