(* ===== verification/Tasks.thy ===== *)
theory Tasks
  imports Broker
begin

text \<open>
  The base class \<open>Task\<close> of \<^verbatim>\<open>task.h\<close> and \<^verbatim>\<open>task.cpp\<close>. Its virtual functions are arguments of the
  operations that call them: \<open>process\<close> and \<open>periodic\<close> for \<open>process_message\<close> and
  \<open>periodic_task_process\<close>, \<open>transition\<close> for \<open>transition_to_state\<close>. The two thread functions \<open>run\<close>
  and \<open>run_periodic\<close> are given by their steps, between which other threads may run.
\<close>

section \<open>Publishing and subscribing\<close>

definition safe_subscribe :: "ptr \<Rightarrow> Type \<Rightarrow> World \<Rightarrow> World result" where
  "safe_subscribe this ty w =
     res_bind (shared_from_this w this) (\<lambda>self.
     res_bind (assert_that (self \<noteq> nullptr)
       ''Task must be created using Task::create() to use safe_subscribe.'') (\<lambda>_.
     subscribe self ty w))"

definition safe_publish :: "ptr \<Rightarrow> Msg \<Rightarrow> World \<Rightarrow> World result" where
  "safe_publish this m w =
     res_bind (shared_from_this w this) (\<lambda>self.
     res_bind (assert_that (self \<noteq> nullptr)
       ''Task must be created using Task::create() to use safe_publish.'') (\<lambda>_.
     publish m w))"

text \<open>\<open>Task::transition_to_state\<close>\<close>

definition Task_transition_to_state :: "ptr \<Rightarrow> TaskState \<Rightarrow> World \<Rightarrow> World result" where
  "Task_transition_to_state this new_state w =
     res_bind (get_task w this) (\<lambda>t.
     let w1 = put_task this (t\<lparr>current_state := new_state\<rparr>) w;
         w2 = world_log INFO (name t) (''transitioning to '' @ task_state_to_string new_state) w1
     in res_bind (Msg_new this (StateAckMsg (byte_of_state new_state))) (\<lambda>m.
        safe_publish this m w2))"

text \<open>\<open>Task::handle_heartbeat\<close>; the argument is the \<open>HeartbeatMsg\<close>.\<close>

definition handle_heartbeat :: "ptr \<Rightarrow> MessageVariant \<Rightarrow> World \<Rightarrow> World result" where
  "handle_heartbeat this heartbeat_msg w =
     (let (now, w1) = steady_clock_now w
      in res_bind (Msg_new this (HeartbeatAckMsg (hb_unique_id heartbeat_msg)
             (hb_timestamp heartbeat_msg) (word_of_int (duration_ms now)))) (\<lambda>m.
         safe_publish this m w1))"

section \<open>Starting and stopping\<close>

definition set_periodic_task_interval :: "int \<Rightarrow> Task \<Rightarrow> Task" where
  "set_periodic_task_interval interval_ms t = t\<lparr>periodic_task_interval_ms := interval_ms\<rparr>"

text \<open>Assigning to a \<^verbatim>\<open>std::thread\<close> that is joinable calls \<^verbatim>\<open>std::terminate\<close>.\<close>

definition start :: "ptr \<Rightarrow> World \<Rightarrow> World result" where
  "start this w =
     res_bind (get_task w this) (\<lambda>t.
     if running t then Inr w
     else if queue_thread t \<noteq> NoThread then Inl (Terminate ''assignment to a joinable thread'')
     else if periodic_task_interval_ms t > 0
     then (if periodic_thread t \<noteq> NoThread then Inl (Terminate ''assignment to a joinable thread'')
           else Inr (put_task this (t\<lparr>running := True, queue_thread := AtTest, periodic_thread := AtTest\<rparr>) w))
     else Inr (put_task this (t\<lparr>running := True, queue_thread := AtTest\<rparr>) w))"

text \<open>
  \<open>stop\<close> up to the joins, the joins, and the whole: \<open>others\<close> is what the other threads do while the
  caller waits in \<open>join\<close>, which returns when the joinable threads have ended.
\<close>

definition stop_request ::
  "(ptr \<Rightarrow> TaskState \<Rightarrow> World \<Rightarrow> World result) \<Rightarrow> ptr \<Rightarrow> World \<Rightarrow> World result" where
  "stop_request transition this w =
     res_bind (get_task w this) (\<lambda>t.
     res_bind (transition this STOPPED (put_task this (t\<lparr>running := False\<rparr>) w)) (\<lambda>w1.
     res_bind (get_task w1 this) (\<lambda>t1.
     Inr (put_task this (t1\<lparr>message_queue := notify_shutdown (message_queue t1)\<rparr>) w1))))"

definition stop_join :: "ptr \<Rightarrow> World \<Rightarrow> World wait result" where
  "stop_join this w =
     res_bind (get_task w this) (\<lambda>t.
     if queue_thread t \<in> {NoThread, AtEnd} \<and> periodic_thread t \<in> {NoThread, AtEnd}
     then Inr (Returns (put_task this (t\<lparr>queue_thread := NoThread, periodic_thread := NoThread\<rparr>) w))
     else Inr Blocks)"

definition stop ::
  "(ptr \<Rightarrow> TaskState \<Rightarrow> World \<Rightarrow> World result) \<Rightarrow> (World \<Rightarrow> World result) \<Rightarrow> ptr \<Rightarrow> World \<Rightarrow>
   World wait result" where
  "stop transition others this w =
     res_bind (get_task w this) (\<lambda>t.
     if \<not> running t then Inr (Returns w)
     else res_bind (stop_request transition this w) (\<lambda>w1.
          res_bind (others w1) (\<lambda>w2. stop_join this w2)))"

text \<open>An exception that leaves a \<^verbatim>\<open>noexcept\<close> function, as every destructor is, ends the program.\<close>

definition noexcept_call :: "'a result \<Rightarrow> 'a result" where
  "noexcept_call r =
     (case r of
        Inl BadWeakPtr \<Rightarrow> Inl (Terminate ''exception leaves a noexcept function'')
      | Inl (RuntimeError msg) \<Rightarrow> Inl (Terminate ''exception leaves a noexcept function'')
      | _ \<Rightarrow> r)"

lemma noexcept_call_simps [simp]:
  "noexcept_call (Inr x) = Inr x"
  "noexcept_call (Inl BadWeakPtr) = Inl (Terminate ''exception leaves a noexcept function'')"
  "noexcept_call r = Inr x \<longleftrightarrow> r = Inr x"
  by (auto simp: noexcept_call_def split: sum.splits error.splits)

text \<open>
  The destructor, run when the last shared pointer is gone: the virtual call in \<open>stop\<close> reaches the
  base class, then the thread members, which must not be joinable, and the queue are destroyed.
\<close>

definition Task_destroy :: "(World \<Rightarrow> World result) \<Rightarrow> ptr \<Rightarrow> World \<Rightarrow> World wait result" where
  "Task_destroy others this w =
     res_bind (get_task w this) (\<lambda>t.
     res_bind (noexcept_call
       (stop Task_transition_to_state others this (put_task this (t\<lparr>owned := False\<rparr>) w))) (\<lambda>r.
     case r of
       Blocks \<Rightarrow> Inr Blocks
     | Returns w1 \<Rightarrow>
         res_bind (get_task w1 this) (\<lambda>t1.
         if queue_thread t1 \<noteq> NoThread \<or> periodic_thread t1 \<noteq> NoThread
         then Inl (Terminate ''destruction of a joinable thread'')
         else res_bind (MessageQueue_destroy (message_queue t1)) (\<lambda>_.
              Inr (Returns (w1\<lparr>tasks := (tasks w1)(this := None)\<rparr>))))))"

section \<open>The threads of a task\<close>

definition set_queue_thread :: "ptr \<Rightarrow> thread \<Rightarrow> World \<Rightarrow> World result" where
  "set_queue_thread this pc w =
     res_bind (get_task w this) (\<lambda>t. Inr (put_task this (t\<lparr>queue_thread := pc\<rparr>) w))"

text \<open>One step of \<open>Task::run\<close>.\<close>

definition run_step ::
  "(ptr \<Rightarrow> Msg \<Rightarrow> World \<Rightarrow> World result) \<Rightarrow> ptr \<Rightarrow> World \<Rightarrow> World wait result" where
  "run_step process this w =
     res_bind (get_task w this) (\<lambda>t.
     case queue_thread t of
       AtTest \<Rightarrow>
         Inr (Returns (put_task this (t\<lparr>queue_thread := if running t then AtDequeue else AtEnd\<rparr>) w))
     | AtDequeue \<Rightarrow>
         res_bind (dequeue (message_queue t)) (\<lambda>r.
         case r of
           Blocks \<Rightarrow> Inr Blocks
         | Returns (None, q) \<Rightarrow>
             Inr (Returns (put_task this (t\<lparr>message_queue := q, queue_thread := AtTest\<rparr>) w))
         | Returns (Some m, q) \<Rightarrow>
             Inr (Returns (put_task this (t\<lparr>message_queue := q, queue_thread := AtProcess m\<rparr>) w)))
     | AtProcess m \<Rightarrow>
         res_bind (process this m w) (\<lambda>w1.
         res_bind (set_queue_thread this AtTest w1) (\<lambda>w2. Inr (Returns w2)))
     | _ \<Rightarrow> Inr Blocks)"

text \<open>One step of \<open>Task::run_periodic\<close>; a sleeping thread polls the clock.\<close>

definition run_periodic_step ::
  "(ptr \<Rightarrow> World \<Rightarrow> World result) \<Rightarrow> ptr \<Rightarrow> World \<Rightarrow> World wait result" where
  "run_periodic_step periodic this w =
     res_bind (get_task w this) (\<lambda>t.
     case periodic_thread t of
       AtTest \<Rightarrow>
         Inr (Returns (put_task this (t\<lparr>periodic_thread := if running t then AtPeriodic else AtEnd\<rparr>) w))
     | AtPeriodic \<Rightarrow>
         res_bind (periodic this w) (\<lambda>w1.
         let (now, w2) = steady_clock_now w1
         in res_bind (get_task w2 this) (\<lambda>t2.
            Inr (Returns (put_task this (t2\<lparr>periodic_thread :=
              AtSleep (now + 1000000 * periodic_task_interval_ms t2)\<rparr>) w2))))
     | AtSleep next_time \<Rightarrow>
         let (now, w1) = steady_clock_now w
         in Inr (Returns (if next_time \<le> now then put_task this (t\<lparr>periodic_thread := AtTest\<rparr>) w1 else w1))
     | _ \<Rightarrow> Inr Blocks)"

text \<open>Several steps of the queue thread while no other thread runs.\<close>

fun run_steps ::
  "(ptr \<Rightarrow> Msg \<Rightarrow> World \<Rightarrow> World result) \<Rightarrow> ptr \<Rightarrow> nat \<Rightarrow> World \<Rightarrow> World wait result" where
  "run_steps process this 0 w = Inr (Returns w)"
| "run_steps process this (Suc n) w =
     res_bind (run_step process this w) (\<lambda>r.
     case r of Blocks \<Rightarrow> Inr Blocks | Returns w1 \<Rightarrow> run_steps process this n w1)"

section \<open>Transitions\<close>

lemma shared_from_this_simps [simp]:
  "tasks w p = Some t \<Longrightarrow> owned t \<Longrightarrow> shared_from_this w p = Inr p"
  "tasks w p = Some t \<Longrightarrow> \<not> owned t \<Longrightarrow> shared_from_this w p = Inl BadWeakPtr"
  by (simp_all add: shared_from_this_def)

lemma safe_publish_owned:
  "tasks w p = Some t \<Longrightarrow> owned t \<Longrightarrow> p \<noteq> nullptr \<Longrightarrow> safe_publish p m w = publish m w"
  by (simp add: safe_publish_def)

lemma safe_subscribe_owned:
  "tasks w p = Some t \<Longrightarrow> owned t \<Longrightarrow> p \<noteq> nullptr \<Longrightarrow> safe_subscribe p ty w = subscribe p ty w"
  by (simp add: safe_subscribe_def)

text \<open>The message a task sends when it changes its state.\<close>

definition ack_msg :: "ptr \<Rightarrow> TaskState \<Rightarrow> Msg" where
  "ack_msg p s = \<lparr>sending_task = p, msg_data = StateAckMsg (byte_of_state s),
     msg_priority = 99, msg_type = Type_StateAckMsg\<rparr>"

lemma Msg_new_ack [simp]: "Msg_new p (StateAckMsg (byte_of_state s)) = Inr (ack_msg p s)"
  by (simp add: ack_msg_def message_priorities_def message_types_def)

declare Msg_new_eq [simp del]

lemma ack_msg_simps [simp]:
  "get_type (ack_msg p s) = Type_StateAckMsg" "get_sender (ack_msg p s) = p"
  "msg_data (ack_msg p s) = StateAckMsg (byte_of_state s)" "msg_priority (ack_msg p s) = 99"
  "msg_type (ack_msg p s) = Type_StateAckMsg"
  by (simp_all add: ack_msg_def get_type_def get_sender_def)

text \<open>Changes of a task that leave its ownership and its queue alone.\<close>

lemma live_subscribers_put_task:
  assumes "tasks w p = Some t" "owned t' = owned t" "control_block t' = control_block t"
  shows "live_subscribers (put_task p t' w) ty = live_subscribers w ty"
  using live_cong [OF weak_lock_put_task [OF assms]] by (simp add: live_subscribers_def)

lemma live_subscribers_world_log [simp]:
  "live_subscribers (world_log l c x w) ty = live_subscribers w ty"
  using live_cong [of "world_log l c x w" w] by (simp add: live_subscribers_def)

lemma broker_ok_put_task:
  assumes "broker_ok w" "tasks w p = Some t" "control_block t' = control_block t"
  shows "broker_ok (put_task p t' w)"
  by (rule broker_ok_cong [OF assms(1)]) (use assms in simp_all)

lemma broker_ok_nullptr: "broker_ok w \<Longrightarrow> tasks w p = Some t \<Longrightarrow> p \<noteq> nullptr"
  by (simp add: broker_ok_def)

text \<open>There is room for one more message in the queues of all live subscribers of a type.\<close>

definition subscribers_ready :: "nat \<Rightarrow> Type \<Rightarrow> World \<Rightarrow> bool" where
  "subscribers_ready n ty w \<longleftrightarrow>
     (\<forall>p \<in> set (live_subscribers w ty). \<forall>t. tasks w p = Some t \<longrightarrow>
        mq_good (Suc n) (message_queue t) \<and> mq_room (message_queue t))"

text \<open>
  Publishing after a change of the task's own fields: \<open>w2\<close> is \<open>w\<close> with the task \<open>t\<close> at \<open>p\<close>
  replaced by \<open>t'\<close>, and with whatever was logged in between.
\<close>

lemma own_publish_ok:
  assumes ok: "broker_ok w" and init: "initialized (broker w)" and t: "tasks w p = Some t" "owned t"
    and t': "owned t' = owned t" "control_block t' = control_block t" "message_queue t' = message_queue t"
    and w2: "tasks w2 = (tasks w)(p \<mapsto> t')" "broker w2 = broker w" "next_block w2 = next_block w"
    and m: "get_sender m = p" and ready: "subscribers_ready n (get_type m) w"
  obtains w' where "safe_publish p m w2 = Inr w'" "broker_ok w'" "initialized (broker w')"
    "\<And>a. rel_option (delivered n m (a \<in> set (live_subscribers w (get_type m)))) (tasks w2 a) (tasks w' a)"
    "\<And>ty. live_subscribers w' ty = live_subscribers w ty" "next_block w' = next_block w"
    "clocks w' = clocks w2"
proof -
  have wl: "weak_lock w2 = weak_lock w"
    using t t' by (auto simp: weak_lock_def fun_eq_iff w2 split: option.splits)
  have live: "live_subscribers w2 ty = live_subscribers w ty" for ty
    using live_cong [OF wl] by (simp add: live_subscribers_def w2)
  have ok2: "broker_ok w2"
    by (rule broker_ok_cong [OF ok w2(2,3)]) (use t t' w2 in auto)
  have init2: "initialized (broker w2)" using init w2 by simp
  have "p \<noteq> nullptr" by (rule broker_ok_nullptr [OF ok t(1)])
  then have eq: "safe_publish p m w2 = publish m w2"
    using t t' by (intro safe_publish_owned [of _ _ t']) (simp_all add: w2)
  obtain nm where nm: "sender_name w2 m = Inr nm"
    using sender_name_ok [of m w2] by (auto simp: m w2)
  have "\<forall>a \<in> set (live_subscribers w2 (get_type m)). \<forall>u. tasks w2 a = Some u \<longrightarrow>
      mq_good (Suc n) (message_queue u) \<and> mq_room (message_queue u)"
    using ready t(1) t'(3) unfolding live w2(1) by (auto simp: subscribers_ready_def)
  from publish_ok [OF ok2 init2 nm this] obtain w' where
    w': "publish m w2 = Inr w'" "broker_ok w'" "initialized (broker w')"
      "weak_lock w' = weak_lock w2" "next_block w' = next_block w2" "clocks w' = clocks w2"
      "\<And>a. rel_option (delivered n m (a \<in> set (live_subscribers w2 (get_type m)))) (tasks w2 a) (tasks w' a)"
      "subscriber_lists (broker w') = (subscriber_lists (broker w2))[type_index (get_type m) :=
       filter (is_live w2) (subscriber_lists (broker w2) ! type_index (get_type m))]"
    by metis
  have "live_subscribers w' ty = live_subscribers w ty" for ty
    using live_subscribers_publish [OF w'(8,4) ok2] live by simp
  with that eq w'(1-3) w'(7) live w'(5,6) w2(3) show ?thesis by simp
qed

lemma transition_ok:
  assumes "broker_ok w" "initialized (broker w)" "tasks w p = Some t" "owned t"
    and "subscribers_ready n Type_StateAckMsg w"
  obtains w' where "Task_transition_to_state p s w = Inr w'" "broker_ok w'" "initialized (broker w')"
    "\<And>a. rel_option (delivered n (ack_msg p s) (a \<in> set (live_subscribers w Type_StateAckMsg)))
       (((tasks w)(p \<mapsto> t\<lparr>current_state := s\<rparr>)) a) (tasks w' a)"
    "\<And>ty. live_subscribers w' ty = live_subscribers w ty" "next_block w' = next_block w"
proof -
  let ?t = "t\<lparr>current_state := s\<rparr>"
  let ?w2 = "world_log INFO (name t) (''transitioning to '' @ task_state_to_string s) (put_task p ?t w)"
  have eq: "Task_transition_to_state p s w = safe_publish p (ack_msg p s) ?w2"
    using assms(3) by (simp add: Task_transition_to_state_def Let_def)
  show ?thesis
    by (rule own_publish_ok [OF assms(1-4), of ?t ?w2 "ack_msg p s" n]) (use that eq assms(5) in simp_all)
qed

text \<open>The answer to a heartbeat.\<close>

lemma handle_heartbeat_ok:
  assumes "broker_ok w" "initialized (broker w)" "tasks w a = Some u" "owned u"
    and "subscribers_ready n Type_HeartbeatAckMsg w"
  obtains w' m ts where "handle_heartbeat a d w = Inr w'"
    "msg_data m = HeartbeatAckMsg (hb_unique_id d) (hb_timestamp d) ts" "get_sender m = a"
    "get_type m = Type_HeartbeatAckMsg"
    "\<And>b. rel_option (delivered n m (b \<in> set (live_subscribers w Type_HeartbeatAckMsg))) (tasks w b) (tasks w' b)"
    "broker_ok w'" "initialized (broker w')" "\<And>ty. live_subscribers w' ty = live_subscribers w ty"
proof -
  define now where "now = fst (steady_clock_now w)"
  define w1 where "w1 = snd (steady_clock_now w)"
  have clk: "steady_clock_now w = (now, w1)" by (simp add: now_def w1_def)
  have w1: "tasks w1 = (tasks w)(a \<mapsto> u)" "broker w1 = broker w" "next_block w1 = next_block w"
    using assms(3) by (simp_all add: w1_def map_upd_triv)
  let ?d = "HeartbeatAckMsg (hb_unique_id d) (hb_timestamp d) (word_of_int (duration_ms now))"
  obtain m where m: "Msg_new a ?d = Inr m" "msg_data m = ?d" "get_sender m = a" "get_type m = Type_HeartbeatAckMsg"
    by (simp add: Msg_new_eq get_sender_def get_type_def message_types_def)
  have ready: "subscribers_ready n (get_type m) w" using assms(5) m(4) by simp
  obtain w' where "safe_publish a m w1 = Inr w'" "broker_ok w'" "initialized (broker w')"
    "\<And>b. rel_option (delivered n m (b \<in> set (live_subscribers w (get_type m)))) (tasks w1 b) (tasks w' b)"
    "\<And>ty. live_subscribers w' ty = live_subscribers w ty" "next_block w' = next_block w" "clocks w' = clocks w1"
    using own_publish_ok [OF assms(1-4) refl refl refl w1 m(3) ready] by metis
  then show ?thesis
    using that [of w' m "word_of_int (duration_ms now)"] m w1(1) assms(3)
    by (simp add: handle_heartbeat_def clk map_upd_triv)
qed

section \<open>The queue thread\<close>

lemma run_step_test:
  "tasks w p = Some t \<Longrightarrow> queue_thread t = AtTest \<Longrightarrow>
     run_step f p w = Inr (Returns (put_task p (t\<lparr>queue_thread := if running t then AtDequeue else AtEnd\<rparr>) w))"
  by (simp add: run_step_def)

lemma run_step_dequeue:
  assumes "tasks w p = Some t" "queue_thread t = AtDequeue" "mq_good n (message_queue t)"
    and "pending_msgs (message_queue t) = m # ms"
  shows "\<exists>q. run_step f p w = Inr (Returns (put_task p (t\<lparr>message_queue := q, queue_thread := AtProcess m\<rparr>) w)) \<and>
    mq_good n q \<and> pending_msgs q = ms \<and> mq_capacity q = mq_capacity (message_queue t) \<and>
    mq_shutdown q = mq_shutdown (message_queue t)"
  using mq_reader.take_ok [OF assms(3,4)] assms(1,2) by (auto simp: run_step_def)

lemma run_step_dequeue_empty:
  assumes "tasks w p = Some t" "queue_thread t = AtDequeue" "mq_queue (message_queue t) = []"
  shows "run_step f p w =
    (if mq_shutdown (message_queue t)
     then Inr (Returns (put_task p (t\<lparr>message_queue := (message_queue t)\<lparr>mq_sequence := 0\<rparr>,
            queue_thread := AtTest\<rparr>) w))
     else Inr Blocks)"
  using assms by (simp add: run_step_def dequeue_empty)

lemma put_task_put_task [simp]: "put_task p u (put_task p t w) = put_task p u w"
  by (simp add: put_task_def)

lemma put_task_same: "tasks w p = Some t \<Longrightarrow> put_task p t w = w"
  by (simp add: put_task_def map_upd_triv)

lemma run_steps_add:
  "run_steps f p (k + n) w =
     res_bind (run_steps f p k w) (\<lambda>r. case r of Blocks \<Rightarrow> Inr Blocks | Returns w' \<Rightarrow> run_steps f p n w')"
proof (induction k arbitrary: w)
  case 0
  then show ?case by simp
next
  case (Suc k)
  have "(\<lambda>r. case r of Blocks \<Rightarrow> Inr Blocks | Returns w' \<Rightarrow> run_steps f p (k + n) w') =
    (\<lambda>r. res_bind (case r of Blocks \<Rightarrow> Inr Blocks | Returns w' \<Rightarrow> run_steps f p k w')
       (\<lambda>r. case r of Blocks \<Rightarrow> Inr Blocks | Returns w' \<Rightarrow> run_steps f p n w'))"
    by (rule ext) (simp add: Suc.IH split: wait.splits)
  then show ?case by (simp add: res_bind_assoc)
qed

lemma run_steps_1: "run_steps f p 1 w = run_step f p w"
  by (cases "run_step f p w") (auto split: wait.splits)

text \<open>The two steps from the test of \<open>running\<close> to the processing of the first pending message.\<close>

lemma run_round:
  assumes t: "tasks w p = Some t" "running t" "queue_thread t = AtTest" "mq_good n (message_queue t)"
    and ms: "pending_msgs (message_queue t) = m # ms"
  shows "\<exists>q. run_steps f p 2 w = Inr (Returns (put_task p (t\<lparr>message_queue := q, queue_thread := AtProcess m\<rparr>) w)) \<and>
    mq_good n q \<and> pending_msgs q = ms \<and> mq_capacity q = mq_capacity (message_queue t) \<and>
    mq_shutdown q = mq_shutdown (message_queue t)"
proof -
  let ?t = "t\<lparr>queue_thread := AtDequeue\<rparr>" and ?w = "put_task p (t\<lparr>queue_thread := AtDequeue\<rparr>) w"
  have 1: "run_step f p w = Inr (Returns ?w)" using run_step_test [OF t(1,3)] t(2) by simp
  from run_step_dequeue [of ?w p ?t n m ms f] t(4) ms obtain q where
    "run_step f p ?w = Inr (Returns (put_task p (?t\<lparr>message_queue := q, queue_thread := AtProcess m\<rparr>) ?w))"
    "mq_good n q \<and> pending_msgs q = ms \<and> mq_capacity q = mq_capacity (message_queue t) \<and>
     mq_shutdown q = mq_shutdown (message_queue t)"
    by auto
  with 1 have "run_steps f p 2 w =
      Inr (Returns (put_task p (t\<lparr>message_queue := q, queue_thread := AtProcess m\<rparr>) w))"
    by (simp add: numeral_2_eq_2)
  with \<open>mq_good n q \<and> _\<close> show ?thesis by blast
qed

text \<open>A call of the handler that returns and leaves the stopped task stopped.\<close>

definition returns_stopped :: "(ptr \<Rightarrow> Msg \<Rightarrow> World \<Rightarrow> World result) \<Rightarrow> ptr \<Rightarrow> Msg \<Rightarrow> World \<Rightarrow> bool" where
  "returns_stopped f p m w \<longleftrightarrow>
     (\<exists>w' u'. f p m w = Inr w' \<and> tasks w' p = Some u' \<and> \<not> running u')"

text \<open>
  The one handler call that a stopped queue thread may still make does so: with the message it
  holds, or with the one that the \<open>dequeue\<close> it is in takes out.
\<close>

definition last_call_returns ::
  "(ptr \<Rightarrow> Msg \<Rightarrow> World \<Rightarrow> World result) \<Rightarrow> ptr \<Rightarrow> Task \<Rightarrow> World \<Rightarrow> bool" where
  "last_call_returns f p t w \<longleftrightarrow>
     (case queue_thread t of
        AtProcess m \<Rightarrow> returns_stopped f p m w
      | AtDequeue \<Rightarrow>
          (case dequeue (message_queue t) of
             Inr (Returns (Some m, q)) \<Rightarrow>
               returns_stopped f p m (put_task p (t\<lparr>message_queue := q, queue_thread := AtProcess m\<rparr>) w)
           | _ \<Rightarrow> True)
      | _ \<Rightarrow> True)"

lemma stopped_at_test:
  assumes "tasks w p = Some t" "\<not> running t" "queue_thread t = AtTest"
  shows "\<exists>w' t'. run_steps f p 1 w = Inr (Returns w') \<and> tasks w' p = Some t' \<and>
    queue_thread t' = AtEnd \<and> \<not> running t'"
  using run_step_test [OF assms(1,3)] assms(2) by simp

lemma stopped_at_process:
  assumes t: "tasks w p = Some t" "queue_thread t = AtProcess m" and f: "returns_stopped f p m w"
  shows "\<exists>w' t'. run_steps f p 2 w = Inr (Returns w') \<and> tasks w' p = Some t' \<and>
    queue_thread t' = AtEnd \<and> \<not> running t'"
proof -
  obtain w' u' where w': "f p m w = Inr w'" "tasks w' p = Some u'" "\<not> running u'"
    using f unfolding returns_stopped_def by blast
  have "run_step f p w = Inr (Returns (put_task p (u'\<lparr>queue_thread := AtTest\<rparr>) w'))"
    using t w' by (simp add: run_step_def set_queue_thread_def)
  with stopped_at_test [of "put_task p (u'\<lparr>queue_thread := AtTest\<rparr>) w'" p _ f] w'(3) show ?thesis
    by (simp add: numeral_2_eq_2)
qed

lemma stopped_at_dequeue:
  assumes t: "tasks w p = Some t" "\<not> running t" "queue_thread t = AtDequeue"
    and q: "mq_shutdown (message_queue t)" "mq_good n (message_queue t)"
    and f: "last_call_returns f p t w"
  shows "\<exists>k \<le> 3. \<exists>w' t'. run_steps f p k w = Inr (Returns w') \<and> tasks w' p = Some t' \<and>
    queue_thread t' = AtEnd \<and> \<not> running t'"
proof (cases "pending_msgs (message_queue t)")
  case Nil
  let ?t = "t\<lparr>message_queue := (message_queue t)\<lparr>mq_sequence := 0\<rparr>, queue_thread := AtTest\<rparr>"
  have "run_step f p w = Inr (Returns (put_task p ?t w))"
    using run_step_dequeue_empty [OF t(1,3)] Nil q(1) by (simp add: pending_msgs_empty_iff)
  moreover have "\<exists>w' t'. run_steps f p 1 (put_task p ?t w) = Inr (Returns w') \<and>
      tasks w' p = Some t' \<and> queue_thread t' = AtEnd \<and> \<not> running t'"
    by (rule stopped_at_test [where t = ?t]) (use t(2) in simp_all)
  ultimately show ?thesis by (intro exI [of _ 2]) (auto simp: numeral_2_eq_2)
next
  case (Cons x xs)
  obtain q' where q': "dequeue (message_queue t) = Inr (Returns (Some x, q'))"
    using mq_reader.take_ok [OF q(2) Cons] by blast
  let ?w = "put_task p (t\<lparr>message_queue := q', queue_thread := AtProcess x\<rparr>) w"
  have step: "run_step f p w = Inr (Returns ?w)" using t(1,3) q' by (simp add: run_step_def)
  have "returns_stopped f p x ?w" using f t(3) q' by (simp add: last_call_returns_def)
  then have "\<exists>w' t'. run_steps f p 2 ?w = Inr (Returns w') \<and> tasks w' p = Some t' \<and>
      queue_thread t' = AtEnd \<and> \<not> running t'"
    by (rule stopped_at_process [where t = "t\<lparr>message_queue := q', queue_thread := AtProcess x\<rparr>", rotated 2]) simp_all
  with step show ?thesis
    by (intro exI [of _ 3]) (auto simp: numeral_3_eq_3 numeral_2_eq_2)
qed

lemma stopped_queue_thread_ends:
  assumes t: "tasks w p = Some t" "\<not> running t" "mq_shutdown (message_queue t)" "mq_good n (message_queue t)"
    and pc: "queue_thread t = AtTest \<or> queue_thread t = AtDequeue \<or> (\<exists>m. queue_thread t = AtProcess m)"
    and f: "last_call_returns process p t w"
  shows "\<exists>k \<le> 3. \<exists>w' t'. run_steps process p k w = Inr (Returns w') \<and> tasks w' p = Some t' \<and>
    queue_thread t' = AtEnd \<and> \<not> running t'"
proof -
  consider (test) "queue_thread t = AtTest" | (deq) "queue_thread t = AtDequeue"
    | (proc) m where "queue_thread t = AtProcess m"
    using pc by blast
  then show ?thesis
  proof cases
    case test
    with stopped_at_test [OF t(1,2)] show ?thesis
      by (metis numeral_le_one_iff one_le_numeral)
  next
    case proc
    with f have "returns_stopped process p m w" by (simp add: last_call_returns_def)
    from stopped_at_process [OF t(1) proc this] show ?thesis by (intro exI [of _ 2]) auto
  next
    case deq
    from stopped_at_dequeue [OF t(1,2) deq t(3,4) f] show ?thesis .
  qed
qed

section \<open>The periodic thread after a stop\<close>

text \<open>Several steps of the periodic thread while no other thread runs.\<close>

fun run_periodic_steps ::
  "(ptr \<Rightarrow> World \<Rightarrow> World result) \<Rightarrow> ptr \<Rightarrow> nat \<Rightarrow> World \<Rightarrow> World wait result" where
  "run_periodic_steps periodic this 0 w = Inr (Returns w)"
| "run_periodic_steps periodic this (Suc n) w =
     res_bind (run_periodic_step periodic this w) (\<lambda>r.
     case r of Blocks \<Rightarrow> Inr Blocks | Returns w1 \<Rightarrow> run_periodic_steps periodic this n w1)"

text \<open>The steady clock passes every point in time.\<close>

definition clock_advances :: "World \<Rightarrow> bool" where
  "clock_advances w \<longleftrightarrow> (\<forall>x n. \<exists>k. x \<le> steady_now (clocks w (n + k)))"

definition periodic_ends :: "(ptr \<Rightarrow> World \<Rightarrow> World result) \<Rightarrow> ptr \<Rightarrow> World \<Rightarrow> bool" where
  "periodic_ends periodic p w \<longleftrightarrow> (\<exists>k w' t'. run_periodic_steps periodic p k w = Inr (Returns w') \<and>
     tasks w' p = Some t' \<and> periodic_thread t' = AtEnd)"

lemma periodic_ends_step:
  assumes "run_periodic_step periodic p w = Inr (Returns w1)" "periodic_ends periodic p w1"
  shows "periodic_ends periodic p w"
proof -
  obtain k w' t' where "run_periodic_steps periodic p k w1 = Inr (Returns w')" "tasks w' p = Some t'" "periodic_thread t' = AtEnd"
    using assms(2) by (auto simp: periodic_ends_def)
  with assms(1) have "run_periodic_steps periodic p (Suc k) w = Inr (Returns w')" by simp
  then show ?thesis using \<open>tasks w' p = Some t'\<close> \<open>periodic_thread t' = AtEnd\<close> unfolding periodic_ends_def by blast
qed

lemma periodic_ends_test:
  assumes "tasks w p = Some t" "\<not> running t" "periodic_thread t = AtTest"
  shows "periodic_ends periodic p w"
proof -
  have "run_periodic_steps periodic p 1 w = Inr (Returns (put_task p (t\<lparr>periodic_thread := AtEnd\<rparr>) w))"
    using assms by (simp add: run_periodic_step_def)
  moreover have "tasks (put_task p (t\<lparr>periodic_thread := AtEnd\<rparr>) w) p = Some (t\<lparr>periodic_thread := AtEnd\<rparr>)" by simp
  ultimately show ?thesis unfolding periodic_ends_def by fastforce
qed

lemma periodic_ends_sleep:
  assumes "tasks w p = Some t" "\<not> running t" "periodic_thread t = AtSleep next_time"
    and "next_time \<le> steady_now (clocks w (clock_reads w + k))"
  shows "periodic_ends periodic p w"
  using assms
proof (induction k arbitrary: w)
  case 0
  let ?w = "put_task p (t\<lparr>periodic_thread := AtTest\<rparr>) (w\<lparr>clock_reads := Suc (clock_reads w)\<rparr>)"
  have "run_periodic_step periodic p w = Inr (Returns ?w)"
    using 0 by (simp add: run_periodic_step_def steady_clock_now_def)
  moreover have "periodic_ends periodic p ?w"
    by (rule periodic_ends_test [where t = "t\<lparr>periodic_thread := AtTest\<rparr>"]) (use 0 in simp_all)
  ultimately show ?case by (rule periodic_ends_step)
next
  case (Suc k)
  let ?w = "w\<lparr>clock_reads := Suc (clock_reads w)\<rparr>"
  let ?v = "put_task p (t\<lparr>periodic_thread := AtTest\<rparr>) ?w"
  have "run_periodic_step periodic p w =
      Inr (Returns (if next_time \<le> steady_now (clocks w (clock_reads w)) then ?v else ?w))"
    using Suc.prems by (simp add: run_periodic_step_def steady_clock_now_def)
  moreover have "periodic_ends periodic p ?v"
    by (rule periodic_ends_test [where t = "t\<lparr>periodic_thread := AtTest\<rparr>"]) (use Suc.prems in simp_all)
  moreover have "periodic_ends periodic p ?w" by (rule Suc.IH) (use Suc.prems in simp_all)
  ultimately show ?case by (auto intro: periodic_ends_step)
qed

text \<open>A body that returns without starting the task again.\<close>

definition body_returns :: "(ptr \<Rightarrow> World \<Rightarrow> World result) \<Rightarrow> ptr \<Rightarrow> World \<Rightarrow> bool" where
  "body_returns periodic p w \<longleftrightarrow> (\<exists>w1 t1. periodic p w = Inr w1 \<and> tasks w1 p = Some t1 \<and> \<not> running t1 \<and> clock_advances w1)"

lemma stopped_periodic_ends:
  assumes t: "tasks w p = Some t" "\<not> running t" and clock: "clock_advances w"
    and pc: "periodic_thread t = AtTest \<or> periodic_thread t = AtPeriodic \<and> body_returns periodic p w \<or>
      (\<exists>next_time. periodic_thread t = AtSleep next_time)"
  shows "periodic_ends periodic p w"
proof -
  have asleep: "periodic_ends periodic p v"
    if v: "tasks v p = Some u" "\<not> running u" "periodic_thread u = AtSleep next_time" "clock_advances v" for v u next_time
  proof -
    obtain k where "next_time \<le> steady_now (clocks v (clock_reads v + k))" using v(4) by (auto simp: clock_advances_def)
    with v(1-3) show ?thesis by (rule periodic_ends_sleep)
  qed
  show ?thesis
  proof (cases "periodic_thread t = AtPeriodic")
    case True
    with pc obtain w1 t1 where w1: "periodic p w = Inr w1" "tasks w1 p = Some t1" "\<not> running t1" "clock_advances w1"
      by (auto simp: body_returns_def)
    define pc' where "pc' = AtSleep (steady_now (clocks w1 (clock_reads w1)) + 1000000 * periodic_task_interval_ms t1)"
    let ?w = "put_task p (t1\<lparr>periodic_thread := pc'\<rparr>) (w1\<lparr>clock_reads := Suc (clock_reads w1)\<rparr>)"
    have "run_periodic_step periodic p w = Inr (Returns ?w)"
      using t(1) True w1(1,2) by (simp add: run_periodic_step_def steady_clock_now_def pc'_def Let_def)
    moreover have "periodic_ends periodic p ?w"
      by (rule asleep [where u = "t1\<lparr>periodic_thread := pc'\<rparr>"]) (use w1(3,4) in \<open>simp_all add: pc'_def clock_advances_def\<close>)
    ultimately show ?thesis by (rule periodic_ends_step)
  next
    case False
    with pc t clock asleep periodic_ends_test show ?thesis by blast
  qed
qed

section \<open>Properties of tasks\<close>

text \<open>C24: A state transition is unconditional and acknowledged: from whatever state and to whatever
  state, \<open>transition_to_state\<close> of an owned task stores the new state and posts one \<open>StateAckMsg\<close>
  with that state to every live subscriber of acknowledgements; no transition is rejected.\<close>

theorem transition_is_acknowledged:
  assumes "broker_ok w" "initialized (broker w)" "tasks w p = Some t" "owned t"
    and "subscribers_ready n Type_StateAckMsg w"
  shows "\<exists>w' t'. Task_transition_to_state p s w = Inr w' \<and> broker_ok w' \<and>
    tasks w' p = Some t' \<and> current_state t' = s \<and>
    (\<forall>a. rel_option (delivered n (ack_msg p s) (a \<in> set (live_subscribers w Type_StateAckMsg)))
       (((tasks w)(p \<mapsto> t\<lparr>current_state := s\<rparr>)) a) (tasks w' a))"
proof -
  obtain w' where w': "Task_transition_to_state p s w = Inr w'" "broker_ok w'"
    "\<And>a. rel_option (delivered n (ack_msg p s) (a \<in> set (live_subscribers w Type_StateAckMsg)))
       (((tasks w)(p \<mapsto> t\<lparr>current_state := s\<rparr>)) a) (tasks w' a)"
    using transition_ok [OF assms] by metis
  from w'(3) [of p] obtain t' where "tasks w' p = Some t'" "current_state t' = s"
    by (auto simp: option_rel_Some1 delivered_def split: if_splits)
  with w' show ?thesis by blast
qed

theorem transition_is_acknowledged_witness:
  "\<exists>w w' t'. Task_transition_to_state 8 RUNNING w = Inr w' \<and> tasks w' 8 = Some t' \<and>
     current_state t' = RUNNING"
proof -
  obtain w t where "one_task_system w t" using example_world by blast
  then have w: "broker_ok w" "initialized (broker w)" "tasks w = [8 \<mapsto> t]" "owned t"
    "live_subscribers w Type_StateAckMsg = []"
    by (simp_all add: one_task_system_def)
  have "tasks w 8 = Some t" "subscribers_ready 0 Type_StateAckMsg w"
    using w(3,5) by (simp_all add: subscribers_ready_def)
  from transition_is_acknowledged [OF w(1,2) this(1) w(4) this(2), of RUNNING] show ?thesis by blast
qed

text \<open>The queue thread of a running task processes the pending messages in the order of the
  queue: from the test of \<open>running\<close>, two steps take the first pending message out and enter
  \<open>process_message\<close> with it, and the step after that runs the handler and returns to the test.\<close>

lemma run_processes_in_order:
  assumes "tasks w p = Some t" "running t" "queue_thread t = AtTest" "mq_good n (message_queue t)"
    and "pending_msgs (message_queue t) = m # ms"
  shows "\<exists>q. mq_good n q \<and> pending_msgs q = ms \<and>
    run_steps process p 3 w =
      res_bind (process p m (put_task p (t\<lparr>message_queue := q, queue_thread := AtProcess m\<rparr>) w)) (\<lambda>w1.
      res_bind (set_queue_thread p AtTest w1) (\<lambda>w2. Inr (Returns w2)))"
proof -
  obtain q where q: "run_steps process p 2 w =
      Inr (Returns (put_task p (t\<lparr>message_queue := q, queue_thread := AtProcess m\<rparr>) w))"
    "mq_good n q" "pending_msgs q = ms"
    using run_round [OF assms] by blast
  let ?w = "put_task p (t\<lparr>message_queue := q, queue_thread := AtProcess m\<rparr>) w"
  have "run_step process p ?w = res_bind (process p m ?w) (\<lambda>w1.
      res_bind (set_queue_thread p AtTest w1) (\<lambda>w2. Inr (Returns w2)))"
    by (simp add: run_step_def)
  moreover have "run_steps process p 3 w = run_step process p ?w"
    using run_steps_add [of process p 2 1 w] q(1) by (simp add: run_steps_1 del: One_nat_def)
  ultimately show ?thesis using q(2,3) by metis
qed



text \<open>C29: Destroying a task: when the last shared pointer to a running task goes away, the
  destructor stops it, which publishes through \<open>shared_from_this\<close> and throws \<open>bad_weak_ptr\<close>; the
  exception would leave the destructor, which is \<^verbatim>\<open>noexcept\<close>, and ends the program. A task that was
  stopped and joined before is destroyed with its queue, and no broker list delivers to it any
  more; one that is not running but has a thread that was not joined ends the program too.\<close>

theorem task_destruction:
  assumes "tasks w p = Some t" "mq_wf (message_queue t) {}"
  shows "if running t then
      stop Task_transition_to_state others p (put_task p (t\<lparr>owned := False\<rparr>) w) = Inl BadWeakPtr \<and>
      Task_destroy others p w = Inl (Terminate ''exception leaves a noexcept function'')
    else if queue_thread t = NoThread \<and> periodic_thread t = NoThread
    then \<exists>w'. Task_destroy others p w = Inr (Returns w') \<and> tasks w' = (tasks w)(p := None) \<and>
      (\<forall>ty. p \<notin> set (live_subscribers w' ty))
    else Task_destroy others p w = Inl (Terminate ''destruction of a joinable thread'')"
proof -
  let ?t = "t\<lparr>owned := False\<rparr>"
  obtain q where q: "MessageQueue_destroy (message_queue t) = Inr q"
    using MessageQueue_destroy_ok [OF assms(2)] by blast
  show ?thesis
  proof (cases "running t")
    case True
    with assms(1) show ?thesis
      by (simp add: Task_destroy_def stop_def stop_request_def Task_transition_to_state_def
          safe_publish_def Let_def shared_from_this_def)
  next
    case False
    let ?w = "(put_task p ?t w)\<lparr>tasks := (tasks w)(p := None)\<rparr>"
    have "p \<notin> set (live_subscribers ?w ty)" for ty
      using live_subscribers_exist [of p ?w ty] by auto
    moreover have "stop Task_transition_to_state others p (put_task p ?t w) =
        Inr (Returns (put_task p ?t w))"
      using False by (simp add: stop_def)
    ultimately show ?thesis
      using assms(1) q False by (simp add: Task_destroy_def put_task_def)
  qed
qed

theorem task_destruction_witness:
  "\<exists>w. Task_destroy (\<lambda>w. Inr w) 8 w = Inl (Terminate ''exception leaves a noexcept function'')"
proof -
  obtain w0 t0 where "one_task_system w0 t0" using example_world by blast
  then have "mq_good 0 (message_queue t0)" by (simp add: one_task_system_def)
  then have wf: "mq_wf (message_queue (t0\<lparr>running := True\<rparr>)) {}" by (simp add: mq_good_def)
  have "tasks (put_task 8 (t0\<lparr>running := True\<rparr>) w0) 8 = Some (t0\<lparr>running := True\<rparr>)" by simp
  from task_destruction [OF this wf, of "\<lambda>w. Inr w"] show ?thesis by auto
qed

end
