(* ===== verification/State_Manager.thy ===== *)
theory State_Manager
  imports Tasks
begin

text \<open>
  The state manager of \<^verbatim>\<open>state_manager.h\<close> and \<^verbatim>\<open>state_manager.cpp\<close>: it records the states of the
  registered tasks, broadcasts state changes and waits for the acknowledgements. A call that waits
  takes the argument \<open>others\<close>: what the other threads do until the wait ends.
\<close>

section \<open>Access to the members of the derived classes\<close>

definition get_sm :: "World \<Rightarrow> ptr \<Rightarrow> (Task \<times> StateManager) result" where
  "get_sm w p =
     res_bind (get_task w p) (\<lambda>t.
     case derived_part t of
       DerivedStateManager sm \<Rightarrow> Inr (t, sm)
     | _ \<Rightarrow> Inl (UB ''member of StateManager in an object of another class''))"

definition put_sm :: "ptr \<Rightarrow> Task \<Rightarrow> StateManager \<Rightarrow> World \<Rightarrow> World" where
  "put_sm p t sm w = put_task p (t\<lparr>derived_part := DerivedStateManager sm\<rparr>) w"

definition get_hb :: "World \<Rightarrow> ptr \<Rightarrow> (Task \<times> HeartBeatTask) result" where
  "get_hb w p =
     res_bind (get_task w p) (\<lambda>t.
     case derived_part t of
       DerivedHeartBeat hb \<Rightarrow> Inr (t, hb)
     | _ \<Rightarrow> Inl (UB ''member of HeartBeatTask in an object of another class''))"

definition put_hb :: "ptr \<Rightarrow> Task \<Rightarrow> HeartBeatTask \<Rightarrow> World \<Rightarrow> World" where
  "put_hb p t hb w = put_task p (t\<lparr>derived_part := DerivedHeartBeat hb\<rparr>) w"

section \<open>Creation and registration\<close>

definition STATE_TRANSITION_TIMEOUT :: int where
  "STATE_TRANSITION_TIMEOUT = 5 * 1000"

definition StateManager_new :: StateManager where
  "StateManager_new = \<lparr>task_states = [], sm_current_state = None, target_state = None,
     task_registration_observer = nullptr\<rparr>"

text \<open>\<open>StateManager::on_initialize\<close> and \<open>StateManager::create\<close>.\<close>

definition StateManager_on_initialize :: "ptr \<Rightarrow> World \<Rightarrow> World result" where
  "StateManager_on_initialize this w = safe_subscribe this Type_StateAckMsg w"

definition StateManager_create :: "ptr \<Rightarrow> ptr \<Rightarrow> World \<Rightarrow> World result" where
  "StateManager_create this base w =
     res_bind (Task_new ''StateManager'' base 64 (DerivedStateManager StateManager_new)) (\<lambda>t.
     StateManager_on_initialize this (make_shared this t w))"

definition set_task_registration_observer :: "ptr \<Rightarrow> ptr \<Rightarrow> World \<Rightarrow> World result" where
  "set_task_registration_observer this observer w =
     res_bind (get_sm w this) (\<lambda>(t, sm).
     Inr (put_sm this t (sm\<lparr>task_registration_observer := observer\<rparr>) w))"

text \<open>\<open>HeartBeatTask::notify_task_registered\<close>, which \<open>register_task\<close> calls on its observer.\<close>

definition TaskStatus_new :: TaskStatus where
  "TaskStatus_new = \<lparr>awaiting_response = False, last_heartbeat_id = 0, last_heartbeat_time = 0,
     last_response_time = 0\<rparr>"

definition notify_task_registered :: "ptr \<Rightarrow> ptr \<Rightarrow> World \<Rightarrow> World result" where
  "notify_task_registered this task w =
     (if task = this then Inr w
      else res_bind (get_hb w this) (\<lambda>(t, hb).
           if map_find (monitored_tasks hb) task = None
           then let (now, w1) = steady_clock_now w;
                    status = TaskStatus_new\<lparr>last_response_time := now\<rparr>
                in Inr (put_hb this t (hb\<lparr>monitored_tasks := map_assign task status (monitored_tasks hb)\<rparr>) w1)
           else Inr w))"

definition register_task :: "ptr \<Rightarrow> ptr \<Rightarrow> World \<Rightarrow> World result" where
  "register_task this task w =
     res_bind (get_sm w this) (\<lambda>(t, sm).
     let sm1 = sm\<lparr>task_states := map_assign task NOT_STARTED (task_states sm)\<rparr>;
         w1 = put_sm this t sm1 w;
         observer = task_registration_observer sm1
     in if observer \<noteq> nullptr
        then res_bind (get_task w1 observer) (\<lambda>ob.
             case derived_part ob of
               DerivedHeartBeat hb \<Rightarrow> notify_task_registered observer task w1
             | _ \<Rightarrow> Inr w1)
        else Inr w1)"

section \<open>State transitions\<close>

text \<open>\<open>StateManager::transition_to_state\<close>, which overrides the function of the base class.\<close>

definition StateManager_transition_to_state :: "ptr \<Rightarrow> TaskState \<Rightarrow> World \<Rightarrow> World result" where
  "StateManager_transition_to_state this new_state w =
     res_bind (get_sm w this) (\<lambda>(t, sm).
     let w1 = world_log INFO (name t) (''transitioning to '' @ task_state_to_string new_state) w;
         w2 = put_sm this t (sm\<lparr>sm_current_state := Some new_state\<rparr>) w1
     in res_bind (Msg_new this (StateMsg (byte_of_state new_state))) (\<lambda>m.
        safe_publish this m w2))"

text \<open>The virtual call \<open>transition_to_state\<close>.\<close>

definition transition_to_state :: "ptr \<Rightarrow> TaskState \<Rightarrow> World \<Rightarrow> World result" where
  "transition_to_state this new_state w =
     res_bind (get_task w this) (\<lambda>t.
     case derived_part t of
       DerivedStateManager sm \<Rightarrow> StateManager_transition_to_state this new_state w
     | _ \<Rightarrow> Task_transition_to_state this new_state w)"

definition request_state_transition :: "ptr \<Rightarrow> TaskState \<Rightarrow> World \<Rightarrow> World result" where
  "request_state_transition this new_state w = transition_to_state this new_state w"

definition all_tasks_in_state :: "StateManager \<Rightarrow> TaskState \<Rightarrow> bool" where
  "all_tasks_in_state sm state \<longleftrightarrow> list_all (\<lambda>(task, s). s = state) (task_states sm)"

text \<open>The loop that reports the tasks that are not in the demanded state.\<close>

fun report_lagging ::
  "string \<Rightarrow> TaskState \<Rightarrow> (ptr, TaskState) std_map \<Rightarrow> World \<Rightarrow> World result" where
  "report_lagging nm new_state [] w = Inr w"
| "report_lagging nm new_state ((task, s) # rest) w =
     (if s \<noteq> new_state
      then res_bind (get_task w task) (\<lambda>t.
           report_lagging nm new_state rest
             (world_log LOG_ERROR nm
               ([CHR 0x09] @ ''Task '' @ name t @ '' still in state '' @ task_state_to_string s) w))
      else report_lagging nm new_state rest w)"

text \<open>\<open>demand_state_transition\<close> before the wait, after it, and as a whole.\<close>

definition demand_begin :: "ptr \<Rightarrow> TaskState \<Rightarrow> World \<Rightarrow> World result" where
  "demand_begin this new_state w =
     res_bind (get_sm w this) (\<lambda>(t, sm).
     let w1 = world_log INFO (name t) (''demanding transition to '' @ task_state_to_string new_state) w;
         w2 = put_sm this t (sm\<lparr>target_state := Some new_state\<rparr>) w1
     in transition_to_state this new_state w2)"

definition demand_end :: "ptr \<Rightarrow> TaskState \<Rightarrow> World \<Rightarrow> (bool \<times> World) result" where
  "demand_end this new_state w =
     res_bind (get_sm w this) (\<lambda>(t, sm).
     if all_tasks_in_state sm new_state then Inr (True, w)
     else let w1 = world_log LOG_ERROR (name t)
            (''Timeout waiting for tasks to state transition to '' @ task_state_to_string new_state) w
          in res_bind (report_lagging (name t) new_state (task_states sm) w1) (\<lambda>w2. Inr (False, w2)))"

definition demand_state_transition ::
  "(World \<Rightarrow> World result) \<Rightarrow> ptr \<Rightarrow> TaskState \<Rightarrow> World \<Rightarrow> (bool \<times> World) result" where
  "demand_state_transition others this new_state w =
     res_bind (demand_begin this new_state w) (\<lambda>w1.
     res_bind (others w1) (\<lambda>w2. demand_end this new_state w2))"

section \<open>Starting up and shutting down\<close>

fun start_all :: "ptr list \<Rightarrow> World \<Rightarrow> World result" where
  "start_all [] w = Inr w"
| "start_all (p # ps) w = res_bind (start p w) (\<lambda>w1. start_all ps w1)"

definition initialize :: "(World \<Rightarrow> World result) \<Rightarrow> ptr \<Rightarrow> World \<Rightarrow> World result" where
  "initialize others this w =
     res_bind (get_sm w this) (\<lambda>(t, sm).
     let w1 = world_log INFO (name t) ''initializing tasks...'' w
     in res_bind (start this w1) (\<lambda>w2.
        res_bind (start_all (map fst (task_states sm)) w2) (\<lambda>w3.
        res_bind (demand_state_transition others this IDLE w3) (\<lambda>(success, w4).
        Inr (if success then w4
             else world_log LOG_ERROR (name t)
               ''Timeout while waiting for tasks to transition to IDLE during initialization'' w4)))))"

fun stop_all :: "(World \<Rightarrow> World result) \<Rightarrow> ptr list \<Rightarrow> World \<Rightarrow> World wait result" where
  "stop_all joining [] w = Inr (Returns w)"
| "stop_all joining (p # ps) w =
     res_bind (stop transition_to_state joining p w) (\<lambda>r.
     case r of Blocks \<Rightarrow> Inr Blocks | Returns w1 \<Rightarrow> stop_all joining ps w1)"

text \<open>\<open>joining\<close> is what the other threads do while \<open>shutdown\<close> waits in a \<open>join\<close>.\<close>

definition shutdown ::
  "(World \<Rightarrow> World result) \<Rightarrow> (World \<Rightarrow> World result) \<Rightarrow> ptr \<Rightarrow> World \<Rightarrow> World wait result" where
  "shutdown others joining this w =
     res_bind (get_sm w this) (\<lambda>(t, sm).
     let w1 = world_log INFO (name t) ''shutting down tasks...'' w
     in res_bind (demand_state_transition others this STOPPED w1) (\<lambda>(success, w2).
        let w3 = (if success then w2
                  else world_log LOG_ERROR (name t)
                    ''Timeout while waiting for tasks to stop during shutdown'' w2)
        in res_bind (get_sm w3 this) (\<lambda>(t3, sm3).
           res_bind (stop_all joining (map fst (task_states sm3)) w3) (\<lambda>r.
           case r of
             Blocks \<Rightarrow> Inr Blocks
           | Returns w4 \<Rightarrow> stop transition_to_state joining this w4))))"

section \<open>Acknowledgements\<close>

text \<open>
  \<open>StateManager::handle_acknowledgment\<close>. The first component of the result says whether the
  waiting \<open>demand_state_transition\<close> is notified.
\<close>

definition handle_acknowledgment :: "ptr \<Rightarrow> Msg \<Rightarrow> World \<Rightarrow> (bool \<times> World) result" where
  "handle_acknowledgment this m w =
     res_bind (get_sm w this) (\<lambda>(t, sm).
     let sender_raw = get_sender m
     in if sender_raw = nullptr
        then Inr (False, world_log LOG_ERROR (name t) ''State ACK from unknown sender'' w)
        else if \<not> list_ex (\<lambda>(task, s). task = sender_raw) (task_states sm)
        then Inr (False, world_log LOG_ERROR (name t) ''State ACK from unknown sender'' w)
        else case get_data_as Type_StateAckMsg m of
               None \<Rightarrow> Inr (False, world_log LOG_ERROR (name t) ''Received StateAckMsg with no data'' w)
             | Some ack \<Rightarrow>
                 let acknowledged_state = state_of_byte (sa_state ack);
                     sm1 = sm\<lparr>task_states := map_assign sender_raw acknowledged_state (task_states sm)\<rparr>;
                     w1 = put_sm this t sm1 w
                 in res_bind (get_task w1 sender_raw) (\<lambda>sender.
                    let w2 = world_log INFO (name t) (''Task '' @ name sender @
                          '' acknowledged transition to state '' @ task_state_to_string acknowledged_state) w1
                    in case target_state sm1 of
                         None \<Rightarrow> Inl (UB ''read of an indeterminate value'')
                       | Some target \<Rightarrow> Inr (all_tasks_in_state sm1 target, w2)))"

definition StateManager_process_message :: "ptr \<Rightarrow> Msg \<Rightarrow> World \<Rightarrow> World result" where
  "StateManager_process_message this m w =
     (if get_type m = Type_StateAckMsg
      then res_bind (handle_acknowledgment this m w) (\<lambda>(notified, w1). Inr w1)
      else res_bind (get_sm w this) (\<lambda>(t, sm).
           Inr (world_log LOG_ERROR (name t)
             (''Unhandled message type: '' @ msg_type_to_string (get_type m)) w)))"

definition mark_task_as_unresponsive :: "ptr \<Rightarrow> ptr \<Rightarrow> World \<Rightarrow> World result" where
  "mark_task_as_unresponsive this task w =
     res_bind (get_sm w this) (\<lambda>(t, sm).
     res_bind (get_task w task) (\<lambda>u.
     let w1 = world_log LOG_ERROR (name t) (''Task '' @ name u @
           '' marked as unresponsive, setting to '' @ task_state_to_string ERROR) w
     in res_bind (Msg_new this (StateMsg (byte_of_state ERROR))) (\<lambda>m.
        res_bind (deliver_message task m w1) (\<lambda>w2.
        res_bind (get_sm w2 this) (\<lambda>(t2, sm2).
        Inr (put_sm this t2 (sm2\<lparr>task_states := map_assign task ERROR (task_states sm2)\<rparr>) w2))))))"

section \<open>Lemmas\<close>

lemma get_sm_simps [simp]:
  "tasks w p = Some t \<Longrightarrow> derived_part t = DerivedStateManager sm \<Longrightarrow> get_sm w p = Inr (t, sm)"
  by (simp add: get_sm_def)

lemma get_hb_simps [simp]:
  "tasks w p = Some t \<Longrightarrow> derived_part t = DerivedHeartBeat hb \<Longrightarrow> get_hb w p = Inr (t, hb)"
  by (simp add: get_hb_def)

lemma get_sm_world_log [simp]: "get_sm (world_log l c x w) p = get_sm w p"
  by (simp add: get_sm_def)

text \<open>The message a state manager broadcasts.\<close>

definition state_msg :: "ptr \<Rightarrow> TaskState \<Rightarrow> Msg" where
  "state_msg p s = \<lparr>sending_task = p, msg_data = StateMsg (byte_of_state s),
     msg_priority = 100, msg_type = Type_StateMsg\<rparr>"

lemma Msg_new_state [simp]: "Msg_new p (StateMsg (byte_of_state s)) = Inr (state_msg p s)"
  by (simp add: Msg_new_eq state_msg_def message_priorities_def message_types_def)

lemma state_msg_simps [simp]:
  "get_type (state_msg p s) = Type_StateMsg" "get_sender (state_msg p s) = p"
  "msg_data (state_msg p s) = StateMsg (byte_of_state s)" "msg_priority (state_msg p s) = 100"
  "msg_type (state_msg p s) = Type_StateMsg"
  by (simp_all add: state_msg_def get_type_def get_sender_def)

lemma sm_transition_ok:
  assumes "broker_ok w" "initialized (broker w)" "tasks w p = Some t" "owned t"
    and sm: "derived_part t = DerivedStateManager sm"
    and "subscribers_ready n Type_StateMsg w"
  obtains w' where "transition_to_state p s w = Inr w'" "broker_ok w'" "initialized (broker w')"
    "\<And>a. rel_option (delivered n (state_msg p s) (a \<in> set (live_subscribers w Type_StateMsg)))
       (((tasks w)(p \<mapsto> t\<lparr>derived_part := DerivedStateManager (sm\<lparr>sm_current_state := Some s\<rparr>)\<rparr>)) a) (tasks w' a)"
    "\<And>ty. live_subscribers w' ty = live_subscribers w ty" "next_block w' = next_block w"
proof -
  let ?t = "t\<lparr>derived_part := DerivedStateManager (sm\<lparr>sm_current_state := Some s\<rparr>)\<rparr>"
  let ?w2 = "put_task p ?t (world_log INFO (name t) (''transitioning to '' @ task_state_to_string s) w)"
  have eq: "transition_to_state p s w = safe_publish p (state_msg p s) ?w2"
    using assms(3) sm by (simp add: transition_to_state_def StateManager_transition_to_state_def
        put_sm_def Let_def)
  show ?thesis
    by (rule own_publish_ok [OF assms(1-4), of ?t ?w2 "state_msg p s" n]) (use that eq assms(6) in simp_all)
qed

text \<open>The texts in the queue of the logger.\<close>

definition log_texts :: "World \<Rightarrow> string list" where
  "log_texts w = map le_message (log_queue (logger w))"

lemma log_texts_world_log:
  "log_texts (world_log l c x w) = log_texts w @ (if l < min_level (logger w) then [] else [x])"
  by (simp add: log_texts_def world_log_def Logger_log_def)

lemma min_level_world_log [simp]: "min_level (logger (world_log l c x w)) = min_level (logger w)"
  by (simp add: world_log_def Logger_log_def)

text \<open>The text that reports one lagging task.\<close>

definition lagging_text :: "World \<Rightarrow> ptr \<times> TaskState \<Rightarrow> string" where
  "lagging_text w e = [CHR 0x09] @ ''Task '' @ name (the (tasks w (fst e))) @ '' still in state '' @
     task_state_to_string (snd e)"

lemma report_lagging_ok:
  assumes "\<forall>q \<in> fst ` set es. tasks w q \<noteq> None"
  shows "\<exists>w'. report_lagging nm s es w = Inr w' \<and> tasks w' = tasks w \<and> broker w' = broker w \<and>
    log_texts w' = log_texts w @ (if LOG_ERROR < min_level (logger w) then []
      else map (lagging_text w) (filter (\<lambda>e. snd e \<noteq> s) es))"
  using assms
proof (induction es arbitrary: w)
  case Nil
  then show ?case by simp
next
  case (Cons e es)
  obtain q s' where e: "e = (q, s')" by (cases e)
  obtain t where t: "tasks w q = Some t" using Cons.prems e by auto
  show ?case
  proof (cases "s' = s")
    case True
    then have "report_lagging nm s (e # es) w = report_lagging nm s es w"
      "filter (\<lambda>e. snd e \<noteq> s) (e # es) = filter (\<lambda>e. snd e \<noteq> s) es" by (simp_all add: e)
    moreover have "\<forall>q \<in> fst ` set es. tasks w q \<noteq> None" using Cons.prems by simp
    ultimately show ?thesis using Cons.IH by (simp only:)
  next
    case False
    define w1 where "w1 = world_log LOG_ERROR nm (lagging_text w e) w"
    have "\<forall>q \<in> fst ` set es. tasks w1 q \<noteq> None" using Cons.prems by (simp add: w1_def)
    from Cons.IH [OF this] obtain w' where w': "report_lagging nm s es w1 = Inr w'"
      "tasks w' = tasks w1" "broker w' = broker w1"
      "log_texts w' = log_texts w1 @ (if LOG_ERROR < min_level (logger w1) then []
        else map (lagging_text w1) (filter (\<lambda>e. snd e \<noteq> s) es))" by blast
    have "lagging_text w1 = lagging_text w" by (simp add: fun_eq_iff lagging_text_def w1_def)
    moreover have "report_lagging nm s (e # es) w = Inr w'"
      using w'(1) t False by (simp add: e w1_def lagging_text_def)
    ultimately show ?thesis
      using w' False by (simp add: e w1_def log_texts_world_log)
  qed
qed

lemma all_tasks_in_state_iff:
  "map_sorted (task_states sm) \<Longrightarrow>
     all_tasks_in_state sm s \<longleftrightarrow> (\<forall>q s'. map_find (task_states sm) q = Some s' \<longrightarrow> s' = s)"
  unfolding all_tasks_in_state_def list_all_iff by (rule std_map.all_values)

lemma all_tasks_in_state_values:
  "all_tasks_in_state sm s \<longleftrightarrow> (\<forall>e \<in> set (task_states sm). snd e = s)"
  by (auto simp: all_tasks_in_state_def list_all_iff)

lemma known_sender_iff:
  "list_ex (\<lambda>(task, s). task = q) m \<longleftrightarrow> map_find m q \<noteq> None"
  by (induction m) auto

lemma acknowledgment_ok:
  assumes "tasks w p = Some t" "derived_part t = DerivedStateManager sm" "map_sorted (task_states sm)"
    and "target_state sm = Some target" "msg_data m = StateAckMsg b" "get_sender m \<noteq> nullptr"
    and "map_find (task_states sm) (get_sender m) \<noteq> None" "tasks w (get_sender m) \<noteq> None"
  shows "\<exists>notified w' sm'. handle_acknowledgment p m w = Inr (notified, w') \<and>
    tasks w' = (tasks w)(p \<mapsto> t\<lparr>derived_part := DerivedStateManager sm'\<rparr>) \<and>
    map_find (task_states sm') = (map_find (task_states sm))(get_sender m \<mapsto> state_of_byte b) \<and>
    map_sorted (task_states sm') \<and> target_state sm' = Some target \<and>
    (notified \<longleftrightarrow> (\<forall>q s. map_find (task_states sm') q = Some s \<longrightarrow> s = target)) \<and>
    broker w' = broker w \<and> next_block w' = next_block w"
proof -
  let ?sm = "sm\<lparr>task_states := map_assign (get_sender m) (state_of_byte b) (task_states sm)\<rparr>"
  let ?t = "t\<lparr>derived_part := DerivedStateManager ?sm\<rparr>"
  obtain u where u: "tasks (put_sm p t ?sm w) (get_sender m) = Some u"
    using assms(8) by (cases "get_sender m = p") (auto simp: put_sm_def)
  have ack: "get_data_as Type_StateAckMsg m = Some (StateAckMsg b)"
    using assms(5) by (simp add: get_data_as_def)
  have known: "list_ex (\<lambda>(task, s). task = get_sender m) (task_states sm)"
    using assms(7) by (simp add: known_sender_iff)
  have "\<exists>w'. handle_acknowledgment p m w = Inr (all_tasks_in_state ?sm target, w') \<and>
      tasks w' = tasks (put_sm p t ?sm w) \<and> broker w' = broker w \<and> next_block w' = next_block w"
    using assms(1,2,4,6) u ack known unfolding handle_acknowledgment_def by (simp add: Let_def) (simp add: put_sm_def)
  then obtain w' where w': "handle_acknowledgment p m w = Inr (all_tasks_in_state ?sm target, w')"
    "tasks w' = (tasks w)(p \<mapsto> ?t)" "broker w' = broker w" "next_block w' = next_block w"
    by (auto simp: put_sm_def)
  have "all_tasks_in_state ?sm target \<longleftrightarrow>
      (\<forall>q s. map_find (task_states ?sm) q = Some s \<longrightarrow> s = target)"
    by (rule all_tasks_in_state_iff) (use assms(3) in simp)
  with w' assms(3,4) show ?thesis
    by (intro exI [of _ "all_tasks_in_state ?sm target"] exI [of _ w'] exI [of _ ?sm]) simp
qed

lemma mark_ok:
  assumes "tasks w p = Some t" "derived_part t = DerivedStateManager sm" "map_sorted (task_states sm)"
    and "tasks w a = Some u" "a \<noteq> p" "p \<noteq> nullptr"
    and "mq_good (Suc n) (message_queue u)" "mq_room (message_queue u)"
  shows "\<exists>w' q sm'. mark_task_as_unresponsive p a w = Inr w' \<and> broker w' = broker w \<and>
    tasks w' = (tasks w)(a \<mapsto> u\<lparr>message_queue := q\<rparr>, p \<mapsto> t\<lparr>derived_part := DerivedStateManager sm'\<rparr>) \<and>
    mq_good n q \<and> pending_msgs q = pq_insert (state_msg p ERROR) (pending_msgs (message_queue u)) \<and>
    mq_capacity q = mq_capacity (message_queue u) \<and> map_sorted (task_states sm') \<and>
    map_find (task_states sm') = (map_find (task_states sm))(a \<mapsto> ERROR) \<and>
    target_state sm' = target_state sm \<and> next_block w' = next_block w"
proof -
  obtain q where q: "enqueue (message_queue u) (state_msg p ERROR) = Inr q" "mq_good n q"
    "pending_msgs q = pq_insert (state_msg p ERROR) (pending_msgs (message_queue u))"
    "mq_capacity q = mq_capacity (message_queue u)"
    using mq.post_ok [OF assms(7)] assms(8) unfolding mq_room_def by blast
  let ?sm = "sm\<lparr>task_states := map_assign a ERROR (task_states sm)\<rparr>"
  define w1 where "w1 = world_log LOG_ERROR (name t) (''Task '' @ name u @
           '' marked as unresponsive, setting to '' @ task_state_to_string ERROR) w"
  define w2 where "w2 = put_task a (u\<lparr>message_queue := q\<rparr>)
    (world_log MSG_TRAFFIC (name t) (msg_str (state_msg p ERROR)) w1)"
  have w1: "tasks w1 = tasks w" "broker w1 = broker w" by (simp_all add: w1_def)
  have w2: "tasks w2 = (tasks w)(a \<mapsto> u\<lparr>message_queue := q\<rparr>)" "broker w2 = broker w" "next_block w2 = next_block w"
    by (simp_all add: w2_def w1_def)
  have nm: "sender_name w1 (state_msg p ERROR) = Inr (name t)"
    using assms(1,6) by (simp add: sender_name_def w1)
  have deliver: "deliver_message a (state_msg p ERROR) w1 = Inr w2"
    using deliver_message_eq [OF nm, of a u] assms(4) q(1) by (simp add: w1 w2_def)
  have sm: "get_sm w p = Inr (t, sm)" "get_sm w2 p = Inr (t, sm)"
    using assms(1,2,5) w2 by simp_all
  have "mark_task_as_unresponsive p a w = Inr (put_sm p t ?sm w2)"
    unfolding mark_task_as_unresponsive_def sm get_task_simps(1) [OF assms(4)] res_bind_simps
      split_conv Let_def w1_def [symmetric] Msg_new_state deliver ..
  with q assms(3) w2 show ?thesis
    by (intro exI [of _ "put_sm p t ?sm w2"] exI [of _ q] exI [of _ ?sm]) (simp add: put_sm_def)
qed

section \<open>Properties of the state manager\<close>

text \<open>C21: A state change is broadcast: requesting a transition posts one \<open>StateMsg\<close> with the new
  state to every live subscriber of state messages and changes nothing else of any task but the
  manager's own record of the state. The \<open>current_state\<close> that \<open>get_current_state\<close> returns is another
  member, of the base class, and keeps its value.\<close>

theorem state_change_is_broadcast:
  assumes "broker_ok w" "initialized (broker w)" "tasks w p = Some t" "owned t"
    and "derived_part t = DerivedStateManager sm" "subscribers_ready n Type_StateMsg w"
  shows "\<exists>w' t'. request_state_transition p s w = Inr w' \<and> broker_ok w' \<and>
    (\<forall>a. rel_option (delivered n (state_msg p s) (a \<in> set (live_subscribers w Type_StateMsg)))
       (((tasks w)(p \<mapsto> t\<lparr>derived_part := DerivedStateManager (sm\<lparr>sm_current_state := Some s\<rparr>)\<rparr>)) a) (tasks w' a)) \<and>
    tasks w' p = Some t' \<and> get_current_state t' = get_current_state t"
proof -
  let ?t = "t\<lparr>derived_part := DerivedStateManager (sm\<lparr>sm_current_state := Some s\<rparr>)\<rparr>"
  obtain w' where w': "transition_to_state p s w = Inr w'" "broker_ok w'"
    "\<And>a. rel_option (delivered n (state_msg p s) (a \<in> set (live_subscribers w Type_StateMsg)))
       (((tasks w)(p \<mapsto> ?t)) a) (tasks w' a)"
    using sm_transition_ok [OF assms] by metis
  from w'(3) [of p] obtain t' where "tasks w' p = Some t'" "current_state t' = current_state t"
    by (auto simp: option_rel_Some1 delivered_def split: if_splits)
  with w' show ?thesis unfolding request_state_transition_def by blast
qed

text \<open>A state manager at address 8, for the examples.\<close>

lemma example_manager:
  "\<exists>w t. broker_ok w \<and> initialized (broker w) \<and> tasks w = [8 \<mapsto> t] \<and> owned t \<and>
     derived_part t = DerivedStateManager sm \<and> (\<forall>n < 2 ^ 32. mq_good n (message_queue t)) \<and>
     mq_room (message_queue t) \<and> (\<forall>ty. live_subscribers w ty = [])"
proof -
  obtain w t where sys: "one_task_system w t" using example_world by blast
  let ?t = "t\<lparr>derived_part := DerivedStateManager sm\<rparr>" and ?w = "put_task 8 (t\<lparr>derived_part := DerivedStateManager sm\<rparr>) w"
  have t: "tasks w 8 = Some t" "broker_ok w" using sys by (simp_all add: one_task_system_def)
  have "broker_ok ?w" by (rule broker_ok_put_task [OF t(2,1)]) simp
  moreover have "live_subscribers ?w ty = []" for ty
    using live_subscribers_put_task [OF t(1), of ?t] sys by (simp add: one_task_system_def)
  ultimately show ?thesis
    using sys one_task_room [OF sys] by (intro exI [of _ ?w] exI [of _ ?t]) (simp add: one_task_system_def)
qed

theorem state_change_is_broadcast_witness:
  "\<exists>w w' t'. request_state_transition 8 RUNNING w = Inr w' \<and> tasks w' 8 = Some t' \<and>
     (\<exists>t. tasks w 8 = Some t \<and> current_state t' = current_state t)"
proof -
  obtain w t where w: "broker_ok w" "initialized (broker w)" "tasks w = [8 \<mapsto> t]" "owned t"
    "derived_part t = DerivedStateManager StateManager_new" "live_subscribers w Type_StateMsg = []"
    using example_manager [of StateManager_new] by blast
  have t: "tasks w 8 = Some t" "subscribers_ready 0 Type_StateMsg w"
    using w(3,6) by (simp_all add: subscribers_ready_def)
  from state_change_is_broadcast [OF w(1,2) t(1) w(4,5) t(2), of RUNNING] t(1) show ?thesis by blast
qed

text \<open>C22: An acknowledgement from a registered task is recorded: the state manager stores the
  acknowledged state for exactly that task, keeps its map in order, and notifies the waiting
  \<open>demand_state_transition\<close> exactly if now every registered task is in the target state.\<close>

theorem acknowledgment_recorded:
  assumes "tasks w p = Some t" "derived_part t = DerivedStateManager sm" "map_sorted (task_states sm)"
    and "target_state sm = Some target" "msg_data m = StateAckMsg b" "get_sender m \<noteq> nullptr"
    and "map_find (task_states sm) (get_sender m) \<noteq> None" "tasks w (get_sender m) \<noteq> None"
  shows "\<exists>notified w' sm'. handle_acknowledgment p m w = Inr (notified, w') \<and>
    tasks w' = (tasks w)(p \<mapsto> t\<lparr>derived_part := DerivedStateManager sm'\<rparr>) \<and>
    map_find (task_states sm') = (map_find (task_states sm))(get_sender m \<mapsto> state_of_byte b) \<and>
    map_sorted (task_states sm') \<and> target_state sm' = Some target \<and>
    (notified \<longleftrightarrow> (\<forall>q s. map_find (task_states sm') q = Some s \<longrightarrow> s = target))"
  using acknowledgment_ok [OF assms] by blast

theorem acknowledgment_recorded_witness:
  "\<exists>w w'. handle_acknowledgment 8 (ack_msg 8 RUNNING) w = Inr (True, w')"
proof -
  let ?sm = "StateManager_new\<lparr>task_states := [(8, IDLE)], target_state := Some RUNNING\<rparr>"
  obtain w :: World and t :: Task where w: "tasks w = [8 \<mapsto> t]" "derived_part t = DerivedStateManager ?sm"
    using example_manager [of ?sm] by blast
  have pre: "tasks w 8 = Some t" "map_sorted (task_states ?sm)" "target_state ?sm = Some RUNNING"
    "get_sender (ack_msg 8 RUNNING) \<noteq> nullptr"
    "map_find (task_states ?sm) (get_sender (ack_msg 8 RUNNING)) \<noteq> None"
    "tasks w (get_sender (ack_msg 8 RUNNING)) \<noteq> None"
    using w(1) by (simp_all add: map_sorted_def)
  from acknowledgment_recorded [OF pre(1) w(2) pre(2,3) ack_msg_simps(3) pre(4-6)]
  obtain notified w' and sm' :: StateManager where ack: "handle_acknowledgment 8 (ack_msg 8 RUNNING) w = Inr (notified, w')"
    and find: "map_find (task_states sm') = (map_find (task_states ?sm))(get_sender (ack_msg 8 RUNNING) \<mapsto>
      state_of_byte (byte_of_state RUNNING))"
    and iff: "notified \<longleftrightarrow> (\<forall>q s. map_find (task_states sm') q = Some s \<longrightarrow> s = RUNNING)"
    by blast
  have "notified" unfolding iff find by simp
  with ack show ?thesis by auto
qed

text \<open>An acknowledgement that names no registered task as its sender, or has no payload of its
  type, is dropped: only the logger sees it, and nobody is notified.\<close>

lemma acknowledgment_rejected:
  assumes "tasks w p = Some t" "derived_part t = DerivedStateManager sm"
    and "get_sender m = nullptr \<or> map_find (task_states sm) (get_sender m) = None \<or>
      get_data_as Type_StateAckMsg m = None"
  shows "\<exists>w'. handle_acknowledgment p m w = Inr (False, w') \<and> tasks w' = tasks w \<and> broker w' = broker w"
  using assms by (auto simp: handle_acknowledgment_def Let_def known_sender_iff)

text \<open>C31: \<open>request_state_transition\<close> never sets the target state. On a manager on which no
  transition was demanded yet, the first acknowledgement of a registered task therefore compares
  the recorded states with an uninitialised member.\<close>

theorem request_leaves_target_indeterminate:
  assumes "broker_ok w" "initialized (broker w)" "tasks w p = Some t" "owned t"
    and "derived_part t = DerivedStateManager sm" "subscribers_ready n Type_StateMsg w"
    and "target_state sm = None" "map_find (task_states sm) a \<noteq> None" "tasks w a \<noteq> None"
  shows "\<exists>w'. request_state_transition p s w = Inr w' \<and>
    handle_acknowledgment p (ack_msg a s) w' = Inl (UB ''read of an indeterminate value'')"
proof -
  let ?sm = "sm\<lparr>sm_current_state := Some s\<rparr>"
  let ?t = "t\<lparr>derived_part := DerivedStateManager ?sm\<rparr>"
  obtain w' where w': "transition_to_state p s w = Inr w'" "broker_ok w'"
    "\<And>x. rel_option (delivered n (state_msg p s) (x \<in> set (live_subscribers w Type_StateMsg)))
       (((tasks w)(p \<mapsto> ?t)) x) (tasks w' x)"
    using sm_transition_ok [OF assms(1-6)] by metis
  from w'(3) [of p] obtain t' where t': "tasks w' p = Some t'" "derived_part t' = DerivedStateManager ?sm"
    by (auto simp: option_rel_Some1 delivered_def split: if_splits)
  from w'(3) [of a] assms(9) obtain u where u: "tasks w' a = Some u"
    by (cases "a = p") (auto simp: option_rel_Some1)
  have "a \<noteq> nullptr" using broker_ok_nullptr [OF w'(2) u] .
  moreover have "get_data_as Type_StateAckMsg (ack_msg a s) = Some (StateAckMsg (byte_of_state s))"
    by (simp add: get_data_as_def)
  moreover have "get_task (put_sm p t' x w') a \<noteq> Inl e" for x e
    using u by (simp add: put_sm_def get_task_def)
  ultimately have "handle_acknowledgment p (ack_msg a s) w' = Inl (UB ''read of an indeterminate value'')"
    using t' u assms(7,8)
    by (auto simp: handle_acknowledgment_def Let_def known_sender_iff put_sm_def get_task_def)
  with w'(1) show ?thesis unfolding request_state_transition_def by blast
qed

theorem request_leaves_target_indeterminate_witness:
  "\<exists>w w'. request_state_transition 8 RUNNING w = Inr w' \<and>
     handle_acknowledgment 8 (ack_msg 8 RUNNING) w' = Inl (UB ''read of an indeterminate value'')"
proof -
  let ?sm = "StateManager_new\<lparr>task_states := [(8, NOT_STARTED)]\<rparr>"
  obtain w t where w: "broker_ok w" "initialized (broker w)" "tasks w = [8 \<mapsto> t]" "owned t"
    "derived_part t = DerivedStateManager ?sm" "live_subscribers w Type_StateMsg = []"
    using example_manager [of ?sm] by blast
  have pre: "tasks w 8 = Some t" "subscribers_ready 0 Type_StateMsg w" "target_state ?sm = None"
    "map_find (task_states ?sm) 8 \<noteq> None" "tasks w 8 \<noteq> None"
    using w(3,6) by (simp_all add: subscribers_ready_def StateManager_new_def)
  from request_leaves_target_indeterminate [OF w(1,2) pre(1) w(4,5) pre(2-5), of RUNNING]
  show ?thesis by blast
qed

text \<open>C23: The outcome of a demanded transition: when the wait ends, \<open>demand_state_transition\<close>
  answers true exactly if all registered tasks are recorded in the new state, and then changes
  nothing; otherwise it answers false after logging the timeout and one line for each task that
  is in another state, in the order of the map.\<close>

theorem demand_outcome:
  assumes "tasks w p = Some t" "derived_part t = DerivedStateManager sm"
    and "\<forall>q \<in> fst ` set (task_states sm). tasks w q \<noteq> None"
  shows "\<exists>w'. demand_end p s w = Inr (\<forall>e \<in> set (task_states sm). snd e = s, w') \<and> tasks w' = tasks w \<and>
    broker w' = broker w \<and>
    log_texts w' = log_texts w @
      (if (\<forall>e \<in> set (task_states sm). snd e = s) \<or> LOG_ERROR < min_level (logger w) then []
       else (''Timeout waiting for tasks to state transition to '' @ task_state_to_string s) #
         map (lagging_text w) (filter (\<lambda>e. snd e \<noteq> s) (task_states sm)))"
proof (cases "all_tasks_in_state sm s")
  case True
  with assms show ?thesis by (simp add: demand_end_def flip: all_tasks_in_state_values)
next
  case False
  let ?w1 = "world_log LOG_ERROR (name t)
    (''Timeout waiting for tasks to state transition to '' @ task_state_to_string s) w"
  have lag: "lagging_text ?w1 = lagging_text w" by (simp add: fun_eq_iff lagging_text_def)
  have "\<forall>q \<in> fst ` set (task_states sm). tasks ?w1 q \<noteq> None" using assms(3) by simp
  from report_lagging_ok [OF this, of "name t" s] obtain w' where
    "report_lagging (name t) s (task_states sm) ?w1 = Inr w'" "tasks w' = tasks w" "broker w' = broker w"
    "log_texts w' = log_texts ?w1 @ (if LOG_ERROR < min_level (logger w) then []
      else map (lagging_text w) (filter (\<lambda>e. snd e \<noteq> s) (task_states sm)))"
    unfolding lag by auto
  with False assms(1,2) show ?thesis
    by (simp add: demand_end_def log_texts_world_log flip: all_tasks_in_state_values)
qed

theorem demand_outcome_witness:
  "\<exists>w w'. demand_end 8 RUNNING w = Inr (False, w') \<and> tasks w' = tasks w"
proof -
  let ?sm = "StateManager_new\<lparr>task_states := [(8, IDLE)]\<rparr>"
  obtain w :: World and t :: Task where w: "tasks w = [8 \<mapsto> t]" "derived_part t = DerivedStateManager ?sm"
    using example_manager [of ?sm] by blast
  have "tasks w 8 = Some t" "\<forall>q \<in> fst ` set (task_states ?sm). tasks w q \<noteq> None"
    using w(1) by simp_all
  from demand_outcome [OF this(1) w(2) this(2), of RUNNING] show ?thesis by auto
qed

text \<open>A user task at address 8 and a state manager at address 16, for the examples.\<close>

definition pair_system :: "World \<Rightarrow> Task \<Rightarrow> Task \<Rightarrow> StateManager \<Rightarrow> bool" where
  "pair_system w u t sm \<longleftrightarrow> broker_ok w \<and> initialized (broker w) \<and> tasks w = [8 \<mapsto> u, 16 \<mapsto> t] \<and>
     owned u \<and> owned t \<and> derived_part u = UserTask \<and> derived_part t = DerivedStateManager sm \<and>
     (\<forall>n < 2 ^ 32. mq_good n (message_queue u) \<and> mq_good n (message_queue t)) \<and>
     pending_msgs (message_queue u) = [] \<and> pending_msgs (message_queue t) = [] \<and>
     mq_room (message_queue u) \<and> mq_room (message_queue t) \<and> \<not> running t \<and>
     clocks w = (\<lambda>_. example_clock) \<and> (\<forall>ty. live_subscribers w ty = [])"

lemma example_pair: "\<exists>w u t. pair_system w u t sm"
proof -
  obtain w u where sys: "one_task_system w u" using example_world by blast
  then have w: "broker_ok w" "tasks w 16 = None" by (simp_all add: one_task_system_def)
  let ?t = "u\<lparr>derived_part := DerivedStateManager sm\<rparr>"
  let ?w = "make_shared 16 ?t w"
  have "broker_ok ?w" by (rule broker_ok_make_shared [OF w(1) _ w(2)]) simp
  moreover have "live_subscribers ?w ty = []" for ty
    using live_make_shared [OF w] sys by (simp add: one_task_system_def)
  ultimately have "pair_system ?w u (?t\<lparr>control_block := next_block w, owned := True\<rparr>) sm"
    using sys one_task_room [OF sys] by (simp add: pair_system_def one_task_system_def make_shared_def)
  then show ?thesis by blast
qed

end
