(* ===== verification/Heart_Beat.thy ===== *)
theory Heart_Beat
  imports State_Manager
begin

text \<open>
  The heartbeat task of \<^verbatim>\<open>heart_beat.h\<close> and \<^verbatim>\<open>heart_beat.cpp\<close>: it sends numbered heartbeats to the
  monitored tasks, matches the acknowledgements and has the state manager mark the tasks that do
  not answer in time. The loops over the map hold the heartbeat task's mutex, so they are given as
  functions on its entries that also change the rest of the system.
\<close>

section \<open>Creation\<close>

definition HeartBeatTask_new :: "ptr \<Rightarrow> int \<Rightarrow> HeartBeatTask" where
  "HeartBeatTask_new sm timeout_ms = \<lparr>monitored_tasks = [], state_manager = sm,
     response_timeout_ms = timeout_ms, next_heartbeat_id = 1, unresponsive_action = ERROR\<rparr>"

definition HeartBeatTask_on_initialize :: "ptr \<Rightarrow> World \<Rightarrow> World result" where
  "HeartBeatTask_on_initialize this w =
     res_bind (safe_subscribe this Type_StateMsg w) (\<lambda>w1.
     res_bind (safe_subscribe this Type_HeartbeatAckMsg w1) (\<lambda>w2.
     res_bind (get_hb w2 this) (\<lambda>(t, hb).
     if state_manager hb \<noteq> nullptr
     then res_bind (shared_from_this w2 this) (\<lambda>self.
          set_task_registration_observer (state_manager hb) self w2)
     else Inr w2)))"

text \<open>\<open>HeartBeatTask::create\<close>: \<open>this\<close> and \<open>base\<close> are the addresses of the object and of its pool.\<close>

definition HeartBeatTask_create ::
  "ptr \<Rightarrow> ptr \<Rightarrow> string \<Rightarrow> ptr \<Rightarrow> int \<Rightarrow> int \<Rightarrow> World \<Rightarrow> World result" where
  "HeartBeatTask_create this base nm sm heartbeat_interval_ms timeout_ms w =
     res_bind (Task_new nm base 64 (DerivedHeartBeat (HeartBeatTask_new sm timeout_ms))) (\<lambda>t.
     HeartBeatTask_on_initialize this
       (make_shared this (set_periodic_task_interval heartbeat_interval_ms t) w))"

definition set_unresponsive_action :: "ptr \<Rightarrow> TaskState \<Rightarrow> World \<Rightarrow> World result" where
  "set_unresponsive_action this action w =
     res_bind (get_hb w this) (\<lambda>(t, hb). Inr (put_hb this t (hb\<lparr>unresponsive_action := action\<rparr>) w))"

section \<open>Timeouts\<close>

definition handle_unresponsive_task :: "ptr \<Rightarrow> ptr \<Rightarrow> World \<Rightarrow> World result" where
  "handle_unresponsive_task this task w =
     res_bind (get_hb w this) (\<lambda>(t, hb).
     if state_manager hb \<noteq> nullptr then mark_task_as_unresponsive (state_manager hb) task w
     else Inr w)"

definition timed_out :: "HeartBeatTask \<Rightarrow> int \<Rightarrow> TaskStatus \<Rightarrow> bool" where
  "timed_out hb now status \<longleftrightarrow> awaiting_response status \<and>
     duration_ms (now - last_heartbeat_time status) > response_timeout_ms hb"

fun check_loop ::
  "ptr \<Rightarrow> int \<Rightarrow> (ptr, TaskStatus) std_map \<Rightarrow> World \<Rightarrow> ((ptr, TaskStatus) std_map \<times> World) result" where
  "check_loop this now [] w = Inr ([], w)"
| "check_loop this now ((task, status) # rest) w =
     res_bind (get_hb w this) (\<lambda>(t, hb).
     if timed_out hb now status
     then res_bind (get_task w task) (\<lambda>u.
          let w1 = world_log WARN (name t) (''Task '' @ name u @ '' failed to respond to Heartbeat ID: '' @
                to_string (last_heartbeat_id status) @ '' Taking action: '' @
                task_state_to_string (unresponsive_action hb)) w
          in res_bind (handle_unresponsive_task this task w1) (\<lambda>w2.
             res_bind (check_loop this now rest w2) (\<lambda>(es, w3).
             Inr ((task, status\<lparr>awaiting_response := False\<rparr>) # es, w3))))
     else res_bind (check_loop this now rest w) (\<lambda>(es, w1). Inr ((task, status) # es, w1)))"

text \<open>Writing the entries back; the loops run under the mutex that guards the map.\<close>

definition store_entries :: "ptr \<Rightarrow> (ptr, TaskStatus) std_map \<times> World \<Rightarrow> World result" where
  "store_entries this r =
     res_bind (get_hb (snd r) this) (\<lambda>(t, hb).
     Inr (put_hb this t (hb\<lparr>monitored_tasks := fst r\<rparr>) (snd r)))"

definition check_for_timeouts :: "ptr \<Rightarrow> World \<Rightarrow> World result" where
  "check_for_timeouts this w =
     res_bind (get_hb w this) (\<lambda>(t, hb).
     let (current_time, w1) = steady_clock_now w
     in res_bind (check_loop this current_time (monitored_tasks hb) w1) (store_entries this))"

section \<open>Heartbeats\<close>

text \<open>The post-increment of the 32-bit counter.\<close>

definition generate_heartbeat_id :: "ptr \<Rightarrow> World \<Rightarrow> (uint32_t \<times> World) result" where
  "generate_heartbeat_id this w =
     res_bind (get_hb w this) (\<lambda>(t, hb).
     Inr (next_heartbeat_id hb, put_hb this t (hb\<lparr>next_heartbeat_id := next_heartbeat_id hb + 1\<rparr>) w))"

fun send_loop ::
  "ptr \<Rightarrow> (ptr, TaskStatus) std_map \<Rightarrow> World \<Rightarrow> ((ptr, TaskStatus) std_map \<times> World) result" where
  "send_loop this [] w = Inr ([], w)"
| "send_loop this ((task, status) # rest) w =
     (if \<not> awaiting_response status
      then let (current_time, w1) = steady_clock_now w
           in res_bind (generate_heartbeat_id this w1) (\<lambda>(heartbeat_id, w2).
              let timestamp = word_of_int (duration_ms current_time)
              in res_bind (Msg_new this (HeartbeatMsg heartbeat_id timestamp)) (\<lambda>heartbeat_msg.
                 let status' = status\<lparr>awaiting_response := True, last_heartbeat_id := heartbeat_id,
                       last_heartbeat_time := current_time\<rparr>
                 in res_bind (deliver_message task heartbeat_msg w2) (\<lambda>w3.
                    res_bind (send_loop this rest w3) (\<lambda>(es, w4). Inr ((task, status') # es, w4)))))
      else res_bind (send_loop this rest w) (\<lambda>(es, w1). Inr ((task, status) # es, w1)))"

definition send_heartbeat :: "ptr \<Rightarrow> World \<Rightarrow> World result" where
  "send_heartbeat this w =
     res_bind (get_hb w this) (\<lambda>(t, hb).
     res_bind (send_loop this (monitored_tasks hb) w) (store_entries this))"

text \<open>\<open>HeartBeatTask::periodic_task_process\<close>\<close>

definition HeartBeatTask_periodic :: "ptr \<Rightarrow> World \<Rightarrow> World result" where
  "HeartBeatTask_periodic this w =
     res_bind (check_for_timeouts this w) (\<lambda>w1.
     res_bind (get_task w1 this) (\<lambda>t.
     if get_current_state t = RUNNING then send_heartbeat this w1 else Inr w1))"

section \<open>Messages\<close>

text \<open>
  \<open>HeartBeatTask::handle_acknowledgment\<close>: the loop stops at the entry of the sender, so it is a
  lookup.
\<close>

definition HeartBeatTask_handle_acknowledgment :: "ptr \<Rightarrow> Msg \<Rightarrow> World \<Rightarrow> World result" where
  "HeartBeatTask_handle_acknowledgment this m w =
     res_bind (get_hb w this) (\<lambda>(t, hb).
     let ack = get_data_as Type_HeartbeatAckMsg m;
         sender_raw = get_sender m
     in case map_find (monitored_tasks hb) sender_raw of
          None \<Rightarrow> Inr w
        | Some status \<Rightarrow>
            (case ack of
               None \<Rightarrow> Inl (UB ''dereference of a null payload'')
             | Some a \<Rightarrow>
                 if last_heartbeat_id status = ha_orig_unique_id a
                 then let (now, w1) = steady_clock_now w;
                          status' = status\<lparr>awaiting_response := False, last_response_time := now\<rparr>;
                          w2 = put_hb this t (hb\<lparr>monitored_tasks :=
                            map_assign sender_raw status' (monitored_tasks hb)\<rparr>) w1
                      in res_bind (get_task w2 sender_raw) (\<lambda>u.
                         Inr (world_log INFO (name t) (''Received Heartbeat ACK from '' @ name u @
                           '' for Heartbeat ID: '' @ to_string (ha_orig_unique_id a) @ '' at time: '' @
                           to_string (ha_ack_timestamp a)) w2))
                 else Inr w))"

definition HeartBeatTask_process_message :: "ptr \<Rightarrow> Msg \<Rightarrow> World \<Rightarrow> World result" where
  "HeartBeatTask_process_message this m w =
     (case get_type m of
        Type_StateMsg \<Rightarrow>
          (case get_data_as Type_StateMsg m of
             None \<Rightarrow> Inl (UB ''dereference of a null payload'')
           | Some d \<Rightarrow> transition_to_state this (state_of_byte (sm_state d)) w)
      | Type_HeartbeatAckMsg \<Rightarrow> HeartBeatTask_handle_acknowledgment this m w
      | _ \<Rightarrow>
          res_bind (get_task w this) (\<lambda>t.
          Inr (world_log LOG_ERROR (name t)
            (''Unhandled message type: '' @ msg_type_to_string (get_type m)) w)))"

section \<open>The loop over the timeouts\<close>

text \<open>The monitored tasks exist, are other tasks than the two managers and can take a message.\<close>

definition monitor_ok :: "nat \<Rightarrow> ptr set \<Rightarrow> World \<Rightarrow> (ptr, TaskStatus) std_map \<Rightarrow> bool" where
  "monitor_ok n managers w es \<longleftrightarrow> distinct (map fst es) \<and> fst ` set es \<inter> managers = {} \<and>
     (\<forall>a \<in> fst ` set es. \<exists>u. tasks w a = Some u \<and>
        mq_good (Suc n) (message_queue u) \<and> mq_room (message_queue u))"

lemma monitor_ok_Cons:
  "monitor_ok n managers w ((a, st) # es) \<longleftrightarrow>
     a \<notin> fst ` set es \<and> a \<notin> managers \<and>
     (\<exists>u. tasks w a = Some u \<and> mq_good (Suc n) (message_queue u) \<and> mq_room (message_queue u)) \<and>
     monitor_ok n managers w es"
  by (auto simp: monitor_ok_def)

lemma monitor_ok_cong:
  "monitor_ok n managers w es \<Longrightarrow> (\<And>a. a \<in> fst ` set es \<Longrightarrow> tasks w' a = tasks w a) \<Longrightarrow>
     monitor_ok n managers w' es"
  by (simp add: monitor_ok_def)

text \<open>
  The specification of a late task: its answer is awaited, and since its heartbeat more whole
  milliseconds have passed than the timeout allows.
\<close>

definition overdue :: "HeartBeatTask \<Rightarrow> int \<Rightarrow> TaskStatus \<Rightarrow> bool" where
  "overdue hb now st \<longleftrightarrow>
     awaiting_response st \<and> response_timeout_ms hb < duration_ms (now - last_heartbeat_time st)"

lemma timed_out_iff [simp]: "timed_out hb now st \<longleftrightarrow> overdue hb now st"
  by (simp add: timed_out_def overdue_def)

text \<open>The tasks that are late, and their entries afterwards.\<close>

definition late :: "HeartBeatTask \<Rightarrow> int \<Rightarrow> (ptr, TaskStatus) std_map \<Rightarrow> ptr set" where
  "late hb now es = fst ` set (filter (\<lambda>(a, st). overdue hb now st) es)"

definition checked :: "HeartBeatTask \<Rightarrow> int \<Rightarrow> ptr \<times> TaskStatus \<Rightarrow> ptr \<times> TaskStatus" where
  "checked hb now e =
     (fst e, if overdue hb now (snd e) then (snd e)\<lparr>awaiting_response := False\<rparr> else snd e)"

lemma late_simps [simp]:
  "late hb now [] = {}"
  "late hb now ((a, st) # es) = (if overdue hb now st then insert a (late hb now es) else late hb now es)"
  by (simp_all add: late_def)

lemma late_subset: "late hb now es \<subseteq> fst ` set es"
  by (auto simp: late_def)

lemma check_loop_ok:
  assumes "tasks w p = Some t" "derived_part t = DerivedHeartBeat hb" "state_manager hb = q" "q \<noteq> nullptr"
    and "q \<noteq> p" "tasks w q = Some s" "derived_part s = DerivedStateManager sm" "map_sorted (task_states sm)"
    and "monitor_ok n {p, q} w es"
  shows "\<exists>w' sm'. check_loop p now es w = Inr (map (checked hb now) es, w') \<and> broker w' = broker w \<and>
    tasks w' q = Some (s\<lparr>derived_part := DerivedStateManager sm'\<rparr>) \<and> map_sorted (task_states sm') \<and>
    map_find (task_states sm') = (\<lambda>a. if a \<in> late hb now es then Some ERROR else map_find (task_states sm) a) \<and>
    (\<forall>a. a \<noteq> q \<longrightarrow> rel_option (delivered n (state_msg q ERROR) (a \<in> late hb now es)) (tasks w a) (tasks w' a)) \<and>
    target_state sm' = target_state sm \<and> next_block w' = next_block w"
  using assms
proof (induction es arbitrary: w s sm)
  case Nil
  then show ?case
    by (intro exI [of _ w] exI [of _ sm]) (auto simp: delivered_def option.rel_refl)
next
  case (Cons e es)
  obtain a st where e: "e = (a, st)" by (cases e)
  note w = Cons.prems(1-8)
  from Cons.prems(9) obtain u where u: "a \<notin> fst ` set es" "a \<noteq> p" "a \<noteq> q" "tasks w a = Some u"
    "mq_good (Suc n) (message_queue u)" "mq_room (message_queue u)" "monitor_ok n {p, q} w es"
    by (auto simp: e monitor_ok_Cons)
  show ?case
  proof (cases "overdue hb now st")
    case False
    from Cons.IH [OF w u(7)] False w(1,2) show ?thesis by (auto simp: e checked_def)
  next
    case True
    define w1 where "w1 = world_log WARN (name t) (''Task '' @ name u @ '' failed to respond to Heartbeat ID: '' @
        to_string (last_heartbeat_id st) @ '' Taking action: '' @ task_state_to_string (unresponsive_action hb)) w"
    have w1: "tasks w1 = tasks w" "broker w1 = broker w" "next_block w1 = next_block w" by (simp_all add: w1_def)
    have "\<exists>w2 x sm1. mark_task_as_unresponsive q a w1 = Inr w2 \<and> broker w2 = broker w1 \<and>
      tasks w2 = (tasks w1)(a \<mapsto> u\<lparr>message_queue := x\<rparr>, q \<mapsto> s\<lparr>derived_part := DerivedStateManager sm1\<rparr>) \<and>
      mq_good n x \<and> pending_msgs x = pq_insert (state_msg q ERROR) (pending_msgs (message_queue u)) \<and>
      mq_capacity x = mq_capacity (message_queue u) \<and> map_sorted (task_states sm1) \<and>
      map_find (task_states sm1) = (map_find (task_states sm))(a \<mapsto> ERROR) \<and>
      target_state sm1 = target_state sm \<and> next_block w2 = next_block w1"
      by (rule mark_ok) (use w u w1 in simp_all)
    then obtain w2 x sm1 where w2: "mark_task_as_unresponsive q a w1 = Inr w2" "broker w2 = broker w"
      "tasks w2 = (tasks w)(a \<mapsto> u\<lparr>message_queue := x\<rparr>, q \<mapsto> s\<lparr>derived_part := DerivedStateManager sm1\<rparr>)"
      "mq_good n x" "pending_msgs x = pq_insert (state_msg q ERROR) (pending_msgs (message_queue u))"
      "mq_capacity x = mq_capacity (message_queue u)" "map_sorted (task_states sm1)"
      "map_find (task_states sm1) = (map_find (task_states sm))(a \<mapsto> ERROR)"
      "target_state sm1 = target_state sm" "next_block w2 = next_block w"
      unfolding w1 by blast
    have "monitor_ok n {p, q} w2 es"
      by (rule monitor_ok_cong [OF u(7)]) (use u(1,7) w2(3) in \<open>auto simp: monitor_ok_def\<close>)
    with Cons.IH [of w2 "s\<lparr>derived_part := DerivedStateManager sm1\<rparr>" sm1] w u w2
    obtain w' sm' where w': "check_loop p now es w2 = Inr (map (checked hb now) es, w')"
      "broker w' = broker w" "tasks w' q = Some (s\<lparr>derived_part := DerivedStateManager sm'\<rparr>)"
      "map_sorted (task_states sm')"
      "map_find (task_states sm') = (\<lambda>b. if b \<in> late hb now es then Some ERROR else map_find (task_states sm1) b)"
      "\<And>b. b \<noteq> q \<Longrightarrow> rel_option (delivered n (state_msg q ERROR) (b \<in> late hb now es)) (tasks w2 b) (tasks w' b)"
      "target_state sm' = target_state sm" "next_block w' = next_block w"
      by auto
    have "handle_unresponsive_task p a w1 = Inr w2"
      using w w1 w2(1) by (simp add: handle_unresponsive_task_def)
    then have "check_loop p now (e # es) w = Inr (map (checked hb now) (e # es), w')"
      using w(1,2) True u(4) w'(1) by (simp add: e checked_def Let_def w1_def)
    moreover have "rel_option (delivered n (state_msg q ERROR) (b \<in> late hb now (e # es))) (tasks w b) (tasks w' b)"
      if "b \<noteq> q" for b
    proof (cases "b = a")
      case True
      have "a \<notin> late hb now es" using late_subset u(1) by blast
      with w'(6) [OF that] True u(3) w2(3) have "tasks w' a = Some (u\<lparr>message_queue := x\<rparr>)"
        by (simp add: delivered_def option_rel_Some1)
      with True u(4) w2(4-6) \<open>overdue hb now st\<close> show ?thesis by (auto simp: e delivered_def)
    next
      case False
      with w'(6) [OF that] w2(3) that True show ?thesis by (simp add: e)
    qed
    ultimately show ?thesis
      using w'(2-5,7,8) w2(8) True by (intro exI [of _ w'] exI [of _ sm']) (auto simp: e)
  qed
qed

lemma check_for_timeouts_ok:
  assumes "tasks w p = Some t" "derived_part t = DerivedHeartBeat hb" "state_manager hb = q" "q \<noteq> nullptr"
    and "q \<noteq> p" "tasks w q = Some s" "derived_part s = DerivedStateManager sm" "map_sorted (task_states sm)"
    and "monitor_ok n {p, q} w (monitored_tasks hb)"
    and "now = steady_now (clocks w (clock_reads w))"
  shows "\<exists>w' sm'. check_for_timeouts p w = Inr w' \<and> broker w' = broker w \<and>
    tasks w' p = Some (t\<lparr>derived_part := DerivedHeartBeat
      (hb\<lparr>monitored_tasks := map (checked hb now) (monitored_tasks hb)\<rparr>)\<rparr>) \<and>
    tasks w' q = Some (s\<lparr>derived_part := DerivedStateManager sm'\<rparr>) \<and>
    map_find (task_states sm') =
      (\<lambda>a. if a \<in> late hb now (monitored_tasks hb) then Some ERROR else map_find (task_states sm) a) \<and>
    (\<forall>a. a \<noteq> p \<and> a \<noteq> q \<longrightarrow>
      rel_option (delivered n (state_msg q ERROR) (a \<in> late hb now (monitored_tasks hb))) (tasks w a) (tasks w' a)) \<and>
    map_sorted (task_states sm') \<and> target_state sm' = target_state sm \<and> next_block w' = next_block w"
proof -
  let ?es = "monitored_tasks hb"
  define w1 where "w1 = snd (steady_clock_now w)"
  have clk: "steady_clock_now w = (now, w1)" using assms(10) by (simp add: steady_clock_now_def w1_def)
  have w1: "tasks w1 p = Some t" "tasks w1 q = Some s" "tasks w1 = tasks w" "broker w1 = broker w"
    "next_block w1 = next_block w"
    using assms(1,6) by (simp_all add: w1_def)
  have mon: "monitor_ok n {p, q} w1 ?es" by (rule monitor_ok_cong [OF assms(9)]) (simp add: w1)
  obtain w2 sm' where w2: "check_loop p now ?es w1 = Inr (map (checked hb now) ?es, w2)"
    "broker w2 = broker w1" "tasks w2 q = Some (s\<lparr>derived_part := DerivedStateManager sm'\<rparr>)"
    "map_find (task_states sm') = (\<lambda>a. if a \<in> late hb now ?es then Some ERROR else map_find (task_states sm) a)"
    "\<And>a. a \<noteq> q \<Longrightarrow> rel_option (delivered n (state_msg q ERROR) (a \<in> late hb now ?es)) (tasks w1 a) (tasks w2 a)"
    "map_sorted (task_states sm')" "target_state sm' = target_state sm" "next_block w2 = next_block w1"
    using check_loop_ok [OF w1(1) assms(2-5) w1(2) assms(7,8) mon, of now] by blast
  have "p \<notin> fst ` set ?es" using assms(9) by (auto simp: monitor_ok_def)
  then have "p \<notin> late hb now ?es" using late_subset by blast
  with w2(5) [of p] w1(1) assms(5) have p: "tasks w2 p = Some t"
    by (simp add: delivered_def option_rel_Some1)
  have "check_for_timeouts p w = Inr (put_hb p t (hb\<lparr>monitored_tasks := map (checked hb now) ?es\<rparr>) w2)"
    using assms(1,2) w2(1) p by (simp add: check_for_timeouts_def clk store_entries_def)
  with w2 w1(3-5) assms(5) show ?thesis
    by (intro exI [of _ "put_hb p t (hb\<lparr>monitored_tasks := map (checked hb now) ?es\<rparr>) w2"] exI [of _ sm'])
      (simp add: put_hb_def)
qed

section \<open>The loop over the heartbeats\<close>

text \<open>The heartbeat that the status of a task describes.\<close>

definition beat_msg :: "ptr \<Rightarrow> TaskStatus \<Rightarrow> Msg" where
  "beat_msg p st = \<lparr>sending_task = p,
     msg_data = HeartbeatMsg (last_heartbeat_id st) (word_of_int (duration_ms (last_heartbeat_time st))),
     msg_priority = 50, msg_type = Type_HeartbeatMsg\<rparr>"

text \<open>
  What the loop does with one entry: nothing while an answer is awaited; otherwise the new status
  awaits an answer and describes a heartbeat that was posted to the task.
\<close>

definition beaten :: "nat \<Rightarrow> ptr \<Rightarrow> World \<Rightarrow> World \<Rightarrow> ptr \<times> TaskStatus \<Rightarrow> ptr \<times> TaskStatus \<Rightarrow> bool" where
  "beaten n p w w' e e' \<longleftrightarrow> fst e' = fst e \<and>
     (if awaiting_response (snd e) then snd e' = snd e \<and> tasks w' (fst e) = tasks w (fst e)
      else awaiting_response (snd e') \<and> last_response_time (snd e') = last_response_time (snd e) \<and>
        rel_option (delivered n (beat_msg p (snd e')) True) (tasks w (fst e)) (tasks w' (fst e)))"

definition idle :: "(ptr, TaskStatus) std_map \<Rightarrow> (ptr, TaskStatus) std_map" where
  "idle es = filter (\<lambda>e. \<not> awaiting_response (snd e)) es"

text \<open>The numbers of the heartbeats that were sent.\<close>

definition sent_ids :: "(ptr, TaskStatus) std_map \<Rightarrow> (ptr, TaskStatus) std_map \<Rightarrow> uint32_t list" where
  "sent_ids es es' = map (\<lambda>(e, e'). last_heartbeat_id (snd e'))
     (filter (\<lambda>(e, e'). \<not> awaiting_response (snd e)) (zip es es'))"

lemma numbers_Cons:
  "(i :: uint32_t) # map (\<lambda>k. (i + 1) + of_nat k) [0..<m] = map (\<lambda>k. i + of_nat k) [0..<Suc m]"
  by (simp add: upt_conv_Cons map_Suc_upt [symmetric] del: upt_Suc)

lemma send_one:
  assumes "tasks w p = Some t" "derived_part t = DerivedHeartBeat hb" "p \<noteq> nullptr" "a \<noteq> p"
    and "tasks w a = Some u" "mq_good (Suc n) (message_queue u)" "mq_room (message_queue u)"
    and "\<not> awaiting_response st"
  obtains w3 x st' where "\<And>rest. send_loop p ((a, st) # rest) w =
      res_bind (send_loop p rest w3) (\<lambda>(es, w4). Inr ((a, st') # es, w4))"
    "tasks w3 = (tasks w)(a \<mapsto> u\<lparr>message_queue := x\<rparr>, p \<mapsto> t\<lparr>derived_part :=
       DerivedHeartBeat (hb\<lparr>next_heartbeat_id := next_heartbeat_id hb + 1\<rparr>)\<rparr>)"
    "broker w3 = broker w" "delivered n (beat_msg p st') True u (u\<lparr>message_queue := x\<rparr>)"
    "awaiting_response st'" "last_response_time st' = last_response_time st"
    "last_heartbeat_id st' = next_heartbeat_id hb"
proof -
  define now where "now = fst (steady_clock_now w)"
  define w1 where "w1 = snd (steady_clock_now w)"
  let ?t = "t\<lparr>derived_part := DerivedHeartBeat (hb\<lparr>next_heartbeat_id := next_heartbeat_id hb + 1\<rparr>)\<rparr>"
  define w2 where "w2 = put_task p ?t w1"
  let ?st = "st\<lparr>awaiting_response := True, last_heartbeat_id := next_heartbeat_id hb, last_heartbeat_time := now\<rparr>"
  have w1: "tasks w1 = tasks w" "broker w1 = broker w" by (simp_all add: w1_def)
  have gen: "generate_heartbeat_id p w1 = Inr (next_heartbeat_id hb, w2)"
    using assms(1,2) w1 by (simp add: generate_heartbeat_id_def put_hb_def w2_def)
  have msg: "Msg_new p (HeartbeatMsg (next_heartbeat_id hb) (word_of_int (duration_ms now))) = Inr (beat_msg p ?st)"
    by (simp add: Msg_new_eq beat_msg_def message_priorities_def message_types_def)
  obtain x where x: "enqueue (message_queue u) (beat_msg p ?st) = Inr x" "mq_good n x"
    "pending_msgs x = pq_insert (beat_msg p ?st) (pending_msgs (message_queue u))"
    "mq_capacity x = mq_capacity (message_queue u)"
    using mq.post_ok [OF assms(6)] assms(7) unfolding mq_room_def by blast
  define w3 where "w3 = put_task a (u\<lparr>message_queue := x\<rparr>)
    (world_log MSG_TRAFFIC (name t) (msg_str (beat_msg p ?st)) w2)"
  have nm: "sender_name w2 (beat_msg p ?st) = Inr (name t)"
    using assms(3) by (simp add: sender_name_def beat_msg_def get_sender_def w2_def)
  have deliver: "deliver_message a (beat_msg p ?st) w2 = Inr w3"
    using deliver_message_eq [OF nm, of a u] assms(4,5) x(1) by (simp add: w2_def w1 w3_def)
  have clk: "steady_clock_now w = (now, w1)" by (simp add: now_def w1_def)
  show ?thesis
  proof (rule that [of w3 ?st x])
    fix rest
    show "send_loop p ((a, st) # rest) w =
        res_bind (send_loop p rest w3) (\<lambda>(es, w4). Inr ((a, ?st) # es, w4))"
      using assms(8) by (simp add: clk gen msg deliver Let_def)
  next
    show "tasks w3 = (tasks w)(a \<mapsto> u\<lparr>message_queue := x\<rparr>, p \<mapsto> ?t)"
      using assms(4) by (simp add: w3_def w2_def w1 fun_upd_twist)
    show "delivered n (beat_msg p ?st) True u (u\<lparr>message_queue := x\<rparr>)"
      using x by (auto simp: delivered_def)
  qed (simp_all add: w3_def w2_def w1)
qed

lemma send_loop_ok:
  assumes "tasks w p = Some t" "derived_part t = DerivedHeartBeat hb" "p \<noteq> nullptr" "monitor_ok n {p} w es"
  shows "\<exists>es' w'. send_loop p es w = Inr (es', w') \<and> broker w' = broker w \<and>
    tasks w' p = Some (t\<lparr>derived_part := DerivedHeartBeat
      (hb\<lparr>next_heartbeat_id := next_heartbeat_id hb + of_nat (length (idle es))\<rparr>)\<rparr>) \<and>
    list_all2 (beaten n p w w') es es' \<and>
    sent_ids es es' = map (\<lambda>i. next_heartbeat_id hb + of_nat i) [0..<length (idle es)] \<and>
    (\<forall>b. b \<noteq> p \<and> b \<notin> fst ` set es \<longrightarrow> tasks w' b = tasks w b)"
  using assms
proof (induction es arbitrary: w t hb)
  case Nil
  moreover have "t\<lparr>derived_part := DerivedHeartBeat (hb\<lparr>next_heartbeat_id := next_heartbeat_id hb\<rparr>)\<rparr> = t"
    using Nil by simp
  ultimately show ?case by (simp add: idle_def sent_ids_def)
next
  case (Cons e es)
  obtain a st where e: "e = (a, st)" by (cases e)
  from Cons.prems(4) obtain u where u: "a \<notin> fst ` set es" "a \<noteq> p" "tasks w a = Some u"
    "mq_good (Suc n) (message_queue u)" "mq_room (message_queue u)" "monitor_ok n {p} w es"
    by (auto simp: e monitor_ok_Cons)
  have weaken: "list_all2 (beaten n p w w') es es'"
    if "list_all2 (beaten n p v w') es es'" "\<And>b. b \<in> fst ` set es \<Longrightarrow> tasks v b = tasks w b" for v w' es'
    using that(1) by (rule list.rel_mono_strong) (use that(2) [OF imageI] in \<open>auto simp: beaten_def split: if_splits\<close>)
  show ?case
  proof (cases "awaiting_response st")
    case True
    from Cons.IH [OF Cons.prems(1-3) u(6)] obtain es' w' where w': "send_loop p es w = Inr (es', w')"
      "broker w' = broker w"
      "tasks w' p = Some (t\<lparr>derived_part := DerivedHeartBeat
        (hb\<lparr>next_heartbeat_id := next_heartbeat_id hb + of_nat (length (idle es))\<rparr>)\<rparr>)"
      "list_all2 (beaten n p w w') es es'"
      "sent_ids es es' = map (\<lambda>i. next_heartbeat_id hb + of_nat i) [0..<length (idle es)]"
      "\<And>b. b \<noteq> p \<Longrightarrow> b \<notin> fst ` set es \<Longrightarrow> tasks w' b = tasks w b" by blast
    have "idle (e # es) = idle es" "sent_ids (e # es) ((a, st) # es') = sent_ids es es'"
      using True by (simp_all add: e idle_def sent_ids_def)
    moreover have "beaten n p w w' e (a, st)" using True w'(6) u(1,2) by (simp add: e beaten_def)
    moreover have "send_loop p (e # es) w = Inr ((a, st) # es', w')" using True w'(1) by (simp add: e)
    ultimately show ?thesis using w' by (intro exI [of _ "(a, st) # es'"] exI [of _ w']) (simp add: e)
  next
    case False
    let ?hb = "hb\<lparr>next_heartbeat_id := next_heartbeat_id hb + 1\<rparr>"
    let ?t = "t\<lparr>derived_part := DerivedHeartBeat ?hb\<rparr>"
    obtain w3 x st' where w3: "\<And>rest. send_loop p ((a, st) # rest) w =
        res_bind (send_loop p rest w3) (\<lambda>(es, w4). Inr ((a, st') # es, w4))"
      "tasks w3 = (tasks w)(a \<mapsto> u\<lparr>message_queue := x\<rparr>, p \<mapsto> ?t)" "broker w3 = broker w"
      "delivered n (beat_msg p st') True u (u\<lparr>message_queue := x\<rparr>)" "awaiting_response st'"
      "last_response_time st' = last_response_time st" "last_heartbeat_id st' = next_heartbeat_id hb"
      using send_one [OF Cons.prems(1-3) u(2-5) False] by metis
    have same: "tasks w3 b = tasks w b" if "b \<in> fst ` set es" for b
      using that u(1,6) w3(2) by (auto simp: monitor_ok_def)
    have "monitor_ok n {p} w3 es" by (rule monitor_ok_cong [OF u(6)]) (rule same)
    with Cons.IH [of w3 ?t ?hb] w3(2) Cons.prems(3) obtain es' w' where
      w': "send_loop p es w3 = Inr (es', w')" "broker w' = broker w3"
      "tasks w' p = Some (?t\<lparr>derived_part := DerivedHeartBeat
        (?hb\<lparr>next_heartbeat_id := next_heartbeat_id hb + 1 + of_nat (length (idle es))\<rparr>)\<rparr>)"
      "list_all2 (beaten n p w3 w') es es'"
      "sent_ids es es' = map (\<lambda>i. next_heartbeat_id hb + 1 + of_nat i) [0..<length (idle es)]"
      "\<And>b. b \<noteq> p \<Longrightarrow> b \<notin> fst ` set es \<Longrightarrow> tasks w' b = tasks w3 b" by auto
    have len: "length (idle (e # es)) = Suc (length (idle es))" using False by (simp add: e idle_def)
    have "sent_ids (e # es) ((a, st') # es') = next_heartbeat_id hb # sent_ids es es'"
      using False w3(7) by (simp add: e sent_ids_def)
    then have ids: "sent_ids (e # es) ((a, st') # es') =
        map (\<lambda>i. next_heartbeat_id hb + of_nat i) [0..<length (idle (e # es))]"
      unfolding len w'(5) by (simp only: numbers_Cons)
    have "tasks w' a = Some (u\<lparr>message_queue := x\<rparr>)" using w'(6) [of a] u(1,2) w3(2) by simp
    then have "beaten n p w w' e (a, st')" using False u(3) w3(4-6) by (simp add: e beaten_def)
    moreover have "list_all2 (beaten n p w w') es es'" by (rule weaken [OF w'(4) same])
    moreover have "send_loop p (e # es) w = Inr ((a, st') # es', w')" using w3(1) w'(1) by (simp add: e)
    moreover have "tasks w' b = tasks w b" if "b \<noteq> p" "b \<notin> fst ` set (e # es)" for b
      using w'(6) [of b] that w3(2) by (simp add: e)
    ultimately show ?thesis
      using w'(2,3) w3(3) ids len
      by (intro exI [of _ "(a, st') # es'"] exI [of _ w']) (simp add: add.assoc)
  qed
qed

lemma distinct_numbers: "m < 2 ^ 32 \<Longrightarrow> distinct (map (\<lambda>i. (k :: uint32_t) + of_nat i) [0..<m])"
proof -
  assume small: "m < 2 ^ 32"
  have "inj_on (\<lambda>i. k + of_nat i) {0..<m}"
  proof (rule inj_onI)
    fix i j
    assume ij: "i \<in> {0..<m}" "j \<in> {0..<m}" and "k + of_nat i = k + of_nat j"
    then have "unat (of_nat i :: uint32_t) = unat (of_nat j :: uint32_t)" by simp
    with ij small show "i = j" by (simp add: unat_of_nat_no_wrap del: unsigned_of_nat)
  qed
  then show ?thesis by (simp add: distinct_map)
qed

lemma send_heartbeat_ok:
  assumes "tasks w p = Some t" "derived_part t = DerivedHeartBeat hb" "p \<noteq> nullptr"
    and "monitor_ok n {p} w (monitored_tasks hb)"
  shows "\<exists>es' w'. send_heartbeat p w = Inr w' \<and> broker w' = broker w \<and>
    tasks w' p = Some (t\<lparr>derived_part := DerivedHeartBeat (hb\<lparr>monitored_tasks := es',
      next_heartbeat_id := next_heartbeat_id hb + of_nat (length (idle (monitored_tasks hb)))\<rparr>)\<rparr>) \<and>
    list_all2 (beaten n p w w') (monitored_tasks hb) es' \<and>
    sent_ids (monitored_tasks hb) es' =
      map (\<lambda>i. next_heartbeat_id hb + of_nat i) [0..<length (idle (monitored_tasks hb))] \<and>
    (\<forall>b. b \<noteq> p \<and> b \<notin> fst ` set (monitored_tasks hb) \<longrightarrow> tasks w' b = tasks w b)"
proof -
  let ?es = "monitored_tasks hb"
  let ?hb = "hb\<lparr>next_heartbeat_id := next_heartbeat_id hb + of_nat (length (idle ?es))\<rparr>"
  obtain es' w' where w': "send_loop p ?es w = Inr (es', w')" "broker w' = broker w"
    "tasks w' p = Some (t\<lparr>derived_part := DerivedHeartBeat ?hb\<rparr>)" "list_all2 (beaten n p w w') ?es es'"
    "sent_ids ?es es' = map (\<lambda>i. next_heartbeat_id hb + of_nat i) [0..<length (idle ?es)]"
    "\<And>b. b \<noteq> p \<Longrightarrow> b \<notin> fst ` set ?es \<Longrightarrow> tasks w' b = tasks w b"
    using send_loop_ok [OF assms(1-4)] by blast
  let ?w = "put_hb p (t\<lparr>derived_part := DerivedHeartBeat ?hb\<rparr>) (?hb\<lparr>monitored_tasks := es'\<rparr>) w'"
  have eq: "send_heartbeat p w = Inr ?w"
    using assms(1,2) w'(1,3) by (simp add: send_heartbeat_def store_entries_def)
  have "p \<notin> fst ` set ?es" using assms(4) by (auto simp: monitor_ok_def)
  then have "list_all2 (beaten n p w ?w) ?es es'"
    using w'(4) by (intro list.rel_mono_strong [OF w'(4)]) (auto simp: beaten_def put_hb_def split: if_splits)
  then show ?thesis
    using eq w' by (intro exI [of _ es'] exI [of _ ?w]) (simp add: put_hb_def)
qed

lemma heartbeat_ack_ok:
  assumes "tasks w p = Some t" "derived_part t = DerivedHeartBeat hb" "map_sorted (monitored_tasks hb)"
    and "msg_data m = HeartbeatAckMsg i ts ack_ts"
    and "\<forall>a \<in> fst ` set (monitored_tasks hb). tasks w a \<noteq> None"
  shows "\<exists>w' hb'. HeartBeatTask_handle_acknowledgment p m w = Inr w' \<and> broker w' = broker w \<and>
    next_block w' = next_block w \<and> map_sorted (monitored_tasks hb') \<and>
    tasks w' = (tasks w)(p \<mapsto> t\<lparr>derived_part := DerivedHeartBeat hb'\<rparr>) \<and>
    (case map_find (monitored_tasks hb) (get_sender m) of
       None \<Rightarrow> hb' = hb
     | Some st \<Rightarrow>
         if last_heartbeat_id st \<noteq> i then hb' = hb
         else \<exists>now. map_find (monitored_tasks hb') = (map_find (monitored_tasks hb))(get_sender m \<mapsto>
                st\<lparr>awaiting_response := False, last_response_time := now\<rparr>) \<and>
              (\<forall>later. get_sender m \<notin> late hb' later (monitored_tasks hb')))"
proof -
  have ack: "get_data_as Type_HeartbeatAckMsg m = Some (HeartbeatAckMsg i ts ack_ts)"
    using assms(4) by (simp add: get_data_as_def)
  have "t\<lparr>derived_part := DerivedHeartBeat hb\<rparr> = t" by (simp add: assms(2) [symmetric])
  with assms(1) have keep: "(tasks w)(p \<mapsto> t\<lparr>derived_part := DerivedHeartBeat hb\<rparr>) = tasks w"
    by (simp add: map_upd_triv)
  show ?thesis
  proof (cases "map_find (monitored_tasks hb) (get_sender m)")
    case None
    then have "HeartBeatTask_handle_acknowledgment p m w = Inr w"
      using assms(1,2) by (simp add: HeartBeatTask_handle_acknowledgment_def Let_def)
    with None keep assms(3) show ?thesis by (intro exI [of _ w] exI [of _ hb]) simp
  next
    case (Some st)
    show ?thesis
    proof (cases "last_heartbeat_id st = i")
      case False
      then have "HeartBeatTask_handle_acknowledgment p m w = Inr w"
        using assms(1,2) Some ack by (simp add: HeartBeatTask_handle_acknowledgment_def Let_def)
      with Some False keep assms(3) show ?thesis by (intro exI [of _ w] exI [of _ hb]) simp
    next
      case True
      define now where "now = fst (steady_clock_now w)"
      define w1 where "w1 = snd (steady_clock_now w)"
      have w1: "tasks w1 = tasks w" "broker w1 = broker w" by (simp_all add: w1_def)
      have clk: "steady_clock_now w = (now, w1)" by (simp add: now_def w1_def)
      let ?st = "st\<lparr>awaiting_response := False, last_response_time := now\<rparr>"
      let ?hb = "hb\<lparr>monitored_tasks := map_assign (get_sender m) ?st (monitored_tasks hb)\<rparr>"
      let ?w2 = "put_hb p t ?hb w1"
      have "get_sender m \<in> fst ` set (monitored_tasks hb)"
        by (rule image_eqI [OF _ map_of_SomeD [OF Some]]) simp
      with assms(5) obtain u where u: "tasks ?w2 (get_sender m) = Some u"
        by (cases "get_sender m = p") (auto simp: put_hb_def w1)
      obtain x where x: "HeartBeatTask_handle_acknowledgment p m w = Inr (world_log INFO (name t) x ?w2)"
        using assms(1,2) Some ack True u
        by (simp add: HeartBeatTask_handle_acknowledgment_def Let_def clk)
      have find: "map_find (monitored_tasks ?hb) = (map_find (monitored_tasks hb))(get_sender m \<mapsto> ?st)"
        using assms(3) by simp
      have "get_sender m \<notin> late ?hb later (monitored_tasks ?hb)" for later
      proof
        assume "get_sender m \<in> late ?hb later (monitored_tasks ?hb)"
        then obtain y where y: "(get_sender m, y) \<in> set (monitored_tasks ?hb)" "overdue ?hb later y"
          by (auto simp: late_def)
        have "map_sorted (monitored_tasks ?hb)" using assms(3) by simp
        from std_map.entries_find [OF this] y(1)
        have "map_find (monitored_tasks ?hb) (get_sender m) = Some y" by blast
        with find have "y = ?st" by simp
        with y(2) show False by (simp add: overdue_def)
      qed
      moreover have "tasks (world_log INFO (name t) x ?w2) = (tasks w)(p \<mapsto> t\<lparr>derived_part := DerivedHeartBeat ?hb\<rparr>)"
        "broker (world_log INFO (name t) x ?w2) = broker w" "next_block (world_log INFO (name t) x ?w2) = next_block w"
        "map_sorted (monitored_tasks ?hb)"
        using assms(3) by (simp_all add: put_hb_def w1 w1_def)
      ultimately show ?thesis
        using x find Some True
        by (intro exI [of _ "world_log INFO (name t) x ?w2"] exI [of _ ?hb]) (simp, blast)
    qed
  qed
qed

section \<open>Properties of the heartbeat task\<close>

text \<open>
  The system of a user task at address 8 and a state manager at address 16, with a heartbeat task
  at address 24, for the examples.
\<close>

definition trio_system :: "World \<Rightarrow> Task \<Rightarrow> Task \<Rightarrow> Task \<Rightarrow> HeartBeatTask \<Rightarrow> bool" where
  "trio_system w u s t hb \<longleftrightarrow> broker_ok w \<and> initialized (broker w) \<and>
     tasks w = [8 \<mapsto> u, 16 \<mapsto> s, 24 \<mapsto> t] \<and> owned u \<and> owned s \<and> owned t \<and> derived_part u = UserTask \<and>
     derived_part s = DerivedStateManager StateManager_new \<and> derived_part t = DerivedHeartBeat hb \<and>
     (\<forall>n < 2 ^ 32. mq_good n (message_queue u) \<and> mq_good n (message_queue s) \<and> mq_good n (message_queue t)) \<and>
     pending_msgs (message_queue u) = [] \<and> pending_msgs (message_queue s) = [] \<and> pending_msgs (message_queue t) = [] \<and>
     mq_room (message_queue u) \<and> mq_room (message_queue s) \<and> mq_room (message_queue t) \<and> \<not> running s \<and>
     clocks w = (\<lambda>_. example_clock) \<and> (\<forall>ty. live_subscribers w ty = [])"

lemma example_trio: "\<exists>w u s t. trio_system w u s t hb"
proof -
  obtain w u s where sys: "pair_system w u s StateManager_new" using example_pair by blast
  then have w: "broker_ok w" "tasks w 24 = None" by (simp_all add: pair_system_def)
  let ?t = "u\<lparr>derived_part := DerivedHeartBeat hb\<rparr>"
  have "broker_ok (make_shared 24 ?t w)" by (rule broker_ok_make_shared [OF w(1) _ w(2)]) simp
  moreover have "live_subscribers (make_shared 24 ?t w) ty = []" for ty
    using live_make_shared [OF w] sys by (simp add: pair_system_def)
  ultimately have "trio_system (make_shared 24 ?t w) u s (?t\<lparr>control_block := next_block w, owned := True\<rparr>) hb"
    using sys by (simp add: trio_system_def pair_system_def make_shared_def)
  then show ?thesis by blast
qed

text \<open>C14: The timeout check marks exactly the late tasks: a monitored task is late when an answer is
  awaited and more than the configured number of milliseconds has passed since its last
  heartbeat. Each late task gets one message that sends it to \<open>ERROR\<close>, the state manager records
  \<open>ERROR\<close> for it and the heartbeat task stops waiting for it; every other task and entry is left
  alone. The configured \<open>unresponsive_action\<close> does not matter: the action is always \<open>ERROR\<close>.\<close>

theorem late_tasks_marked:
  assumes "tasks w p = Some t" "derived_part t = DerivedHeartBeat hb" "state_manager hb = q" "q \<noteq> nullptr"
    and "q \<noteq> p" "tasks w q = Some s" "derived_part s = DerivedStateManager sm" "map_sorted (task_states sm)"
    and "monitor_ok n {p, q} w (monitored_tasks hb)"
    and "now = steady_now (clocks w (clock_reads w))"
  shows "\<exists>w' sm'. check_for_timeouts p w = Inr w' \<and> broker w' = broker w \<and>
    tasks w' p = Some (t\<lparr>derived_part := DerivedHeartBeat
      (hb\<lparr>monitored_tasks := map (checked hb now) (monitored_tasks hb)\<rparr>)\<rparr>) \<and>
    tasks w' q = Some (s\<lparr>derived_part := DerivedStateManager sm'\<rparr>) \<and>
    map_find (task_states sm') =
      (\<lambda>a. if a \<in> late hb now (monitored_tasks hb) then Some ERROR else map_find (task_states sm) a) \<and>
    (\<forall>a. a \<noteq> p \<and> a \<noteq> q \<longrightarrow>
      rel_option (delivered n (state_msg q ERROR) (a \<in> late hb now (monitored_tasks hb))) (tasks w a) (tasks w' a))"
  using check_for_timeouts_ok [OF assms] by blast

theorem late_tasks_marked_witness:
  "\<exists>w w' u'. check_for_timeouts 24 w = Inr w' \<and> tasks w' 8 = Some u' \<and>
     pending_msgs (message_queue u') = [state_msg 16 ERROR]"
proof -
  let ?st = "TaskStatus_new\<lparr>awaiting_response := True, last_heartbeat_time := - 1000000\<rparr>"
  let ?hb = "(HeartBeatTask_new 16 3)\<lparr>monitored_tasks := [(8, ?st)], unresponsive_action := STOPPED\<rparr>"
  obtain w u s t where sys: "trio_system w u s t ?hb" using example_trio by blast
  have pre: "tasks w 24 = Some t" "derived_part t = DerivedHeartBeat ?hb" "state_manager ?hb = 16"
    "(16 :: ptr) \<noteq> nullptr" "(16 :: ptr) \<noteq> 24" "tasks w 16 = Some s"
    "derived_part s = DerivedStateManager StateManager_new" "map_sorted (task_states StateManager_new)"
    "monitor_ok 0 {24, 16} w (monitored_tasks ?hb)" "5000000 = steady_now (clocks w (clock_reads w))"
    using sys by (simp_all add: trio_system_def monitor_ok_def HeartBeatTask_new_def StateManager_new_def
        example_clock_def)
  have late: "late ?hb 5000000 (monitored_tasks ?hb) = {8}"
    by (simp add: overdue_def duration_ms_def HeartBeatTask_new_def)
  obtain w' where w': "check_for_timeouts 24 w = Inr w'"
    "\<forall>a. a \<noteq> 24 \<and> a \<noteq> 16 \<longrightarrow> rel_option (delivered 0 (state_msg 16 ERROR)
       (a \<in> late ?hb 5000000 (monitored_tasks ?hb))) (tasks w a) (tasks w' a)"
    using late_tasks_marked [OF pre] by blast
  have "rel_option (delivered 0 (state_msg 16 ERROR) True) (tasks w 8) (tasks w' 8)"
    using w'(2) [rule_format, of 8] unfolding late by simp
  then obtain u' where "tasks w' 8 = Some u'" "pending_msgs (message_queue u') = [state_msg 16 ERROR]"
    using sys by (auto simp: trio_system_def option_rel_Some1 delivered_def pq_insert_def)
  with w'(1) show ?thesis by blast
qed

text \<open>C16: Sending heartbeats: every monitored task that owes no answer gets exactly one heartbeat,
  whose number and time stamp are recorded in its entry, and the entry now awaits an answer; a
  task that still owes an answer gets none. The numbers are consecutive from the counter on, so
  they are distinct as long as fewer than \<open>2 ^ 32\<close> tasks are monitored.\<close>

theorem heartbeats_sent:
  assumes "tasks w p = Some t" "derived_part t = DerivedHeartBeat hb" "p \<noteq> nullptr"
    and "monitor_ok n {p} w (monitored_tasks hb)" "length (monitored_tasks hb) < 2 ^ 32"
  shows "\<exists>es' w'. send_heartbeat p w = Inr w' \<and> broker w' = broker w \<and>
    tasks w' p = Some (t\<lparr>derived_part := DerivedHeartBeat (hb\<lparr>monitored_tasks := es',
      next_heartbeat_id := next_heartbeat_id hb + of_nat (length (idle (monitored_tasks hb)))\<rparr>)\<rparr>) \<and>
    list_all2 (beaten n p w w') (monitored_tasks hb) es' \<and>
    distinct (sent_ids (monitored_tasks hb) es') \<and>
    (\<forall>b. b \<noteq> p \<and> b \<notin> fst ` set (monitored_tasks hb) \<longrightarrow> tasks w' b = tasks w b)"
proof -
  let ?es = "monitored_tasks hb"
  obtain es' w' where w': "send_heartbeat p w = Inr w'" "broker w' = broker w"
    "tasks w' p = Some (t\<lparr>derived_part := DerivedHeartBeat (hb\<lparr>monitored_tasks := es',
      next_heartbeat_id := next_heartbeat_id hb + of_nat (length (idle ?es))\<rparr>)\<rparr>)"
    "list_all2 (beaten n p w w') ?es es'"
    "sent_ids ?es es' = map (\<lambda>i. next_heartbeat_id hb + of_nat i) [0..<length (idle ?es)]"
    "\<forall>b. b \<noteq> p \<and> b \<notin> fst ` set ?es \<longrightarrow> tasks w' b = tasks w b"
    using send_heartbeat_ok [OF assms(1-4)] by blast
  have "length (idle ?es) \<le> length ?es" by (simp add: idle_def)
  then have "length (idle ?es) < 2 ^ 32" using assms(5) by simp
  then have "distinct (sent_ids ?es es')" unfolding w'(5) by (rule distinct_numbers)
  with w' show ?thesis by blast
qed

theorem heartbeats_sent_witness:
  "\<exists>w w' es'. send_heartbeat 24 w = Inr w' \<and> distinct (sent_ids [(8, TaskStatus_new)] es') \<and>
     list_all2 (beaten 0 24 w w') [(8, TaskStatus_new)] es'"
proof -
  let ?hb = "(HeartBeatTask_new 16 3)\<lparr>monitored_tasks := [(8, TaskStatus_new)]\<rparr>"
  obtain w u s t where sys: "trio_system w u s t ?hb" using example_trio by blast
  have pre: "tasks w 24 = Some t" "derived_part t = DerivedHeartBeat ?hb" "(24 :: ptr) \<noteq> nullptr"
    "monitor_ok 0 {24} w (monitored_tasks ?hb)" "length (monitored_tasks ?hb) < 2 ^ 32"
    using sys by (simp_all add: trio_system_def monitor_ok_def)
  have es: "monitored_tasks ?hb = [(8, TaskStatus_new)]" by simp
  from heartbeats_sent [OF pre, unfolded es] show ?thesis by blast
qed

text \<open>C17: An acknowledgement clears exactly the sender's pending heartbeat: when it carries the
  number of the last heartbeat sent to that task, the entry stops awaiting an answer, so the task
  is not late any more, and keeps its other fields but the response time; with another number, or
  from a task that is not monitored, nothing changes.\<close>

theorem heartbeat_ack_matched:
  assumes "tasks w p = Some t" "derived_part t = DerivedHeartBeat hb" "map_sorted (monitored_tasks hb)"
    and "msg_data m = HeartbeatAckMsg i ts ack_ts"
    and "\<forall>a \<in> fst ` set (monitored_tasks hb). tasks w a \<noteq> None"
  shows "\<exists>w' hb'. HeartBeatTask_handle_acknowledgment p m w = Inr w' \<and> broker w' = broker w \<and>
    tasks w' = (tasks w)(p \<mapsto> t\<lparr>derived_part := DerivedHeartBeat hb'\<rparr>) \<and>
    (case map_find (monitored_tasks hb) (get_sender m) of
       None \<Rightarrow> hb' = hb
     | Some st \<Rightarrow>
         if last_heartbeat_id st \<noteq> i then hb' = hb
         else \<exists>now. map_find (monitored_tasks hb') = (map_find (monitored_tasks hb))(get_sender m \<mapsto>
                st\<lparr>awaiting_response := False, last_response_time := now\<rparr>) \<and>
              (\<forall>later. get_sender m \<notin> late hb' later (monitored_tasks hb')))"
  using heartbeat_ack_ok [OF assms] by blast

theorem heartbeat_ack_matched_witness:
  "\<exists>w w' t'. HeartBeatTask_handle_acknowledgment 24 (example_msg (HeartbeatAckMsg 7 0 0)) w = Inr w' \<and>
     tasks w' 24 = Some t' \<and> (\<exists>hb'. derived_part t' = DerivedHeartBeat hb' \<and>
       (\<forall>later. 8 \<notin> late hb' later (monitored_tasks hb')))"
proof -
  let ?m = "example_msg (HeartbeatAckMsg 7 0 0)"
  let ?st = "TaskStatus_new\<lparr>awaiting_response := True, last_heartbeat_id := 7\<rparr>"
  let ?hb = "(HeartBeatTask_new 16 3)\<lparr>monitored_tasks := [(8, ?st)]\<rparr>"
  obtain w u s t where sys: "trio_system w u s t ?hb" using example_trio by blast
  have pre: "tasks w 24 = Some t" "derived_part t = DerivedHeartBeat ?hb" "map_sorted (monitored_tasks ?hb)"
    "msg_data ?m = HeartbeatAckMsg 7 0 0" "\<forall>a \<in> fst ` set (monitored_tasks ?hb). tasks w a \<noteq> None"
    using sys by (simp_all add: trio_system_def map_sorted_def example_msg_def)
  have m: "get_sender ?m = 8" by (simp add: example_msg_def get_sender_def)
  from heartbeat_ack_matched [OF pre] obtain w' and hb' :: HeartBeatTask where
    "HeartBeatTask_handle_acknowledgment 24 ?m w = Inr w'"
    "tasks w' = (tasks w)(24 \<mapsto> t\<lparr>derived_part := DerivedHeartBeat hb'\<rparr>)"
    "\<forall>later. 8 \<notin> late hb' later (monitored_tasks hb')"
    unfolding m by auto
  then show ?thesis by (intro exI [of _ w] exI [of _ w']) simp
qed

end
