(* ===== verification/System.thy ===== *)
theory System
  imports Heart_Beat
begin

text \<open>
  The system as a whole: the virtual functions resolved by the dynamic class of the object, the
  steps that threads and callers take, and the invariant that holds whatever they do.
\<close>

section \<open>Virtual functions\<close>

text \<open>
  What a program that uses the framework supplies for its own task classes: \<open>process_message\<close> and
  \<open>periodic_task_process\<close>.
\<close>

record user_code =
  user_process :: "ptr \<Rightarrow> Msg \<Rightarrow> World \<Rightarrow> World result"
  user_periodic :: "ptr \<Rightarrow> World \<Rightarrow> World result"

definition process_message :: "user_code \<Rightarrow> ptr \<Rightarrow> Msg \<Rightarrow> World \<Rightarrow> World result" where
  "process_message code this m w =
     res_bind (get_task w this) (\<lambda>t.
     case derived_part t of
       UserTask \<Rightarrow> user_process code this m w
     | DerivedStateManager sm \<Rightarrow> StateManager_process_message this m w
     | DerivedHeartBeat hb \<Rightarrow> HeartBeatTask_process_message this m w)"

text \<open>The state manager inherits the empty \<open>periodic_task_process\<close> of the base class.\<close>

definition periodic_task_process :: "user_code \<Rightarrow> ptr \<Rightarrow> World \<Rightarrow> World result" where
  "periodic_task_process code this w =
     res_bind (get_task w this) (\<lambda>t.
     case derived_part t of
       UserTask \<Rightarrow> user_periodic code this w
     | DerivedStateManager sm \<Rightarrow> Inr w
     | DerivedHeartBeat hb \<Rightarrow> HeartBeatTask_periodic this w)"

text \<open>
  The handler that the project's documentation gives as the pattern for a task: follow state
  messages, answer heartbeats, ignore the rest.
\<close>

definition documented_process :: "ptr \<Rightarrow> Msg \<Rightarrow> World \<Rightarrow> World result" where
  "documented_process this m w =
     (case get_data_as Type_StateMsg m of
        Some d \<Rightarrow> transition_to_state this (state_of_byte (sm_state d)) w
      | None \<Rightarrow>
          (case get_data_as Type_HeartbeatMsg m of
             Some d \<Rightarrow> handle_heartbeat this d w
           | None \<Rightarrow> Inr w))"

definition documented_code :: user_code where
  "documented_code = \<lparr>user_process = documented_process, user_periodic = \<lambda>this w. Inr w\<rparr>"

section \<open>The invariant\<close>

text \<open>The class of the object at an address.\<close>

datatype task_class = UserClass | ManagerClass | HeartBeatClass

fun class_of :: "derived \<Rightarrow> task_class" where
  "class_of UserTask = UserClass"
| "class_of (DerivedStateManager sm) = ManagerClass"
| "class_of (DerivedHeartBeat hb) = HeartBeatClass"

definition class_at :: "World \<Rightarrow> ptr \<Rightarrow> task_class option" where
  "class_at w p = map_option (\<lambda>t. class_of (derived_part t)) (tasks w p)"

text \<open>
  The invariant. Each task object is owned, its queue is well formed, it has a queue thread that has
  not ended while it is running, the maps of the managers are in order and the heartbeat task does
  not monitor itself. The pointers that the managers hold lead to existing objects of the right
  class.
\<close>

definition task_ok :: "Task \<Rightarrow> bool" where
  "task_ok t \<longleftrightarrow> mq_wf (message_queue t) {} \<and> owned t \<and>
     (running t \<longrightarrow> queue_thread t \<noteq> NoThread \<and> queue_thread t \<noteq> AtEnd)"

definition keys_ok :: "(ptr \<Rightarrow> task_class option) \<Rightarrow> (ptr, 'v) std_map \<Rightarrow> bool" where
  "keys_ok cls m \<longleftrightarrow> (\<forall>a \<in> fst ` set m. cls a \<noteq> None)"

fun part_ok :: "(ptr \<Rightarrow> task_class option) \<Rightarrow> ptr \<Rightarrow> derived \<Rightarrow> bool" where
  "part_ok cls p UserTask = True"
| "part_ok cls p (DerivedStateManager sm) =
     (map_sorted (task_states sm) \<and> keys_ok cls (task_states sm) \<and>
      (task_registration_observer sm \<noteq> nullptr \<longrightarrow> cls (task_registration_observer sm) \<noteq> None))"
| "part_ok cls p (DerivedHeartBeat hb) =
     (map_sorted (monitored_tasks hb) \<and> p \<notin> fst ` set (monitored_tasks hb) \<and>
      keys_ok cls (monitored_tasks hb) \<and>
      (state_manager hb \<noteq> nullptr \<longrightarrow> cls (state_manager hb) = Some ManagerClass))"

definition world_ok :: "World \<Rightarrow> bool" where
  "world_ok w \<longleftrightarrow> broker_ok w \<and>
     (\<forall>p t. tasks w p = Some t \<longrightarrow> task_ok t \<and> part_ok (class_at w) p (derived_part t))"

lemma world_ok_task: "world_ok w \<Longrightarrow> tasks w p = Some t \<Longrightarrow> task_ok t"
  by (simp add: world_ok_def)

lemma world_ok_part: "world_ok w \<Longrightarrow> tasks w p = Some t \<Longrightarrow> part_ok (class_at w) p (derived_part t)"
  by (simp add: world_ok_def)

lemma world_ok_broker: "world_ok w \<Longrightarrow> broker_ok w"
  by (simp add: world_ok_def)

lemma keys_ok_simps [simp]:
  "keys_ok cls []" "keys_ok cls (map_assign a v m) \<longleftrightarrow> cls a \<noteq> None \<and> keys_ok cls m"
  by (auto simp: keys_ok_def fst_map_assign)

lemma keys_ok_map_fst: "map fst m' = map fst m \<Longrightarrow> keys_ok cls m' = keys_ok cls m"
  by (simp add: keys_ok_def flip: set_map)

lemma keys_okD: "keys_ok cls m \<Longrightarrow> map_find m a \<noteq> None \<Longrightarrow> cls a \<noteq> None"
  by (auto simp: keys_ok_def map_of_eq_None_iff)

lemma class_at_None: "class_at w p = None \<longleftrightarrow> tasks w p = None"
  by (simp add: class_at_def)

lemma class_at_Some [simp]: "tasks w p = Some t \<Longrightarrow> class_at w p = Some (class_of (derived_part t))"
  by (simp add: class_at_def)

lemma class_at_cong: "tasks w' = tasks w \<Longrightarrow> class_at w' = class_at w"
  by (simp add: class_at_def fun_eq_iff)

lemma class_at_world_log [simp]: "class_at (world_log l c x w) = class_at w"
  by (rule class_at_cong) simp

lemma class_at_steady [simp]: "class_at (snd (steady_clock_now w)) = class_at w"
  by (rule class_at_cong) simp

lemma class_at_put_task [simp]:
  "tasks w p = Some t \<Longrightarrow> class_of (derived_part t') = class_of (derived_part t) \<Longrightarrow>
     class_at (put_task p t' w) = class_at w"
  by (auto simp: class_at_def fun_eq_iff)

lemma world_ok_put_task [wf_intros]:
  assumes "world_ok w" "tasks w p = Some t" "control_block t' = control_block t" "task_ok t'"
    and "class_of (derived_part t') = class_of (derived_part t)" "part_ok (class_at w) p (derived_part t')"
  shows "world_ok (put_task p t' w)"
  using assms broker_ok_put_task [of w p t t'] by (auto simp: world_ok_def)

lemma world_ok_cong:
  assumes "world_ok w" "tasks w' = tasks w" "broker w' = broker w" "next_block w' = next_block w"
  shows "world_ok w'"
  using assms broker_ok_cong [of w w'] class_at_cong [of w' w] by (simp add: world_ok_def)

lemma world_ok_world_log [simp, wf_intros]: "world_ok (world_log l c x w) = world_ok w"
  by (metis world_log_simps(1,2,5) world_ok_cong)

lemma world_ok_steady [simp, wf_intros]: "world_ok (snd (steady_clock_now w)) = world_ok w"
  by (metis steady_clock_now_simps(1,2,6) world_ok_cong)

lemma steady_clock_now_world_ok: "steady_clock_now w = (now, w') \<Longrightarrow> world_ok w' = world_ok w"
  by (metis snd_conv world_ok_steady)

section \<open>Every operation keeps the invariant\<close>

text \<open>An operation keeps the invariant when it does so whenever it returns.\<close>

definition keeps :: "(World \<Rightarrow> World result) \<Rightarrow> bool" where
  "keeps f \<longleftrightarrow> (\<forall>w w'. world_ok w \<longrightarrow> f w = Inr w' \<longrightarrow> world_ok w')"

definition keeps_wait :: "(World \<Rightarrow> World wait result) \<Rightarrow> bool" where
  "keeps_wait f \<longleftrightarrow> (\<forall>w w'. world_ok w \<longrightarrow> f w = Inr (Returns w') \<longrightarrow> world_ok w')"

lemma keepsI: "(\<And>w w'. world_ok w \<Longrightarrow> f w = Inr w' \<Longrightarrow> world_ok w') \<Longrightarrow> keeps f"
  by (simp add: keeps_def)

lemma keeps_waitI: "(\<And>w w'. world_ok w \<Longrightarrow> f w = Inr (Returns w') \<Longrightarrow> world_ok w') \<Longrightarrow> keeps_wait f"
  by (simp add: keeps_wait_def)

lemma keepsD: "keeps f \<Longrightarrow> world_ok w \<Longrightarrow> f w = Inr w' \<Longrightarrow> world_ok w'"
  by (simp add: keeps_def)

lemma keeps_waitD: "keeps_wait f \<Longrightarrow> world_ok w \<Longrightarrow> f w = Inr (Returns w') \<Longrightarrow> world_ok w'"
  by (simp add: keeps_wait_def)

subsection \<open>Queues and the broker\<close>

lemma enqueue_keeps_wf:
  assumes "mq_wf q H" "enqueue q m = Inr q'"
  shows "mq_wf q' H"
proof (cases "length (mq_queue q) + card H < mq_capacity q")
  case True
  from enqueue_ok [OF assms(1) True, of m] assms(2) show ?thesis by auto
next
  case False
  with mq_wf_bound [OF assms(1)] enqueue_full [OF assms(1), of m] assms(2) show ?thesis by simp
qed

lemma dequeue_keeps_wf:
  assumes "mq_wf q H" "dequeue q = Inr (Returns (r, q'))"
  shows "mq_wf q' H"
proof (cases "mq_queue q = []")
  case True
  with assms mq_wf_sequence [OF assms(1), of 0] show ?thesis
    by (auto simp: dequeue_empty split: if_splits)
next
  case False
  from dequeue_ok [OF assms(1) False] assms(2) show ?thesis by auto
qed

lemma deliver_message_cases:
  assumes "deliver_message p m w = Inr w'"
  obtains s t q where "tasks w p = Some t" "enqueue (message_queue t) m = Inr q"
    "w' = put_task p (t\<lparr>message_queue := q\<rparr>) (world_log MSG_TRAFFIC s (msg_str m) w)"
  using assms by (auto simp: deliver_message_def Let_def res_bind_eq_Inr)

lemma deliver_message_world_ok [wf_intros]:
  assumes "world_ok w" "deliver_message p m w = Inr w'"
  shows "world_ok w'"
proof -
  from assms(2) obtain s t q where t: "tasks w p = Some t" "enqueue (message_queue t) m = Inr q"
    and w': "w' = put_task p (t\<lparr>message_queue := q\<rparr>) (world_log MSG_TRAFFIC s (msg_str m) w)"
    by (rule deliver_message_cases)
  have ok: "task_ok t" by (rule world_ok_task [OF assms(1) t(1)])
  then have "mq_wf q {}" using enqueue_keeps_wf t(2) by (auto simp: task_ok_def)
  with ok have "task_ok (t\<lparr>message_queue := q\<rparr>)" by (simp add: task_ok_def)
  then show ?thesis
    unfolding w' using assms(1) t(1) world_ok_part [OF assms(1) t(1)]
    by (intro world_ok_put_task) simp_all
qed

lemma deliver_message_frame:
  assumes "deliver_message p m w = Inr w'"
  shows "broker w' = broker w" "next_block w' = next_block w" "weak_lock w' = weak_lock w"
    and "class_at w' = class_at w" "tasks w p \<noteq> None"
proof -
  from assms obtain s t q where t: "tasks w p = Some t"
    and w': "w' = put_task p (t\<lparr>message_queue := q\<rparr>) (world_log MSG_TRAFFIC s (msg_str m) w)"
    by (rule deliver_message_cases)
  show "broker w' = broker w" "next_block w' = next_block w" by (simp_all add: w')
  show "weak_lock w' = weak_lock w"
    using weak_lock_put_task [of "world_log MSG_TRAFFIC s (msg_str m) w" p t] t by (simp add: w')
  show "class_at w' = class_at w"
    using class_at_put_task [of "world_log MSG_TRAFFIC s (msg_str m) w" p t] t by (simp add: w')
  show "tasks w p \<noteq> None" using t by simp
qed

lemma publish_loop_world_ok:
  assumes "publish_loop m subs w = Inr (kept, w')" "world_ok w"
  shows "world_ok w' \<and> broker w' = broker w \<and> next_block w' = next_block w \<and>
    kept = filter (is_live w) subs"
  using assms
proof (induction subs arbitrary: w kept)
  case Nil
  then show ?case by simp
next
  case (Cons wp subs)
  show ?case
  proof (cases "weak_lock w wp")
    case None
    with Cons show ?thesis by (simp add: is_live_def)
  next
    case (Some p)
    with Cons.prems(1) obtain w1 rest where w1: "deliver_message p m w = Inr w1"
      "publish_loop m subs w1 = Inr (rest, w')" "kept = wp # rest"
      by (auto simp: res_bind_eq_Inr)
    from Cons.IH [OF w1(2) deliver_message_world_ok [OF Cons.prems(2) w1(1)]]
      deliver_message_frame [OF w1(1)] w1(3) Some
    show ?thesis by (simp add: is_live_def [abs_def])
  qed
qed

lemma publish_keeps: "keeps (publish m)"
proof (rule keepsI)
  fix w w'
  assume ok: "world_ok w" and "publish m w = Inr w'"
  then obtain subs w1 where w1: "publish_loop m (subscriber_lists (broker w) ! type_index (get_type m)) w = Inr (subs, w1)"
    "w' = set_subscribers (type_index (get_type m)) subs w1"
    by (auto simp: publish_def Let_def res_bind_eq_Inr)
  have p: "world_ok w1" "broker w1 = broker w" "next_block w1 = next_block w"
    "subs = filter (is_live w) (subscriber_lists (broker w) ! type_index (get_type m))"
    using publish_loop_world_ok [OF w1(1) ok] by simp_all
  have b: "broker_ok w1" using p(1) by (rule world_ok_broker)
  have "broker_ok w'"
    unfolding w1(2) by (rule broker_ok_set_subscribers [OF b])
      (use broker_ok_list [OF b] p in auto)
  moreover have "tasks w' = tasks w1" by (simp add: w1(2))
  ultimately show "world_ok w'" using p(1) class_at_cong [of w' w1] by (simp add: world_ok_def)
qed

lemma subscribe_keeps:
  assumes t: "tasks w p = Some t" "owned t" and ok: "world_ok w" and s: "subscribe p ty w = Inr w'"
  shows "world_ok w'"
proof -
  have init: "initialized (broker w)" using s by (auto simp: subscribe_def res_bind_eq_Inr)
  from subscribe_ok [OF world_ok_broker [OF ok] init t, of ty] obtain w1 where
    "subscribe p ty w = Inr w1" "broker_ok w1" "tasks w1 = tasks w" by metis
  with s ok class_at_cong [of w1 w] show "world_ok w'" by (simp add: world_ok_def)
qed

lemma shared_from_this_eq_Inr:
  "shared_from_this w p = Inr q \<longleftrightarrow> q = p \<and> (\<exists>t. tasks w p = Some t \<and> owned t)"
  by (auto simp: shared_from_this_def res_bind_eq_Inr split: if_splits)

lemma safe_publish_keeps [wf_intros]: "keeps (safe_publish p m)"
  by (rule keepsI) (auto simp: safe_publish_def res_bind_eq_Inr intro: keepsD [OF publish_keeps])

lemma safe_subscribe_keeps [wf_intros]: "keeps (safe_subscribe p ty)"
  by (rule keepsI)
    (auto simp: safe_subscribe_def res_bind_eq_Inr shared_from_this_eq_Inr intro: subscribe_keeps)

subsection \<open>Tasks\<close>

lemma world_ok_thread:
  "world_ok w \<Longrightarrow> tasks w p = Some t \<Longrightarrow> running t \<Longrightarrow> queue_thread t \<noteq> NoThread \<and> queue_thread t \<noteq> AtEnd"
  using world_ok_task by (auto simp: task_ok_def)

text \<open>The task object changes in its own fields; its thread goes on unless it is not running.\<close>

lemma world_ok_put_queue:
  assumes "world_ok w" "tasks w p = Some t" "mq_wf (message_queue t') {}"
    and "control_block t' = control_block t" "derived_part t' = derived_part t" "owned t' = owned t"
    and "running t' \<Longrightarrow> running t \<and> queue_thread t' = queue_thread t \<or>
      queue_thread t' \<noteq> NoThread \<and> queue_thread t' \<noteq> AtEnd"
  shows "world_ok (put_task p t' w)"
proof -
  have "task_ok t'"
    using world_ok_task [OF assms(1,2)] assms(3,5-7) by (auto simp: task_ok_def)
  with assms world_ok_part [OF assms(1,2)] show ?thesis by (intro world_ok_put_task) simp_all
qed

lemma world_ok_put_same:
  assumes "world_ok w" "tasks w p = Some t" "control_block t' = control_block t"
    and "message_queue t' = message_queue t" "derived_part t' = derived_part t" "owned t' = owned t"
    and "running t' \<Longrightarrow> running t \<and> queue_thread t' = queue_thread t \<or>
      queue_thread t' \<noteq> NoThread \<and> queue_thread t' \<noteq> AtEnd"
  shows "world_ok (put_task p t' w)"
  using world_ok_task [OF assms(1,2)] assms(3-7)
  by (intro world_ok_put_queue [OF assms(1,2)]) (auto simp: task_ok_def)

lemma Task_transition_keeps [wf_intros]: "keeps (Task_transition_to_state p s)"
proof (rule keepsI)
  fix w w'
  assume ok: "world_ok w" and "Task_transition_to_state p s w = Inr w'"
  then obtain t x where t: "tasks w p = Some t"
    "safe_publish p (ack_msg p s) (world_log INFO (name t) x (put_task p (t\<lparr>current_state := s\<rparr>) w)) = Inr w'"
    by (auto simp: Task_transition_to_state_def Let_def res_bind_eq_Inr)
  have "world_ok (put_task p (t\<lparr>current_state := s\<rparr>) w)" by (rule world_ok_put_same [OF ok t(1)]) simp_all
  then show "world_ok w'" using keepsD [OF safe_publish_keeps _ t(2)] by simp
qed

lemma handle_heartbeat_keeps [wf_intros]: "keeps (handle_heartbeat p d)"
proof (rule keepsI)
  fix w w'
  assume ok: "world_ok w" and call: "handle_heartbeat p d w = Inr w'"
  obtain now w1 where clk: "steady_clock_now w = (now, w1)" by fastforce
  then have "world_ok w1" using ok steady_clock_now_world_ok by simp
  with call clk show "world_ok w'"
    by (auto simp: handle_heartbeat_def res_bind_eq_Inr intro: keepsD [OF safe_publish_keeps])
qed

lemma start_keeps [wf_intros]: "keeps (start p)"
  by (rule keepsI)
    (auto simp: start_def res_bind_eq_Inr split: if_splits intro!: world_ok_put_same)

lemma stop_request_keeps:
  assumes "keeps (transition p STOPPED)"
  shows "keeps (stop_request transition p)"
proof (rule keepsI)
  fix w w'
  assume ok: "world_ok w" and "stop_request transition p w = Inr w'"
  then obtain t w1 t1 where w1: "tasks w p = Some t"
    "transition p STOPPED (put_task p (t\<lparr>running := False\<rparr>) w) = Inr w1" "tasks w1 p = Some t1"
    "w' = put_task p (t1\<lparr>message_queue := notify_shutdown (message_queue t1)\<rparr>) w1"
    by (auto simp: stop_request_def res_bind_eq_Inr)
  have "world_ok (put_task p (t\<lparr>running := False\<rparr>) w)" by (rule world_ok_put_same [OF ok w1(1)]) simp_all
  then have ok1: "world_ok w1" using keepsD [OF assms _ w1(2)] by simp
  then have "mq_wf (message_queue t1) {}" using world_ok_task [OF _ w1(3)] by (auto simp: task_ok_def)
  then have "mq_wf (notify_shutdown (message_queue t1)) {}" by (rule mq_wf_notify_shutdown)
  then show "world_ok w'" unfolding w1(4) by (intro world_ok_put_queue [OF ok1 w1(3)]) simp_all
qed

lemma stop_join_keeps [wf_intros]: "keeps_wait (stop_join p)"
  by (rule keeps_waitI)
    (auto simp: stop_join_def res_bind_eq_Inr split: if_splits intro!: world_ok_put_same dest: world_ok_thread)

lemma stop_keeps:
  assumes "keeps (transition p STOPPED)" "keeps others"
  shows "keeps_wait (stop transition others p)"
proof (rule keeps_waitI)
  fix w w'
  assume ok: "world_ok w" and call: "stop transition others p w = Inr (Returns w')"
  show "world_ok w'"
  proof (cases "w' = w")
    case False
    with call obtain w1 w2 where w: "stop_request transition p w = Inr w1" "others w1 = Inr w2"
      "stop_join p w2 = Inr (Returns w')"
      by (auto simp: stop_def res_bind_eq_Inr split: if_splits)
    have "world_ok w1" by (rule keepsD [OF stop_request_keeps [of transition p, OF assms(1)] ok w(1)])
    then have "world_ok w2" by (rule keepsD [OF assms(2) _ w(2)])
    then show ?thesis by (rule keeps_waitD [OF stop_join_keeps _ w(3)])
  qed (use ok in simp)
qed

lemma set_queue_thread_keeps [wf_intros]: "keeps (set_queue_thread p AtTest)"
  by (rule keepsI) (auto simp: set_queue_thread_def res_bind_eq_Inr intro!: world_ok_put_same)

lemma run_step_keeps:
  assumes "\<And>m. keeps (process p m)"
  shows "keeps_wait (run_step process p)"
proof (rule keeps_waitI)
  fix w w'
  assume ok: "world_ok w" and step: "run_step process p w = Inr (Returns w')"
  then obtain t where t: "tasks w p = Some t" by (auto simp: run_step_def res_bind_eq_Inr)
  have wf: "mq_wf (message_queue t) {}" using world_ok_task [OF ok t] by (simp add: task_ok_def)
  show "world_ok w'"
  proof (cases "queue_thread t")
    case AtTest
    with step t show ?thesis
      by (auto simp: run_step_def intro!: world_ok_put_same [OF ok t])
  next
    case AtDequeue
    with step t obtain d where d: "dequeue (message_queue t) = Inr d"
      by (auto simp: run_step_def res_bind_eq_Inr)
    with step t AtDequeue obtain r q where r: "dequeue (message_queue t) = Inr (Returns (r, q))"
      "\<exists>pc. pc \<noteq> NoThread \<and> pc \<noteq> AtEnd \<and> w' = put_task p (t\<lparr>message_queue := q, queue_thread := pc\<rparr>) w"
      by (cases d) (auto simp: run_step_def split: prod.splits option.splits)
    with dequeue_keeps_wf [OF wf r(1)] show ?thesis by (auto intro!: world_ok_put_queue [OF ok t])
  next
    case (AtProcess m)
    with step t obtain w1 where "process p m w = Inr w1" "set_queue_thread p AtTest w1 = Inr w'"
      by (auto simp: run_step_def res_bind_eq_Inr)
    with keepsD [OF assms ok] keepsD [OF set_queue_thread_keeps] show ?thesis by blast
  qed (use step t in \<open>simp_all add: run_step_def\<close>)
qed

lemma run_periodic_step_keeps:
  assumes "keeps (periodic p)"
  shows "keeps_wait (run_periodic_step periodic p)"
proof (rule keeps_waitI)
  fix w w'
  assume ok: "world_ok w" and step: "run_periodic_step periodic p w = Inr (Returns w')"
  then obtain t where t: "tasks w p = Some t" by (auto simp: run_periodic_step_def res_bind_eq_Inr)
  show "world_ok w'"
  proof (cases "periodic_thread t")
    case AtTest
    with step t show ?thesis
      by (auto simp: run_periodic_step_def intro!: world_ok_put_same [OF ok t])
  next
    case AtPeriodic
    with step t obtain v where v: "periodic p w = Inr v"
      by (auto simp: run_periodic_step_def res_bind_eq_Inr)
    obtain now w2 where clk: "steady_clock_now v = (now, w2)" by fastforce
    from step t AtPeriodic v clk obtain w1 t2 pc where w1: "periodic p w = Inr w1"
      "steady_clock_now w1 = (now, w2)" "tasks w2 p = Some t2"
      "w' = put_task p (t2\<lparr>periodic_thread := pc\<rparr>) w2"
      by (auto simp: run_periodic_step_def res_bind_eq_Inr)
    have "world_ok w2" using keepsD [OF assms ok w1(1)] steady_clock_now_world_ok [OF w1(2)] by simp
    then show ?thesis unfolding w1(4) by (rule world_ok_put_same [OF _ w1(3)]) simp_all
  next
    case (AtSleep next_time)
    obtain now w1 where clk: "steady_clock_now w = (now, w1)" by fastforce
    have ok1: "world_ok w1" "tasks w1 p = Some t"
      using ok t steady_clock_now_world_ok [OF clk] arg_cong [OF clk, of snd] by auto
    from step t AtSleep clk have "w' = (if next_time \<le> now then put_task p (t\<lparr>periodic_thread := AtTest\<rparr>) w1 else w1)"
      by (simp add: run_periodic_step_def)
    with ok1 show ?thesis by (auto intro!: world_ok_put_same [OF ok1])
  qed (use step t in \<open>simp_all add: run_periodic_step_def\<close>)
qed

subsection \<open>The state manager\<close>

lemma get_sm_eq_Inr:
  "get_sm w p = Inr (t, sm) \<longleftrightarrow> tasks w p = Some t \<and> derived_part t = DerivedStateManager sm"
  by (cases "tasks w p") (auto simp: get_sm_def split: derived.splits)

lemma get_hb_eq_Inr:
  "get_hb w p = Inr (t, hb) \<longleftrightarrow> tasks w p = Some t \<and> derived_part t = DerivedHeartBeat hb"
  by (cases "tasks w p") (auto simp: get_hb_def split: derived.splits)

lemma world_ok_sm:
  "world_ok w \<Longrightarrow> get_sm w p = Inr (t, sm) \<Longrightarrow> part_ok (class_at w) p (DerivedStateManager sm)"
  using world_ok_part [of w p t] by (simp add: get_sm_eq_Inr)

lemma world_ok_hb:
  "world_ok w \<Longrightarrow> get_hb w p = Inr (t, hb) \<Longrightarrow> part_ok (class_at w) p (DerivedHeartBeat hb)"
  using world_ok_part [of w p t] by (simp add: get_hb_eq_Inr)

lemma world_ok_put_sm [wf_intros]:
  assumes "world_ok w" "get_sm w p = Inr (t, sm0)" "part_ok (class_at w) p (DerivedStateManager sm)"
  shows "world_ok (put_sm p t sm w)"
  unfolding put_sm_def using assms world_ok_task [of w p t]
  by (intro world_ok_put_task [of w p t]) (simp_all add: get_sm_eq_Inr task_ok_def del: part_ok.simps)

lemma world_ok_put_hb [wf_intros]:
  assumes "world_ok w" "get_hb w p = Inr (t, hb0)" "part_ok (class_at w) p (DerivedHeartBeat hb)"
  shows "world_ok (put_hb p t hb w)"
  unfolding put_hb_def using assms world_ok_task [of w p t]
  by (intro world_ok_put_task [of w p t]) (simp_all add: get_hb_eq_Inr task_ok_def del: part_ok.simps)

lemma class_at_get_sm: "get_sm w p = Inr (t, sm) \<Longrightarrow> class_at w p = Some ManagerClass"
  by (simp add: get_sm_eq_Inr class_at_def)

lemma get_hb_steady [simp]: "get_hb (snd (steady_clock_now w)) p = get_hb w p"
  by (simp add: get_hb_def get_task_def)

lemma set_observer_world_ok:
  assumes "set_task_registration_observer p ob w = Inr w'" "world_ok w" "class_at w ob \<noteq> None"
  shows "world_ok w'"
proof -
  from assms(1) obtain t sm where sm: "get_sm w p = Inr (t, sm)"
    "w' = put_sm p t (sm\<lparr>task_registration_observer := ob\<rparr>) w"
    by (auto simp: set_task_registration_observer_def res_bind_eq_Inr)
  show ?thesis
    unfolding sm(2) by (rule world_ok_put_sm [OF assms(2) sm(1)]) (use world_ok_sm [OF assms(2) sm(1)] assms(3) in simp)
qed

lemma notify_task_registered_world_ok:
  assumes call: "notify_task_registered p a w = Inr w'" and ok: "world_ok w" and a: "class_at w a \<noteq> None"
  shows "world_ok w'"
proof (cases "w' = w")
  case False
  obtain now w1 where clk: "steady_clock_now w = (now, w1)" by fastforce
  have w1: "w1 = snd (steady_clock_now w)" using clk by simp
  from call False clk obtain t hb st where hb: "a \<noteq> p" "get_hb w p = Inr (t, hb)"
    "w' = put_hb p t (hb\<lparr>monitored_tasks := map_assign a st (monitored_tasks hb)\<rparr>) w1"
    by (auto simp: notify_task_registered_def res_bind_eq_Inr Let_def split: if_splits)
  have "world_ok w1" "get_hb w1 p = Inr (t, hb)" "class_at w1 = class_at w" using ok hb(2) by (simp_all add: w1)
  with world_ok_hb [OF ok hb(2)] hb(1) a show ?thesis
    unfolding hb(3) by (intro world_ok_put_hb) (simp_all add: fst_map_assign)
qed (use ok in simp)

lemma notify_observer_world_ok:
  assumes "(if ob \<noteq> nullptr
     then res_bind (get_task w ob) (\<lambda>t. case derived_part t of
            DerivedHeartBeat hb \<Rightarrow> notify_task_registered ob a w | _ \<Rightarrow> Inr w)
     else Inr w) = Inr w'" "world_ok w" "class_at w a \<noteq> None"
  shows "world_ok w'"
proof (cases "tasks w ob")
  case None
  with assms show ?thesis by (simp split: if_splits)
next
  case (Some t)
  with assms notify_task_registered_world_ok [of ob a w w'] show ?thesis
    by (cases "derived_part t") (auto split: if_splits)
qed

lemma register_task_world_ok:
  assumes call: "register_task p a w = Inr w'" and ok: "world_ok w" and a: "class_at w a \<noteq> None"
  shows "world_ok w'"
proof -
  from call obtain t sm where sm: "get_sm w p = Inr (t, sm)" by (auto simp: register_task_def res_bind_eq_Inr)
  let ?w1 = "put_sm p t (sm\<lparr>task_states := map_assign a NOT_STARTED (task_states sm)\<rparr>) w"
  have "world_ok ?w1"
    by (rule world_ok_put_sm [OF ok sm]) (use world_ok_sm [OF ok sm] a in simp)
  moreover have "class_at ?w1 a \<noteq> None"
    using a sm by (simp add: put_sm_def get_sm_eq_Inr)
  ultimately show ?thesis
    by (rule notify_observer_world_ok [OF call [unfolded register_task_def sm res_bind_simps prod.case Let_def]])
qed

lemma StateManager_transition_keeps [wf_intros]: "keeps (StateManager_transition_to_state p s)"
proof (rule keepsI)
  fix w w'
  assume ok: "world_ok w" and "StateManager_transition_to_state p s w = Inr w'"
  then obtain t sm x where sm: "get_sm w p = Inr (t, sm)"
    "safe_publish p (state_msg p s) (put_sm p t (sm\<lparr>sm_current_state := Some s\<rparr>) (world_log INFO (name t) x w)) = Inr w'"
    by (auto simp: StateManager_transition_to_state_def Let_def res_bind_eq_Inr)
  have "world_ok (put_sm p t (sm\<lparr>sm_current_state := Some s\<rparr>) (world_log INFO (name t) x w))"
    using ok sm(1) world_ok_sm [OF ok sm(1)] by (intro world_ok_put_sm) simp_all
  then show "world_ok w'" by (rule keepsD [OF safe_publish_keeps _ sm(2)])
qed

lemma transition_to_state_keeps [wf_intros]: "keeps (transition_to_state p s)"
proof (rule keepsI)
  fix w w'
  assume ok: "world_ok w" and call: "transition_to_state p s w = Inr w'"
  then obtain t where t: "tasks w p = Some t" by (auto simp: transition_to_state_def res_bind_eq_Inr)
  show "world_ok w'"
    using call t keepsD [OF StateManager_transition_keeps ok] keepsD [OF Task_transition_keeps ok]
    by (cases "derived_part t") (auto simp: transition_to_state_def)
qed

lemma demand_begin_keeps [wf_intros]: "keeps (demand_begin p s)"
proof (rule keepsI)
  fix w w'
  assume ok: "world_ok w" and "demand_begin p s w = Inr w'"
  then obtain t sm x where sm: "get_sm w p = Inr (t, sm)"
    "transition_to_state p s (put_sm p t (sm\<lparr>target_state := Some s\<rparr>) (world_log INFO (name t) x w)) = Inr w'"
    by (auto simp: demand_begin_def Let_def res_bind_eq_Inr)
  have "world_ok (put_sm p t (sm\<lparr>target_state := Some s\<rparr>) (world_log INFO (name t) x w))"
    using ok sm(1) world_ok_sm [OF ok sm(1)] by (intro world_ok_put_sm) simp_all
  then show "world_ok w'" by (rule keepsD [OF transition_to_state_keeps _ sm(2)])
qed

lemma report_lagging_world_ok: "report_lagging nm s es w = Inr w' \<Longrightarrow> world_ok w \<Longrightarrow> world_ok w'"
  by (induction es arbitrary: w) (auto simp: res_bind_eq_Inr split: if_splits)

lemma demand_end_world_ok: "demand_end p s w = Inr (b, w') \<Longrightarrow> world_ok w \<Longrightarrow> world_ok w'"
  by (auto simp: demand_end_def res_bind_eq_Inr Let_def split: if_splits dest!: report_lagging_world_ok)

lemma handle_acknowledgment_world_ok:
  assumes "handle_acknowledgment p m w = Inr (b, w')" "world_ok w"
  shows "world_ok w'"
proof -
  from assms(1) obtain t sm where sm: "get_sm w p = Inr (t, sm)"
    by (auto simp: handle_acknowledgment_def res_bind_eq_Inr)
  have "world_ok (put_sm p t (sm\<lparr>task_states := map_assign a s (task_states sm)\<rparr>) w)"
    if "list_ex (\<lambda>(task, s). task = a) (task_states sm)" for a s
    using world_ok_sm [OF assms(2) sm] keys_okD [of "class_at w" "task_states sm" a] that [unfolded known_sender_iff]
    by (intro world_ok_put_sm [OF assms(2) sm]) simp
  with assms sm show ?thesis
    by (auto simp: handle_acknowledgment_def Let_def res_bind_eq_Inr split: if_splits option.splits)
qed

lemma StateManager_process_keeps [wf_intros]: "keeps (StateManager_process_message p m)"
  by (rule keepsI)
    (auto simp: StateManager_process_message_def res_bind_eq_Inr split: if_splits
      dest: handle_acknowledgment_world_ok)

lemma class_at_put_sm [simp]: "get_sm w p = Inr (t, sm0) \<Longrightarrow> class_at (put_sm p t sm w) = class_at w"
  by (simp add: put_sm_def get_sm_eq_Inr)

lemma class_at_put_hb [simp]: "get_hb w p = Inr (t, hb0) \<Longrightarrow> class_at (put_hb p t hb w) = class_at w"
  by (simp add: put_hb_def get_hb_eq_Inr)

lemma mark_world_ok:
  assumes "mark_task_as_unresponsive p a w = Inr w'" "world_ok w"
  shows "world_ok w' \<and> class_at w' = class_at w"
proof -
  from assms(1) obtain nm x w2 t2 sm2 where
    w2: "deliver_message a (state_msg p ERROR) (world_log LOG_ERROR nm x w) = Inr w2"
    "get_sm w2 p = Inr (t2, sm2)"
    "w' = put_sm p t2 (sm2\<lparr>task_states := map_assign a ERROR (task_states sm2)\<rparr>) w2"
    unfolding mark_task_as_unresponsive_def Let_def res_bind_eq_Inr
    by (auto simp: res_bind_eq_Inr simp del: world_log_simps append.simps)
  have ok2: "world_ok w2" by (rule deliver_message_world_ok [OF _ w2(1)]) (use assms(2) in simp)
  have "class_at w2 = class_at w" "class_at w2 a \<noteq> None"
    using deliver_message_frame(4,5) [OF w2(1)] by (simp_all add: class_at_None)
  with world_ok_sm [OF ok2 w2(2)] ok2 w2(2) show ?thesis
    unfolding w2(3) by (intro conjI world_ok_put_sm [OF ok2 w2(2)]) simp_all
qed

subsection \<open>The heartbeat task\<close>

lemma handle_unresponsive_world_ok:
  "handle_unresponsive_task p a w = Inr w' \<Longrightarrow> world_ok w \<Longrightarrow> world_ok w' \<and> class_at w' = class_at w"
  using mark_world_ok by (auto simp: handle_unresponsive_task_def res_bind_eq_Inr split: if_splits)

lemma check_loop_world_ok:
  assumes "check_loop p now es w = Inr (es', w')" "world_ok w"
  shows "world_ok w' \<and> map fst es' = map fst es \<and> class_at w' = class_at w"
  using assms
proof (induction es arbitrary: w es')
  case Nil
  then show ?case by simp
next
  case (Cons e es)
  obtain a st where e: "e = (a, st)" by (cases e)
  from Cons.prems(1) obtain t hb where hb: "get_hb w p = Inr (t, hb)" by (auto simp: e res_bind_eq_Inr)
  show ?case
  proof (cases "overdue hb now st")
    case False
    with Cons.prems hb obtain es1 where "check_loop p now es w = Inr (es1, w')" "es' = (a, st) # es1"
      by (auto simp: e res_bind_eq_Inr)
    with Cons.IH [of w es1] Cons.prems(2) show ?thesis by (simp add: e)
  next
    case True
    with Cons.prems hb obtain x w2 es1 st' where w2: "handle_unresponsive_task p a (world_log WARN (name t) x w) = Inr w2"
      "check_loop p now es w2 = Inr (es1, w')" "es' = (a, st') # es1"
      by (auto simp: e res_bind_eq_Inr Let_def)
    have "world_ok w2 \<and> class_at w2 = class_at w"
      using handle_unresponsive_world_ok [OF w2(1)] Cons.prems(2) by simp
    with Cons.IH [OF w2(2)] w2(3) show ?thesis by (simp add: e)
  qed
qed

lemma store_entries_world_ok:
  assumes "store_entries p (es', w) = Inr w'" "world_ok w" "map fst es' = map fst es"
    and "map_sorted es" "p \<notin> fst ` set es" "keys_ok (class_at w) es"
  shows "world_ok w'"
proof -
  from assms(1) obtain t hb where hb: "get_hb w p = Inr (t, hb)"
    "w' = put_hb p t (hb\<lparr>monitored_tasks := es'\<rparr>) w"
    by (auto simp: store_entries_def res_bind_eq_Inr)
  have "map_sorted es'" using assms(3,4) by (simp add: map_sorted_def)
  moreover have "fst ` set es' = fst ` set es" using arg_cong [OF assms(3), of set] by simp
  ultimately show ?thesis
    unfolding hb(2) using assms(2,5,6) world_ok_hb [OF assms(2) hb(1)] keys_ok_map_fst [OF assms(3)]
    by (intro world_ok_put_hb [OF _ hb(1)]) simp_all
qed

lemma check_for_timeouts_keeps [wf_intros]: "keeps (check_for_timeouts p)"
proof (rule keepsI)
  fix w w'
  assume ok: "world_ok w" and call: "check_for_timeouts p w = Inr w'"
  obtain now w1 where clk: "steady_clock_now w = (now, w1)" by fastforce
  have ok1: "world_ok w1" using ok steady_clock_now_world_ok [OF clk] by simp
  from call clk obtain t hb es' w2 where hb: "get_hb w p = Inr (t, hb)"
    "check_loop p now (monitored_tasks hb) w1 = Inr (es', w2)" "store_entries p (es', w2) = Inr w'"
    by (auto simp: check_for_timeouts_def res_bind_eq_Inr)
  have "class_at w1 = class_at w" using arg_cong [OF clk, of snd] class_at_steady by fastforce
  with check_loop_world_ok [OF hb(2) ok1] world_ok_hb [OF ok hb(1)] show "world_ok w'"
    by (intro store_entries_world_ok [OF hb(3)]) auto
qed

lemma generate_heartbeat_id_world_ok:
  assumes "generate_heartbeat_id p w = Inr (i, w')" "world_ok w"
  shows "world_ok w' \<and> class_at w' = class_at w"
proof -
  from assms(1) obtain t hb where hb: "get_hb w p = Inr (t, hb)"
    "w' = put_hb p t (hb\<lparr>next_heartbeat_id := next_heartbeat_id hb + 1\<rparr>) w"
    by (auto simp: generate_heartbeat_id_def res_bind_eq_Inr)
  with world_ok_hb [OF assms(2) hb(1)] show ?thesis
    unfolding hb(2) by (intro conjI world_ok_put_hb [OF assms(2) hb(1)]) simp_all
qed

lemma send_loop_world_ok:
  assumes "send_loop p es w = Inr (es', w')" "world_ok w"
  shows "world_ok w' \<and> map fst es' = map fst es \<and> class_at w' = class_at w"
  using assms
proof (induction es arbitrary: w es')
  case Nil
  then show ?case by simp
next
  case (Cons e es)
  obtain a st where e: "e = (a, st)" by (cases e)
  show ?case
  proof (cases "awaiting_response st")
    case True
    with Cons.prems obtain es1 where "send_loop p es w = Inr (es1, w')" "es' = (a, st) # es1"
      by (auto simp: e res_bind_eq_Inr)
    with Cons.IH [of w es1] Cons.prems(2) show ?thesis by (simp add: e)
  next
    case False
    obtain now w1 where clk: "steady_clock_now w = (now, w1)" by fastforce
    have ok1: "world_ok w1" using Cons.prems(2) steady_clock_now_world_ok [OF clk] by simp
    from Cons.prems(1) False clk obtain i w2 m w3 es1 st' where w2: "generate_heartbeat_id p w1 = Inr (i, w2)"
      "deliver_message a m w2 = Inr w3" "send_loop p es w3 = Inr (es1, w')" "es' = (a, st') # es1"
      by (auto simp: e res_bind_eq_Inr Let_def)
    have "class_at w1 = class_at w" using arg_cong [OF clk, of snd] class_at_steady by fastforce
    with generate_heartbeat_id_world_ok [OF w2(1) ok1] deliver_message_world_ok [OF _ w2(2)]
      deliver_message_frame(4) [OF w2(2)]
    have "world_ok w3" "class_at w3 = class_at w" by simp_all
    with Cons.IH [OF w2(3)] w2(4) show ?thesis by (simp add: e)
  qed
qed

lemma send_heartbeat_keeps [wf_intros]: "keeps (send_heartbeat p)"
proof (rule keepsI)
  fix w w'
  assume ok: "world_ok w" and "send_heartbeat p w = Inr w'"
  then obtain t hb es' w2 where hb: "get_hb w p = Inr (t, hb)"
    "send_loop p (monitored_tasks hb) w = Inr (es', w2)" "store_entries p (es', w2) = Inr w'"
    by (auto simp: send_heartbeat_def res_bind_eq_Inr)
  with send_loop_world_ok [OF hb(2) ok] world_ok_hb [OF ok hb(1)] show "world_ok w'"
    by (intro store_entries_world_ok [OF hb(3)]) auto
qed

lemma HeartBeatTask_periodic_keeps [wf_intros]: "keeps (HeartBeatTask_periodic p)"
  by (rule keepsI)
    (auto simp: HeartBeatTask_periodic_def res_bind_eq_Inr split: if_splits
      dest!: keepsD [OF check_for_timeouts_keeps, rotated] keepsD [OF send_heartbeat_keeps, rotated])

lemma set_unresponsive_action_keeps [wf_intros]: "keeps (set_unresponsive_action p s)"
proof (rule keepsI)
  fix w w'
  assume ok: "world_ok w" and "set_unresponsive_action p s w = Inr w'"
  then obtain t hb where hb: "get_hb w p = Inr (t, hb)" "w' = put_hb p t (hb\<lparr>unresponsive_action := s\<rparr>) w"
    by (auto simp: set_unresponsive_action_def res_bind_eq_Inr)
  show "world_ok w'"
    unfolding hb(2) by (rule world_ok_put_hb [OF ok hb(1)]) (use world_ok_hb [OF ok hb(1)] in simp_all)
qed

lemma HeartBeatTask_handle_acknowledgment_keeps [wf_intros]:
  "keeps (HeartBeatTask_handle_acknowledgment p m)"
proof (rule keepsI)
  fix w w'
  assume ok: "world_ok w" and call: "HeartBeatTask_handle_acknowledgment p m w = Inr w'"
  show "world_ok w'"
  proof (cases "w' = w")
    case False
    obtain now w1 where clk: "steady_clock_now w = (now, w1)" by fastforce
    have w1: "w1 = snd (steady_clock_now w)" using clk by simp
    from call obtain t hb where hb: "get_hb w p = Inr (t, hb)"
      by (auto simp: HeartBeatTask_handle_acknowledgment_def res_bind_eq_Inr)
    from call hb False clk obtain nm x st' where
      find: "map_find (monitored_tasks hb) (get_sender m) \<noteq> None" and
      w': "w' = world_log INFO nm x (put_hb p t (hb\<lparr>monitored_tasks :=
        map_assign (get_sender m) st' (monitored_tasks hb)\<rparr>) w1)"
      by (auto simp: HeartBeatTask_handle_acknowledgment_def Let_def res_bind_eq_Inr
          split: option.splits if_splits)
    have "get_sender m \<in> fst ` set (monitored_tasks hb)"
      using find by (simp add: map_of_eq_None_iff)
    moreover have "world_ok w1" "get_hb w1 p = Inr (t, hb)" "class_at w1 = class_at w"
      using ok hb by (simp_all add: w1)
    ultimately show ?thesis
      unfolding w' world_ok_world_log using world_ok_hb [OF ok hb] keys_okD [OF _ find, of "class_at w"]
      by (intro world_ok_put_hb) (auto simp: fst_map_assign)
  qed (use ok in simp)
qed

lemma HeartBeatTask_process_keeps [wf_intros]: "keeps (HeartBeatTask_process_message p m)"
  by (rule keepsI)
    (auto simp: HeartBeatTask_process_message_def res_bind_eq_Inr split: Type.splits option.splits
      intro: keepsD [OF transition_to_state_keeps] keepsD [OF HeartBeatTask_handle_acknowledgment_keeps])

subsection \<open>Creation and destruction\<close>

lemma Task_new_ok_parts:
  assumes "Task_new nm base cnt d = Inr t" "pool_area base (of_nat node_size) cnt"
  shows "mq_wf (message_queue t) {}" "derived_part t = d" "running t = False"
proof -
  from assms(2) obtain q where q: "Task_new nm base cnt d = Inr \<lparr>name = nm, current_state = NOT_STARTED,
      running = False, queue_thread = NoThread, periodic_thread = NoThread,
      periodic_task_interval_ms = 0, message_queue = q, derived_part = d, control_block = 0,
      owned = False\<rparr>" "mq_good 0 q"
    by (rule Task_new_ok [where nm = nm and d = d]) simp
  with assms(1) show "mq_wf (message_queue t) {}" "derived_part t = d" "running t = False"
    by (auto simp: mq_good_def)
qed

lemma keys_ok_mono:
  "keys_ok cls m \<Longrightarrow> \<forall>a c. cls a = Some c \<longrightarrow> cls' a = Some c \<Longrightarrow> keys_ok cls' m"
  by (fastforce simp: keys_ok_def)

lemma part_ok_mono:
  assumes "part_ok cls p d" "\<forall>a c. cls a = Some c \<longrightarrow> cls' a = Some c"
  shows "part_ok cls' p d"
proof -
  have "cls a \<noteq> None \<Longrightarrow> cls' a \<noteq> None" for a using assms(2) by fastforce
  then show ?thesis using assms by (cases d) (auto intro: keys_ok_mono)
qed

lemma make_shared_world_ok:
  assumes "world_ok w" "p \<noteq> nullptr" "tasks w p = None"
    and "mq_wf (message_queue t) {}" "\<not> running t" "part_ok (class_at w) p (derived_part t)"
  shows "world_ok (make_shared p t w)" "class_at (make_shared p t w) p = Some (class_of (derived_part t))"
proof -
  let ?w = "make_shared p t w"
  have grow: "\<forall>a c. class_at w a = Some c \<longrightarrow> class_at ?w a = Some c"
    using assms(3) by (auto simp: class_at_def make_shared_def)
  have "task_ok u \<and> part_ok (class_at ?w) q (derived_part u)" if "tasks ?w q = Some u" for q u
  proof (cases "q = p")
    case True
    with that assms(4,5) part_ok_mono [OF assms(6) grow] show ?thesis
      by (auto simp: make_shared_def task_ok_def)
  next
    case False
    with that have "tasks w q = Some u" by (simp add: make_shared_def)
    then show ?thesis using world_ok_task part_ok_mono [OF world_ok_part grow] assms(1) by blast
  qed
  with broker_ok_make_shared [OF world_ok_broker [OF assms(1)] assms(2,3)] show "world_ok ?w"
    by (simp add: world_ok_def)
  show "class_at ?w p = Some (class_of (derived_part t))" by (simp add: make_shared_def)
qed

text \<open>A task of a class of the program, created like the others.\<close>

definition user_create :: "ptr \<Rightarrow> ptr \<Rightarrow> string \<Rightarrow> size_t \<Rightarrow> World \<Rightarrow> World result" where
  "user_create this base nm cnt w =
     res_bind (Task_new nm base cnt UserTask) (\<lambda>t. Inr (make_shared this t w))"

text \<open>A new object: its address is not in use and its pool is a valid area.\<close>

definition fresh_object :: "ptr \<Rightarrow> ptr \<Rightarrow> size_t \<Rightarrow> World \<Rightarrow> bool" where
  "fresh_object p base cnt w \<longleftrightarrow> p \<noteq> nullptr \<and> tasks w p = None \<and> pool_area base (of_nat node_size) cnt"

lemma user_create_world_ok:
  assumes "user_create p base nm cnt w = Inr w'" "world_ok w" "fresh_object p base cnt w"
  shows "world_ok w'"
proof -
  from assms(1) obtain t where t: "Task_new nm base cnt UserTask = Inr t" "w' = make_shared p t w"
    by (auto simp: user_create_def res_bind_eq_Inr)
  with assms(2,3) Task_new_ok_parts [OF t(1)] show ?thesis
    by (auto simp: fresh_object_def intro!: make_shared_world_ok(1))
qed

lemma StateManager_create_world_ok:
  assumes "StateManager_create p base w = Inr w'" "world_ok w" "fresh_object p base 64 w"
  shows "world_ok w'"
proof -
  from assms(1) obtain t where t: "Task_new ''StateManager'' base 64 (DerivedStateManager StateManager_new) = Inr t"
    "safe_subscribe p Type_StateAckMsg (make_shared p t w) = Inr w'"
    by (auto simp: StateManager_create_def StateManager_on_initialize_def res_bind_eq_Inr)
  have "world_ok (make_shared p t w)"
    using assms(2,3) Task_new_ok_parts [OF t(1)]
    by (intro make_shared_world_ok(1)) (simp_all add: fresh_object_def StateManager_new_def)
  then show ?thesis by (rule keepsD [OF safe_subscribe_keeps _ t(2)])
qed

lemma safe_subscribe_tasks: "safe_subscribe p ty w = Inr w' \<Longrightarrow> tasks w' = tasks w"
  by (auto simp: safe_subscribe_def subscribe_def Let_def res_bind_eq_Inr split: if_splits)

lemma HeartBeatTask_on_initialize_world_ok:
  assumes "HeartBeatTask_on_initialize p w = Inr w'" "world_ok w" "class_at w p \<noteq> None"
  shows "world_ok w'"
proof -
  from assms(1) obtain w1 w2 sm where w: "safe_subscribe p Type_StateMsg w = Inr w1"
    "safe_subscribe p Type_HeartbeatAckMsg w1 = Inr w2"
    "w' = w2 \<or> set_task_registration_observer sm p w2 = Inr w'"
    by (auto simp: HeartBeatTask_on_initialize_def res_bind_eq_Inr shared_from_this_eq_Inr split: if_splits)
  have "world_ok w2"
    by (rule keepsD [OF safe_subscribe_keeps keepsD [OF safe_subscribe_keeps assms(2) w(1)] w(2)])
  moreover have "class_at w2 p \<noteq> None"
    using assms(3) w(1,2) by (simp add: class_at_None safe_subscribe_tasks)
  ultimately show ?thesis using w(3) set_observer_world_ok by blast
qed

lemma HeartBeatTask_create_world_ok:
  assumes "HeartBeatTask_create p base nm sm interval timeout w = Inr w'" "world_ok w"
    and "fresh_object p base 64 w" "sm \<noteq> nullptr \<Longrightarrow> class_at w sm = Some ManagerClass"
  shows "world_ok w'"
proof -
  from assms(1) obtain t where t: "Task_new nm base 64 (DerivedHeartBeat (HeartBeatTask_new sm timeout)) = Inr t"
    "HeartBeatTask_on_initialize p (make_shared p (set_periodic_task_interval interval t) w) = Inr w'"
    by (auto simp: HeartBeatTask_create_def res_bind_eq_Inr)
  let ?t = "set_periodic_task_interval interval t"
  have "p \<noteq> nullptr" "tasks w p = None" "mq_wf (message_queue ?t) {}" "\<not> running ?t"
    "part_ok (class_at w) p (derived_part ?t)"
    using assms(3,4) Task_new_ok_parts [OF t(1)]
    by (simp_all add: fresh_object_def HeartBeatTask_new_def set_periodic_task_interval_def)
  from make_shared_world_ok [OF assms(2) this] show ?thesis
    by (intro HeartBeatTask_on_initialize_world_ok [OF t(2)]) simp_all
qed

text \<open>
  An object goes away when no shared pointer is left: the managers' maps and members hold none.
\<close>

fun holds :: "ptr \<Rightarrow> derived \<Rightarrow> bool" where
  "holds p UserTask = False"
| "holds p (DerivedStateManager sm) \<longleftrightarrow>
     p \<in> fst ` set (task_states sm) \<or> task_registration_observer sm = p"
| "holds p (DerivedHeartBeat hb) \<longleftrightarrow> p \<in> fst ` set (monitored_tasks hb) \<or> state_manager hb = p"

definition unreferenced :: "ptr \<Rightarrow> World \<Rightarrow> bool" where
  "unreferenced p w \<longleftrightarrow> (\<forall>q t. tasks w q = Some t \<longrightarrow> \<not> holds p (derived_part t))"

lemma part_ok_remove: "part_ok cls q d \<Longrightarrow> \<not> holds p d \<Longrightarrow> part_ok (cls(p := None)) q d"
  by (cases d) (auto simp: keys_ok_def)

lemma Task_destroy_result:
  assumes "Task_destroy others p w = Inr (Returns w')"
  shows "w' = w\<lparr>tasks := (tasks w)(p := None)\<rparr>"
proof -
  from assms obtain t where t: "tasks w p = Some t" by (auto simp: Task_destroy_def res_bind_eq_Inr)
  show ?thesis
  proof (cases "running t")
    case True
    with assms t show ?thesis
      by (simp add: Task_destroy_def stop_def stop_request_def Task_transition_to_state_def
          safe_publish_def Let_def shared_from_this_def)
  next
    case False
    with assms t show ?thesis
      by (auto simp: Task_destroy_def stop_def res_bind_eq_Inr put_task_def split: if_splits)
  qed
qed

lemma Task_destroy_world_ok:
  assumes "Task_destroy others p w = Inr (Returns w')" "world_ok w" "unreferenced p w"
  shows "world_ok w'"
proof -
  have w': "w' = w\<lparr>tasks := (tasks w)(p := None)\<rparr>" by (rule Task_destroy_result [OF assms(1)])
  have cls: "class_at w' = (class_at w)(p := None)" by (auto simp: w' class_at_def fun_eq_iff)
  have "broker_ok w'" using world_ok_broker [OF assms(2)] by (auto simp: w' broker_ok_def)
  moreover have "task_ok t \<and> part_ok (class_at w') q (derived_part t)" if "tasks w' q = Some t" for q t
  proof -
    from that have t: "tasks w q = Some t" by (auto simp: w' split: if_splits)
    with assms(3) have "\<not> holds p (derived_part t)" by (auto simp: unreferenced_def)
    with world_ok_task [OF assms(2) t] part_ok_remove [OF world_ok_part [OF assms(2) t]] show ?thesis
      unfolding cls by blast
  qed
  ultimately show ?thesis by (simp add: world_ok_def)
qed

subsection \<open>The virtual functions\<close>

text \<open>The contract of a program's own task classes: their handlers keep the invariant.\<close>

locale user_program =
  fixes code :: user_code
  assumes user_process_keeps: "keeps (user_process code p m)"
    and user_periodic_keeps: "keeps (user_periodic code p)"
begin

lemma process_message_keeps: "keeps (process_message code p m)"
proof (rule keepsI)
  fix w w'
  assume ok: "world_ok w" and call: "process_message code p m w = Inr w'"
  then obtain t where t: "tasks w p = Some t" by (auto simp: process_message_def res_bind_eq_Inr)
  show "world_ok w'"
    using call t keepsD [OF user_process_keeps ok] keepsD [OF StateManager_process_keeps ok] keepsD [OF HeartBeatTask_process_keeps ok]
    by (cases "derived_part t") (auto simp: process_message_def)
qed

lemma periodic_task_process_keeps: "keeps (periodic_task_process code p)"
proof (rule keepsI)
  fix w w'
  assume ok: "world_ok w" and call: "periodic_task_process code p w = Inr w'"
  then obtain t where t: "tasks w p = Some t" by (auto simp: periodic_task_process_def res_bind_eq_Inr)
  show "world_ok w'"
    using call t ok keepsD [OF user_periodic_keeps ok] keepsD [OF HeartBeatTask_periodic_keeps ok]
    by (cases "derived_part t") (auto simp: periodic_task_process_def)
qed

end

lemma documented_process_keeps: "keeps (documented_process p m)"
  by (rule keepsI)
    (auto simp: documented_process_def split: option.splits
      intro: keepsD [OF transition_to_state_keeps] keepsD [OF handle_heartbeat_keeps])

section \<open>The steps of the system\<close>

text \<open>
  A step of a thread of some task, or a call that a program makes through the public interface. The
  calls that wait are given by their parts, so that any other step may happen during the wait. A
  shared pointer that is passed to a call keeps its object alive, hence the premises on \<open>class_at\<close>.
\<close>

inductive system_step :: "user_code \<Rightarrow> World \<Rightarrow> World \<Rightarrow> bool" for code where
  step_queue_thread: "run_step (process_message code) p w = Inr (Returns w') \<Longrightarrow> system_step code w w'"
| step_periodic_thread:
    "run_periodic_step (periodic_task_process code) p w = Inr (Returns w') \<Longrightarrow> system_step code w w'"
| step_logger: "logger_step (logger w) es L \<Longrightarrow> system_step code w (w\<lparr>logger := L\<rparr>)"
| step_log: "system_step code w (world_log level component text w)"
| step_user_create: "fresh_object p base cnt w \<Longrightarrow> user_create p base nm cnt w = Inr w' \<Longrightarrow> system_step code w w'"
| step_manager_create: "fresh_object p base 64 w \<Longrightarrow> StateManager_create p base w = Inr w' \<Longrightarrow> system_step code w w'"
| step_heartbeat_create:
    "fresh_object p base 64 w \<Longrightarrow> (sm \<noteq> nullptr \<Longrightarrow> class_at w sm = Some ManagerClass) \<Longrightarrow>
     HeartBeatTask_create p base nm sm interval timeout w = Inr w' \<Longrightarrow> system_step code w w'"
| step_destroy: "unreferenced p w \<Longrightarrow> Task_destroy others p w = Inr (Returns w') \<Longrightarrow> system_step code w w'"
| step_subscribe: "safe_subscribe p ty w = Inr w' \<Longrightarrow> system_step code w w'"
| step_publish: "safe_publish p m w = Inr w' \<Longrightarrow> system_step code w w'"
| step_register: "class_at w a \<noteq> None \<Longrightarrow> register_task p a w = Inr w' \<Longrightarrow> system_step code w w'"
| step_observer: "class_at w ob \<noteq> None \<Longrightarrow> set_task_registration_observer p ob w = Inr w' \<Longrightarrow> system_step code w w'"
| step_start: "start p w = Inr w' \<Longrightarrow> system_step code w w'"
| step_stop: "stop_request transition_to_state p w = Inr w' \<Longrightarrow> system_step code w w'"
| step_join: "stop_join p w = Inr (Returns w') \<Longrightarrow> system_step code w w'"
| step_request: "request_state_transition p s w = Inr w' \<Longrightarrow> system_step code w w'"
| step_demand: "demand_begin p s w = Inr w' \<Longrightarrow> system_step code w w'"
| step_demand_end: "demand_end p s w = Inr (b, w') \<Longrightarrow> system_step code w w'"
| step_unresponsive_action: "set_unresponsive_action p s w = Inr w' \<Longrightarrow> system_step code w w'"
| step_mark: "mark_task_as_unresponsive p a w = Inr w' \<Longrightarrow> system_step code w w'"
| step_notify_registered: "class_at w a \<noteq> None \<Longrightarrow> notify_task_registered p a w = Inr w' \<Longrightarrow> system_step code w w'"
| step_broker_publish: "publish m w = Inr w' \<Longrightarrow> system_step code w w'"
| step_broker_subscribe: "class_at w a \<noteq> None \<Longrightarrow> subscribe a ty w = Inr w' \<Longrightarrow> system_step code w w'"
| step_broker_deliver: "deliver_message a m w = Inr w' \<Longrightarrow> system_step code w w'"
| step_broker_initialize: "system_step code w (Broker_initialize max_subscribers w)"
| step_add_sink: "system_step code w (w\<lparr>logger := add_sink snk (logger w)\<rparr>)"

inductive_cases system_stepE: "system_step code w w'"

lemma Broker_initialize_world_ok: "world_ok w \<Longrightarrow> world_ok (Broker_initialize n w)"
  using class_at_cong [of "Broker_initialize n w" w]
  by (simp add: world_ok_def broker_ok_def Broker_initialize_def)

context user_program
begin

lemma system_step_world_ok:
  assumes "system_step code w w'" "world_ok w"
  shows "world_ok w'"
  using assms
proof cases
  case (step_queue_thread p)
  have "keeps_wait (run_step (process_message code) p)"
    by (rule run_step_keeps) (rule process_message_keeps)
  then show ?thesis using step_queue_thread assms(2) keeps_waitD by blast
next
  case (step_periodic_thread p)
  have "keeps_wait (run_periodic_step (periodic_task_process code) p)"
    by (rule run_periodic_step_keeps) (rule periodic_task_process_keeps)
  then show ?thesis using step_periodic_thread assms(2) keeps_waitD by blast
next
  case (step_logger es L)
  with assms(2) show ?thesis by (auto intro: world_ok_cong)
next
  case (step_add_sink snk)
  with assms(2) show ?thesis by (auto intro: world_ok_cong)
next
  case (step_broker_initialize k)
  with assms(2) show ?thesis by (simp add: Broker_initialize_world_ok)
next
  case (step_broker_subscribe a ty)
  then obtain t where t: "tasks w a = Some t" by (auto simp: class_at_None)
  with world_ok_task [OF assms(2) t] step_broker_subscribe assms(2) show ?thesis
    by (auto intro: subscribe_keeps simp: task_ok_def)
next
  case (step_request p s)
  with assms(2) show ?thesis unfolding request_state_transition_def
    by (auto intro: keepsD [OF transition_to_state_keeps])
next
  case (step_stop p)
  with assms(2) show ?thesis
    by (auto intro: keepsD [OF stop_request_keeps [of transition_to_state, OF transition_to_state_keeps]])
qed (use assms(2) in \<open>auto intro: user_create_world_ok StateManager_create_world_ok
      HeartBeatTask_create_world_ok Task_destroy_world_ok register_task_world_ok set_observer_world_ok demand_end_world_ok
      keepsD [OF safe_subscribe_keeps] keepsD [OF safe_publish_keeps] keepsD [OF start_keeps]
      keeps_waitD [OF stop_join_keeps] keepsD [OF demand_begin_keeps]
      keepsD [OF set_unresponsive_action_keeps] mark_world_ok [THEN conjunct1] notify_task_registered_world_ok
      keepsD [OF publish_keeps] deliver_message_world_ok\<close>)

lemma system_steps_world_ok:
  assumes "(system_step code)\<^sup>*\<^sup>* w w'" "world_ok w"
  shows "world_ok w'"
  using assms by (induction rule: rtranclp_induct) (auto intro: system_step_world_ok)

end

lemma world_ok_initial: "world_ok (Broker_initialize n (World_new clks))"
  using broker_ok_initial by (simp add: world_ok_def Broker_initialize_def World_new_def)

interpretation documented: user_program documented_code
  using documented_process_keeps by unfold_locales (simp_all add: documented_code_def keeps_def)

lemma world_ok_queue:
  assumes "world_ok w" "tasks w p = Some t"
  shows "\<exists>r. dequeue (message_queue t) = Inr r"
    and "enqueue (message_queue t) m = Inl e \<longleftrightarrow>
      length (mq_queue (message_queue t)) = mq_capacity (message_queue t) \<and>
      e = AssertFailed ''Memory pool out of memory!''"
proof -
  let ?q = "message_queue t"
  have wf: "mq_wf ?q {}" using world_ok_task [OF assms] by (simp add: task_ok_def)
  show "\<exists>r. dequeue ?q = Inr r"
    by (cases "mq_queue ?q = []") (auto simp: dequeue_empty elim: dequeue_ok [OF wf])
  show "enqueue ?q m = Inl e \<longleftrightarrow> length (mq_queue ?q) = mq_capacity ?q \<and>
      e = AssertFailed ''Memory pool out of memory!''"
  proof (cases "length (mq_queue ?q) < mq_capacity ?q")
    case True
    with enqueue_ok [OF wf, where m = m] show ?thesis by fastforce
  next
    case False
    with mq_wf_bound [OF wf] enqueue_full [OF wf] show ?thesis by auto
  qed
qed

section \<open>Properties of the system\<close>

text \<open>C3: The system invariant. Whatever the threads of the tasks, the logger and the callers of the
  public interface do, in any order, from a fresh broker on: the broker's lists and the maps of the
  managers stay well formed, every pointer that a manager holds leads to an existing object of the
  right class, a running task has a thread that has not ended, and every queue is well formed, so
  that no \<open>dequeue\<close> ever fails and an \<open>enqueue\<close> fails only by exhausting the pool of a full queue.
  The handlers of the program's own tasks are assumed to keep the invariant, as those do that are
  built from the operations of the framework.\<close>

theorem system_invariant:
  assumes "\<forall>p m. keeps (user_process code p m)" "\<forall>p. keeps (user_periodic code p)"
    and "(system_step code)\<^sup>*\<^sup>* (Broker_initialize n (World_new clks)) w"
  shows "world_ok w \<and>
    (\<forall>p t. tasks w p = Some t \<longrightarrow>
      (\<exists>r. dequeue (message_queue t) = Inr r) \<and>
      (\<forall>m e. enqueue (message_queue t) m = Inl e \<longleftrightarrow>
         length (mq_queue (message_queue t)) = mq_capacity (message_queue t) \<and>
         e = AssertFailed ''Memory pool out of memory!''))"
proof -
  have "user_program code" using assms(1,2) by unfold_locales simp_all
  then have "world_ok w" by (rule user_program.system_steps_world_ok [OF _ assms(3) world_ok_initial])
  with world_ok_queue show ?thesis by blast
qed

lemma example_create:
  "\<exists>w' t. user_create 8 4096 ''A'' 1 (Broker_initialize 16 (World_new clks)) = Inr w' \<and>
     tasks w' 8 = Some t \<and> fresh_object 8 4096 1 (Broker_initialize 16 (World_new clks))"
proof -
  have area: "pool_area 4096 (of_nat node_size) 1" by (simp add: pool_area_def ptr_aligned_def node_size_eq)
  then obtain q where "Task_new ''A'' 4096 1 UserTask = Inr \<lparr>name = ''A'', current_state = NOT_STARTED,
      running = False, queue_thread = NoThread, periodic_thread = NoThread,
      periodic_task_interval_ms = 0, message_queue = q, derived_part = UserTask, control_block = 0,
      owned = False\<rparr>"
    by (rule Task_new_ok [where nm = "''A''" and d = UserTask])
  with area show ?thesis
    by (simp add: user_create_def make_shared_def fresh_object_def Broker_initialize_def World_new_def)
qed

theorem system_invariant_witness:
  "\<exists>w t. (system_step documented_code)\<^sup>*\<^sup>* (Broker_initialize 16 (World_new (\<lambda>_. example_clock))) w \<and>
     tasks w 8 = Some t \<and> world_ok w \<and> (\<exists>r. dequeue (message_queue t) = Inr r)"
proof -
  let ?w0 = "Broker_initialize 16 (World_new (\<lambda>_. example_clock))"
  obtain w t where w: "user_create 8 4096 ''A'' 1 ?w0 = Inr w" "tasks w 8 = Some t" "fresh_object 8 4096 1 ?w0"
    using example_create by blast
  then have "(system_step documented_code)\<^sup>*\<^sup>* ?w0 w" by (blast intro: step_user_create)
  from system_invariant [OF _ _ this] this w(2) documented.user_process_keeps documented.user_periodic_keeps
  show ?thesis by blast
qed

end
