(* ===== verification/Stopping.thy ===== *)
theory Stopping
  imports System
begin

text \<open>
  The end of a task's threads after a stop request, for the virtual functions as the system
  resolves them, and that a task written after the documented pattern meets what is asked of its
  handler.
\<close>

section \<open>The handler of the documentation\<close>

lemma delivered_stopped:
  assumes "rel_option (delivered n m b) (Some t) u" "\<not> running t"
  shows "\<exists>t'. u = Some t' \<and> \<not> running t'"
  using assms by (auto simp: option_rel_Some1 delivered_def split: if_splits)

text \<open>Neither following a state message nor answering a heartbeat starts a stopped task.\<close>

lemma documented_returns_stopped:
  assumes w: "broker_ok w" "initialized (broker w)" "tasks w p = Some t" "owned t"
    and t: "\<not> running t" "derived_part t = UserTask"
    and ready: "subscribers_ready n Type_StateAckMsg w" "subscribers_ready n Type_HeartbeatAckMsg w"
  shows "returns_stopped (process_message documented_code) p m w"
proof -
  have eq: "process_message documented_code p m w = documented_process p m w"
    using w(3) t(2) by (simp add: process_message_def documented_code_def)
  have state: "\<exists>w' t'. transition_to_state p s w = Inr w' \<and> tasks w' p = Some t' \<and> \<not> running t'" for s
  proof (rule transition_ok [OF w ready(1), of s])
    fix w'
    assume call: "Task_transition_to_state p s w = Inr w'"
      and d: "\<And>a. rel_option (delivered n (ack_msg p s) (a \<in> set (live_subscribers w Type_StateAckMsg)))
        (((tasks w)(p \<mapsto> t\<lparr>current_state := s\<rparr>)) a) (tasks w' a)"
    have "\<exists>t'. tasks w' p = Some t' \<and> \<not> running t'"
      by (rule delivered_stopped [where t = "t\<lparr>current_state := s\<rparr>"]) (use d [of p] t(1) in simp_all)
    with call w(3) t(2) show ?thesis by (simp add: transition_to_state_def)
  qed
  have beat: "\<exists>w' t'. handle_heartbeat p d w = Inr w' \<and> tasks w' p = Some t' \<and> \<not> running t'" for d
  proof (rule handle_heartbeat_ok [OF w ready(2), of d])
    fix w' a
    assume call: "handle_heartbeat p d w = Inr w'"
      and d: "\<And>b. rel_option (delivered n a (b \<in> set (live_subscribers w Type_HeartbeatAckMsg)))
        (tasks w b) (tasks w' b)"
    have "\<exists>t'. tasks w' p = Some t' \<and> \<not> running t'"
      by (rule delivered_stopped [where t = t]) (use d [of p] t(1) w(3) in simp_all)
    with call show ?thesis by simp
  qed
  show ?thesis
    using state beat w(3) t(1) unfolding returns_stopped_def eq
    by (simp add: documented_process_def split: option.split)
qed

lemma documented_last_call:
  assumes w: "broker_ok w" "initialized (broker w)" "tasks w p = Some t" "owned t"
    and t: "\<not> running t" "derived_part t = UserTask"
    and ready: "subscribers_ready n Type_StateAckMsg w" "subscribers_ready n Type_HeartbeatAckMsg w"
    and p: "p \<notin> set (live_subscribers w Type_StateAckMsg)" "p \<notin> set (live_subscribers w Type_HeartbeatAckMsg)"
  shows "last_call_returns (process_message documented_code) p t w"
proof -
  have "returns_stopped (process_message documented_code) p m
      (put_task p (t\<lparr>message_queue := q, queue_thread := pc\<rparr>) w)" for m q pc
  proof -
    let ?t = "t\<lparr>message_queue := q, queue_thread := pc\<rparr>"
    have live: "live_subscribers (put_task p ?t w) ty = live_subscribers w ty" for ty
      by (rule live_subscribers_put_task [OF w(3)]) simp_all
    have "subscribers_ready n ty (put_task p ?t w)"
      if "subscribers_ready n ty w" "p \<notin> set (live_subscribers w ty)" for ty
      using that by (auto simp: subscribers_ready_def live)
    moreover have "broker_ok (put_task p ?t w)" by (rule broker_ok_put_task [OF w(1,3)]) simp
    ultimately show ?thesis
      using w t ready p by (intro documented_returns_stopped [where t = ?t and n = n]) simp_all
  qed
  then show ?thesis
    using documented_returns_stopped [OF w t ready]
    by (auto simp: last_call_returns_def split: thread.split sum.split wait.split option.split)
qed

section \<open>Both threads end\<close>

text \<open>C25: A stop request ends the threads of a task. Once \<open>running\<close> is false and the queue was shut
  down, the queue thread does not block, wherever it is, and reaches its end within three of its
  own steps, with at most one more call of the handler, on the message it already holds or is
  taking out; that call is assumed to return and not to start the task again. The periodic
  thread, if there is one, ends independently of this: at its test, after the body that it is in,
  if that returns without starting the task, or when the time until which it sleeps has passed,
  which \<open>stop\<close> does not shorten; for this the clock has to advance. The \<open>join\<close> calls then return.\<close>

theorem stopped_thread_ends:
  assumes "tasks w p = Some t" "\<not> running t"
  shows "(mq_shutdown (message_queue t) \<and> mq_good n (message_queue t) \<and>
      (queue_thread t = AtTest \<or> queue_thread t = AtDequeue \<or> (\<exists>m. queue_thread t = AtProcess m)) \<and>
      last_call_returns (process_message code) p t w \<longrightarrow>
      (\<exists>k \<le> 3. \<exists>w' t'. run_steps (process_message code) p k w = Inr (Returns w') \<and>
         tasks w' p = Some t' \<and> queue_thread t' = AtEnd \<and> \<not> running t')) \<and>
    (clock_advances w \<and>
      (periodic_thread t = AtTest \<or>
       periodic_thread t = AtPeriodic \<and> body_returns (periodic_task_process code) p w \<or>
       (\<exists>next_time. periodic_thread t = AtSleep next_time)) \<longrightarrow>
      (\<exists>k w' t'. run_periodic_steps (periodic_task_process code) p k w = Inr (Returns w') \<and>
         tasks w' p = Some t' \<and> periodic_thread t' = AtEnd))"
  using stopped_queue_thread_ends [OF assms, of n "process_message code"]
    stopped_periodic_ends [OF assms, of "periodic_task_process code"]
  unfolding periodic_ends_def by blast

theorem stopped_thread_ends_witness:
  "\<exists>w t m k w' t' k' w'' t''. tasks w 8 = Some t \<and> queue_thread t = AtDequeue \<and>
     pending_msgs (message_queue t) = [m] \<and> get_type m = Type_StateMsg \<and> periodic_thread t = AtPeriodic \<and>
     k \<le> 3 \<and> run_steps (process_message documented_code) 8 k w = Inr (Returns w') \<and>
     tasks w' 8 = Some t' \<and> queue_thread t' = AtEnd \<and> \<not> running t' \<and>
     run_periodic_steps (periodic_task_process documented_code) 8 k' w = Inr (Returns w'') \<and>
     tasks w'' 8 = Some t'' \<and> periodic_thread t'' = AtEnd"
proof -
  let ?m = "example_msg (StateMsg 2)"
  obtain w0 t0 where sys: "one_task_system w0 t0" using example_world by blast
  then have w0: "broker_ok w0" "initialized (broker w0)" "tasks w0 = [8 \<mapsto> t0]" "owned t0" "\<not> running t0"
    "derived_part t0 = UserTask" "\<And>ty. live_subscribers w0 ty = []"
    and q0: "\<forall>n < 2 ^ 32. mq_good n (message_queue t0)" "pending_msgs (message_queue t0) = []"
      "mq_capacity (message_queue t0) = 1"
    by (simp_all add: one_task_system_def)
  have "length (pending_msgs (message_queue t0)) < mq_capacity (message_queue t0)"
    unfolding q0(2,3) by simp
  then obtain q where q: "mq_good 0 q" "pending_msgs q = [?m]"
    using mq.post_ok [of 0 "message_queue t0" ?m] q0(1,2) by (auto simp: pq_insert_def)
  define t where "t = t0\<lparr>queue_thread := AtDequeue, periodic_thread := AtPeriodic,
    message_queue := notify_shutdown q\<rparr>"
  have t: "owned t" "\<not> running t" "derived_part t = UserTask" "queue_thread t = AtDequeue"
    "periodic_thread t = AtPeriodic" "mq_shutdown (message_queue t)" "mq_good 0 (message_queue t)"
    "pending_msgs (message_queue t) = [?m]"
    using w0(4-6) q by (simp_all add: t_def)
  define w where "w = (put_task 8 t w0)\<lparr>clocks := \<lambda>n. example_clock\<lparr>steady_now := int n\<rparr>\<rparr>"
  have wt: "tasks w 8 = Some t" by (simp add: w_def)
  have live: "live_subscribers w ty = []" for ty
    using live_subscribers_put_task [of w0 8 t0 t ty] w0(3,7) live_cong [of w "put_task 8 t w0"]
    by (simp add: w_def t_def live_subscribers_def weak_lock_def fun_eq_iff)
  have ok: "broker_ok w" "initialized (broker w)"
    using broker_ok_put_task [OF w0(1), of 8 t0 t] w0(2,3) by (simp_all add: w_def t_def broker_ok_def)
  have "x \<le> steady_now (clocks w (n + nat x))" for x n by (simp add: w_def)
  then have clock: "clock_advances w" unfolding clock_advances_def by blast
  have last: "last_call_returns (process_message documented_code) 8 t w"
    by (rule documented_last_call [OF ok wt t(1-3), of 0]) (simp_all add: live subscribers_ready_def)
  have body: "body_returns (periodic_task_process documented_code) 8 w"
    using wt t(2,3) clock by (simp add: body_returns_def periodic_task_process_def documented_code_def)
  note ends = stopped_thread_ends [OF wt t(2), of 0 documented_code]
  obtain k w' t' where k: "k \<le> 3" "run_steps (process_message documented_code) 8 k w = Inr (Returns w')"
    "tasks w' 8 = Some t'" "queue_thread t' = AtEnd" "\<not> running t'"
    using ends [THEN conjunct1] t(4,6,7) last by auto
  obtain k' w'' t'' where k': "run_periodic_steps (periodic_task_process documented_code) 8 k' w = Inr (Returns w'')"
    "tasks w'' 8 = Some t''" "periodic_thread t'' = AtEnd"
    using ends [THEN conjunct2] t(5) clock body by auto
  have "get_type ?m = Type_StateMsg" by (simp add: example_msg_def get_type_def message_types_def)
  with wt t(4,5,8) k k' show ?thesis by blast
qed

end
