(* ===== verification/Rounds.thy ===== *)
theory Rounds
  imports System
begin

text \<open>
  Rounds of request and reply between queue threads: one task has posted a request to each task of
  a group, every task of the group answers it with one message, and the first task records the
  answers. The locale \<open>collection\<close> is the contract of the handlers; from it follows that under
  every interleaving of the queue threads all answers are recorded. The state manager's demanded
  transitions and the heartbeats are such rounds.
\<close>

section \<open>Schedules\<close>

text \<open>One step of the queue thread of a task; a thread that waits stays where it is.\<close>

definition sched_step :: "(ptr \<Rightarrow> Msg \<Rightarrow> World \<Rightarrow> World result) \<Rightarrow> ptr \<Rightarrow> World \<Rightarrow> World result" where
  "sched_step process p w =
     res_bind (run_step process p w) (\<lambda>r. case r of Blocks \<Rightarrow> Inr w | Returns w' \<Rightarrow> Inr w')"

fun run_schedule :: "(ptr \<Rightarrow> Msg \<Rightarrow> World \<Rightarrow> World result) \<Rightarrow> ptr list \<Rightarrow> World \<Rightarrow> World result" where
  "run_schedule process [] w = Inr w"
| "run_schedule process (p # ps) w =
     res_bind (sched_step process p w) (\<lambda>w'. run_schedule process ps w')"

lemma run_schedule_append:
  "run_schedule f (xs @ ys) w = res_bind (run_schedule f xs w) (run_schedule f ys)"
proof (induction xs arbitrary: w)
  case (Cons x xs)
  then show ?case by (cases "sched_step f x w") simp_all
qed simp

text \<open>The steps that a queue thread still has to take until it has handled all pending messages.\<close>

definition work :: "Task \<Rightarrow> nat" where
  "work t =
     (let n = length (pending_msgs (message_queue t)) in
      case queue_thread t of
        AtTest \<Rightarrow> 3 * n
      | AtDequeue \<Rightarrow> 3 * n - 1
      | AtProcess m \<Rightarrow> 3 * n + 1
      | _ \<Rightarrow> 0)"

definition work_at :: "World \<Rightarrow> ptr \<Rightarrow> nat" where
  "work_at w p = (case tasks w p of None \<Rightarrow> 0 | Some t \<Rightarrow> work t)"

lemma work_zero:
  "work t = 0 \<Longrightarrow> queue_thread t = AtTest \<or> queue_thread t = AtDequeue \<or> queue_thread t = AtProcess m \<Longrightarrow>
     pending_msgs (message_queue t) = [] \<and> queue_thread t \<noteq> AtProcess m"
  by (cases "pending_msgs (message_queue t)") (auto simp: work_def simp del: length_pending_msgs)

lemma work_at_Some [simp]: "tasks w p = Some t \<Longrightarrow> work_at w p = work t"
  by (simp add: work_at_def)

section \<open>Queues that their reader empties\<close>

lemma mq_good_mono: "mq_good n q \<Longrightarrow> m \<le> n \<Longrightarrow> mq_good m q"
  by (simp add: mq_good_def)

text \<open>When nothing is pending, the counter of the queue has been reset.\<close>

definition calm :: "MessageQueue \<Rightarrow> bool" where
  "calm q \<longleftrightarrow> (pending_msgs q = [] \<longrightarrow> (\<forall>n < 2 ^ 32. mq_good n q))"

lemma calm_pending [simp]: "pending_msgs q \<noteq> [] \<Longrightarrow> calm q"
  by (simp add: calm_def)

lemma calm_empty: "calm q \<Longrightarrow> pending_msgs q = [] \<Longrightarrow> n < 2 ^ 32 \<Longrightarrow> mq_good n q"
  by (simp add: calm_def)

lemma calm_pq_insert: "pending_msgs q = pq_insert m ms \<Longrightarrow> calm q"
  by (metis calm_pending length_0_conv length_pq_insert nat.simps(3))

lemma calm_notify_shutdown [simp]: "calm (notify_shutdown q) = calm q"
  by (simp add: calm_def)

lemma calm_dequeue: "mq_good n q \<Longrightarrow> dequeue q = Inr (Returns (r, q')) \<Longrightarrow> calm q'"
  using mq_reader.take_resets by (auto simp: calm_def)

section \<open>One step of a queue thread that waits for work\<close>

text \<open>Away from the handler, a step only moves the thread and takes the next message out.\<close>

lemma sched_step_idle:
  assumes t: "tasks w p = Some t" "running t" "mq_good n (message_queue t)" "calm (message_queue t)"
    and pc: "queue_thread t = AtTest \<or> queue_thread t = AtDequeue"
  obtains q pc' where "sched_step f p w = Inr (put_task p (t\<lparr>message_queue := q, queue_thread := pc'\<rparr>) w)"
    "mq_good n q" "calm q" "mq_capacity q = mq_capacity (message_queue t)"
    "pc' = AtTest \<and> pending_msgs (message_queue t) = [] \<and> pending_msgs q = [] \<or>
     pc' = AtDequeue \<and> pending_msgs q = pending_msgs (message_queue t) \<or>
     (\<exists>m. pc' = AtProcess m \<and> queue_thread t = AtDequeue \<and>
        pending_msgs (message_queue t) = m # pending_msgs q)"
    "work (t\<lparr>message_queue := q, queue_thread := pc'\<rparr>) = work t - 1"
proof (cases "queue_thread t = AtTest")
  case True
  have "sched_step f p w = Inr (put_task p (t\<lparr>message_queue := message_queue t, queue_thread := AtDequeue\<rparr>) w)"
    using t True by (simp add: sched_step_def run_step_def)
  then show ?thesis by (rule that) (use t(3,4) True in \<open>simp_all add: work_def\<close>)
next
  case False
  with pc have deq: "queue_thread t = AtDequeue" by simp
  show ?thesis
  proof (cases "pending_msgs (message_queue t)")
    case (Cons m ms)
    obtain q where q: "dequeue (message_queue t) = Inr (Returns (Some m, q))" "mq_good n q" "pending_msgs q = ms"
      "mq_capacity q = mq_capacity (message_queue t)"
      using mq_reader.take_ok [OF t(3) Cons] by blast
    moreover have "calm q" by (rule calm_dequeue [OF t(3) q(1)])
    ultimately show ?thesis
      using t(1) Cons deq
      by (intro that [where q = q and pc' = "AtProcess m"])
        (simp_all add: sched_step_def run_step_def work_def del: length_pending_msgs)
  next
    case Nil
    show ?thesis
    proof (cases "mq_shutdown (message_queue t)")
      case False
      with mq_reader.take_empty [OF t(3) Nil] have wait: "dequeue (message_queue t) = Inr Blocks" by simp
      have eq: "t\<lparr>message_queue := message_queue t, queue_thread := AtDequeue\<rparr> = t" using deq by simp
      show ?thesis
        by (rule that [where q = "message_queue t" and pc' = AtDequeue], unfold eq)
          (use t deq wait Nil in \<open>simp_all add: sched_step_def run_step_def put_task_same work_def del: length_pending_msgs\<close>)
    next
      case True
      with mq_reader.take_empty [OF t(3) Nil] obtain q where q: "dequeue (message_queue t) = Inr (Returns (None, q))"
        "mq_good n q" "pending_msgs q = []" "mq_capacity q = mq_capacity (message_queue t)" by auto
      moreover have "calm q" by (rule calm_dequeue [OF t(3) q(1)])
      ultimately show ?thesis
        by (intro that [where q = q and pc' = AtTest])
          (use t deq Nil in \<open>simp_all add: sched_step_def run_step_def work_def del: length_pending_msgs\<close>)
    qed
  qed
qed

text \<open>In the handler, a step runs it and returns to the test.\<close>

lemma sched_step_process:
  assumes "tasks w p = Some t" "queue_thread t = AtProcess m" "process p m w = Inr w1" "tasks w1 p = Some t1"
  shows "sched_step process p w = Inr (put_task p (t1\<lparr>queue_thread := AtTest\<rparr>) w1)"
  using assms by (simp add: sched_step_def run_step_def set_queue_thread_def)

section \<open>What a round leaves alone\<close>

text \<open>
  Two worlds are alike when their tasks differ at most in the state, the queue, the queue thread and
  the members of the derived class, and the same tasks are subscribed.
\<close>

definition kin :: "Task \<Rightarrow> Task \<Rightarrow> bool" where
  "kin t t' \<longleftrightarrow> name t' = name t \<and> running t' = running t \<and> periodic_thread t' = periodic_thread t \<and>
     periodic_task_interval_ms t' = periodic_task_interval_ms t \<and> owned t' = owned t \<and>
     control_block t' = control_block t"

definition alike :: "World \<Rightarrow> World \<Rightarrow> bool" where
  "alike w w' \<longleftrightarrow> (\<forall>a. rel_option kin (tasks w a) (tasks w' a)) \<and>
     (\<forall>ty. live_subscribers w' ty = live_subscribers w ty)"

lemma kin_refl [simp]: "kin t t"
  by (simp add: kin_def)

lemma kin_trans: "kin t u \<Longrightarrow> kin u v \<Longrightarrow> kin t v"
  by (simp add: kin_def)

lemma alike_refl [simp]: "alike w w"
  by (simp add: alike_def option.rel_refl)

lemma alike_trans:
  assumes "alike w w1" "alike w1 w2"
  shows "alike w w2"
proof -
  have "rel_option kin (tasks w a) (tasks w2 a)" for a
  proof -
    have "rel_option kin (tasks w a) (tasks w1 a)" "rel_option kin (tasks w1 a) (tasks w2 a)"
      using assms by (simp_all add: alike_def)
    then show ?thesis
      by (cases "tasks w a"; cases "tasks w1 a"; cases "tasks w2 a") (auto intro: kin_trans)
  qed
  then show ?thesis using assms by (simp add: alike_def)
qed

lemma alike_task: "alike w w' \<Longrightarrow> tasks w a = Some t \<Longrightarrow> \<exists>t'. tasks w' a = Some t' \<and> kin t t'"
  by (auto simp: alike_def option_rel_Some1 dest!: spec [of _ a])

lemma alike_task': "alike w w' \<Longrightarrow> tasks w' a = Some t' \<Longrightarrow> \<exists>t. tasks w a = Some t \<and> kin t t'"
  by (auto simp: alike_def option_rel_Some2 dest!: spec [of _ a])

lemma alike_live: "alike w w' \<Longrightarrow> live_subscribers w' ty = live_subscribers w ty"
  by (simp add: alike_def)

lemma delivered_kin: "delivered n m c t t' \<Longrightarrow> kin t t'"
  by (auto simp: delivered_def kin_def split: if_splits)

lemma kin_updates [simp]:
  "kin t (t\<lparr>message_queue := q\<rparr>)" "kin t (t\<lparr>queue_thread := pc\<rparr>)" "kin t (t\<lparr>current_state := s\<rparr>)"
  "kin t (t\<lparr>derived_part := d\<rparr>)" "kin t (t\<lparr>message_queue := q, queue_thread := pc\<rparr>)"
  "kin t (t\<lparr>derived_part := d, queue_thread := pc\<rparr>)" "kin t (t\<lparr>current_state := s, queue_thread := pc\<rparr>)"
  by (simp_all add: kin_def)

text \<open>Subscriptions depend on the owners of the tasks only.\<close>

lemma owners_live:
  assumes "\<And>a. rel_option (\<lambda>t t'. owned t' = owned t \<and> control_block t' = control_block t) (tasks w a) (tasks w' a)"
    and "broker w' = broker w"
  shows "live_subscribers w' ty = live_subscribers w ty"
proof -
  have "weak_lock w' x = weak_lock w x" for x
    using assms(1) [of "wp_object x"]
    by (cases "tasks w (wp_object x)"; cases "tasks w' (wp_object x)") (simp_all add: weak_lock_def)
  then have wl: "weak_lock w' = weak_lock w" by (rule ext)
  show ?thesis using live_cong [OF wl] by (simp add: live_subscribers_def assms(2))
qed

lemma owners_broker_ok:
  assumes "\<And>a. rel_option (\<lambda>t t'. owned t' = owned t \<and> control_block t' = control_block t) (tasks w a) (tasks w' a)"
    and "broker_ok w" "broker w' = broker w" "next_block w' = next_block w"
  shows "broker_ok w'"
proof (rule broker_ok_cong [OF assms(2-4)])
  fix p
  show "map_option control_block (tasks w' p) = map_option control_block (tasks w p)"
    using assms(1) [of p] by (cases "tasks w p"; cases "tasks w' p") simp_all
qed

lemma kin_owners: "rel_option kin x y \<Longrightarrow>
    rel_option (\<lambda>t t'. owned t' = owned t \<and> control_block t' = control_block t) x y"
  by (cases x; cases y) (simp_all add: kin_def)

lemma alikeI:
  assumes "\<And>a. rel_option kin (tasks w a) (tasks w' a)" "broker w' = broker w"
  shows "alike w w'"
  using owners_live [OF kin_owners [OF assms(1)] assms(2)] assms(1) by (simp add: alike_def)

lemma alike_put_task:
  assumes "tasks w p = Some t" "tasks w' = (tasks w)(p \<mapsto> t')" "broker w' = broker w" "kin t t'"
  shows "alike w w'"
  by (rule alikeI) (use assms in \<open>simp_all add: option.rel_refl\<close>)

lemma alike_broker_ok:
  assumes "alike w w'" "broker_ok w" "broker w' = broker w" "next_block w' = next_block w"
  shows "broker_ok w'"
  by (rule owners_broker_ok [OF kin_owners assms(2-4)]) (use assms(1) in \<open>simp add: alike_def\<close>)

section \<open>The contract of a round\<close>

text \<open>
  The parts of a round: the handlers, the task that collects, the group, the type of the replies,
  the request to each task of the group, its replies, what its handler does to its state, which
  tasks can answer, and what the collecting task records.
\<close>

record round =
  handler :: "ptr \<Rightarrow> Msg \<Rightarrow> World \<Rightarrow> World result"
  collector :: ptr
  members :: "ptr set"
  reply_type :: Type
  request :: "ptr \<Rightarrow> Msg"
  reply :: "ptr \<Rightarrow> Msg \<Rightarrow> bool"
  adopt :: "TaskState \<Rightarrow> TaskState"
  serves :: "derived \<Rightarrow> bool"
  collects :: "derived \<Rightarrow> bool"
  recorded :: "ptr \<Rightarrow> derived \<Rightarrow> bool"

text \<open>
  A task of the group: its request is pending, or being handled, or it has handled it.
\<close>

definition follower :: "round \<Rightarrow> ptr \<Rightarrow> Task \<Rightarrow> bool" where
  "follower r x t \<longleftrightarrow> running t \<and> owned t \<and> serves r (derived_part t) \<and>
     mq_good 0 (message_queue t) \<and> calm (message_queue t) \<and> 0 < mq_capacity (message_queue t) \<and>
     ((queue_thread t = AtTest \<or> queue_thread t = AtDequeue) \<and>
        (pending_msgs (message_queue t) = [request r x] \<or>
         pending_msgs (message_queue t) = [] \<and> current_state t \<in> range (adopt r)) \<or>
      queue_thread t = AtProcess (request r x) \<and> pending_msgs (message_queue t) = [])"

text \<open>
  The collecting task while the tasks in \<open>B\<close> have not replied yet: each of the others is recorded,
  or its reply is pending or being handled. There is room for the replies that are still to come.
\<close>

definition leader :: "round \<Rightarrow> ptr set \<Rightarrow> Task \<Rightarrow> bool" where
  "leader r B t \<longleftrightarrow> running t \<and> owned t \<and> collects r (derived_part t) \<and>
     mq_good (card B) (message_queue t) \<and> calm (message_queue t) \<and>
     card (members r) \<le> mq_capacity (message_queue t) \<and>
     (\<forall>m \<in> set (pending_msgs (message_queue t)). \<exists>a \<in> members r. reply r a m) \<and>
     (queue_thread t = AtTest \<or> queue_thread t = AtDequeue \<or>
        (\<exists>a \<in> members r. \<exists>m. reply r a m \<and> queue_thread t = AtProcess m)) \<and>
     length (pending_msgs (message_queue t)) + card B +
       (if queue_thread t = AtTest \<or> queue_thread t = AtDequeue then 0 else 1) \<le> card (members r) \<and>
     (\<forall>a \<in> members r - B. recorded r a (derived_part t) \<or>
        (\<exists>m. reply r a m \<and> (m \<in> set (pending_msgs (message_queue t)) \<or> queue_thread t = AtProcess m)))"

definition busy :: "World \<Rightarrow> ptr set \<Rightarrow> ptr set" where
  "busy w P = {a \<in> P. work_at w a \<noteq> 0}"

definition collecting :: "round \<Rightarrow> World \<Rightarrow> bool" where
  "collecting r w \<longleftrightarrow> finite (members r) \<and> collector r \<notin> members r \<and> broker_ok w \<and> initialized (broker w) \<and>
     live_subscribers w (reply_type r) = [collector r] \<and>
     (\<forall>a \<in> members r. \<exists>t. tasks w a = Some t \<and> follower r a t) \<and>
     (\<exists>t. tasks w (collector r) = Some t \<and> leader r (busy w (members r)) t)"

lemma collecting_follower: "collecting r w \<Longrightarrow> a \<in> members r \<Longrightarrow> \<exists>t. tasks w a = Some t \<and> follower r a t"
  by (simp add: collecting_def)

lemma collecting_leader: "collecting r w \<Longrightarrow> \<exists>t. tasks w (collector r) = Some t \<and> leader r (busy w (members r)) t"
  by (simp add: collecting_def)

text \<open>A follower's thread moves outside its handler.\<close>

lemma follower_idle:
  assumes "follower r x t" "queue_thread t = AtTest \<or> queue_thread t = AtDequeue" "tasks w x = Some t"
  obtains t' where "sched_step f x w = Inr (put_task x t' w)" "follower r x t'" "work t' = work t - 1"
    "kin t t'" "work t' = 0 \<longleftrightarrow> work t = 0"
proof -
  from assms(1) have t: "running t" "mq_good 0 (message_queue t)" "calm (message_queue t)" by (simp_all add: follower_def)
  obtain q pc' where q: "sched_step f x w = Inr (put_task x (t\<lparr>message_queue := q, queue_thread := pc'\<rparr>) w)"
    "mq_good 0 q" "calm q" "mq_capacity q = mq_capacity (message_queue t)"
    "pc' = AtTest \<and> pending_msgs (message_queue t) = [] \<and> pending_msgs q = [] \<or>
     pc' = AtDequeue \<and> pending_msgs q = pending_msgs (message_queue t) \<or>
     (\<exists>m. pc' = AtProcess m \<and> queue_thread t = AtDequeue \<and>
        pending_msgs (message_queue t) = m # pending_msgs q)"
    "work (t\<lparr>message_queue := q, queue_thread := pc'\<rparr>) = work t - 1"
    using sched_step_idle [OF assms(3) t assms(2), of f thesis] by metis
  let ?t = "t\<lparr>message_queue := q, queue_thread := pc'\<rparr>"
  have "work t = 0 \<or> work t = 2 \<or> work t = 3"
    using assms(1,2) by (auto simp: follower_def work_def simp del: length_pending_msgs)
  with q(6) have "work ?t = 0 \<longleftrightarrow> work t = 0" by auto
  moreover have "follower r x ?t"
    using assms(1,2) q(2-5) by (auto simp: follower_def)
  ultimately show ?thesis using that q(1,6) by simp
qed

lemma leader_reply:
  assumes "leader r B t" "x \<in> B" "B \<subseteq> members r" "finite (members r)" "reply r x m"
    and "pending_msgs q = pq_insert m (pending_msgs (message_queue t))"
    and "mq_good (card B - 1) q" "mq_capacity q = mq_capacity (message_queue t)"
  shows "leader r (B - {x}) (t\<lparr>message_queue := q\<rparr>)"
proof -
  have B: "finite B" "card B = Suc (card (B - {x}))"
    using assms(2-4) by (auto simp: finite_subset card_Suc_Diff1 simp del: card_Diff_insert)
  have "x \<in> members r" "calm q" using assms(2,3) calm_pq_insert [OF assms(6)] by blast+
  with assms B show ?thesis
    by (auto simp: leader_def simp del: length_pending_msgs card_Diff_insert)
qed

text \<open>The collecting task moves outside its handler, and records a reply in it.\<close>

lemma leader_idle:
  assumes t: "leader r B t" "queue_thread t = AtTest \<or> queue_thread t = AtDequeue"
    and q: "mq_good (card B) q" "calm q" "mq_capacity q = mq_capacity (message_queue t)"
    and pc: "pc' = AtTest \<and> pending_msgs (message_queue t) = [] \<and> pending_msgs q = [] \<or>
     pc' = AtDequeue \<and> pending_msgs q = pending_msgs (message_queue t) \<or>
     (\<exists>m. pc' = AtProcess m \<and> queue_thread t = AtDequeue \<and>
        pending_msgs (message_queue t) = m # pending_msgs q)"
  shows "leader r B (t\<lparr>message_queue := q, queue_thread := pc'\<rparr>)"
proof -
  have keep: "m \<in> set (pending_msgs q) \<or> pc' = AtProcess m" if "m \<in> set (pending_msgs (message_queue t))" for m
    using pc that by auto
  have sub: "set (pending_msgs q) \<subseteq> set (pending_msgs (message_queue t))" using pc by auto
  have replies: "\<forall>m \<in> set (pending_msgs (message_queue t)). \<exists>a \<in> members r. reply r a m"
    "length (pending_msgs (message_queue t)) + card B \<le> card (members r)"
    "\<forall>a \<in> members r - B. recorded r a (derived_part t) \<or> (\<exists>m. reply r a m \<and> m \<in> set (pending_msgs (message_queue t)))"
    using t by (auto simp: leader_def simp del: length_pending_msgs)
  have "\<forall>a \<in> members r - B. recorded r a (derived_part t) \<or>
      (\<exists>m. reply r a m \<and> (m \<in> set (pending_msgs q) \<or> pc' = AtProcess m))"
    using replies(3) keep by blast
  moreover have "\<forall>m \<in> set (pending_msgs q). \<exists>a \<in> members r. reply r a m" using sub replies(1) by blast
  moreover have "pc' = AtTest \<or> pc' = AtDequeue \<or> (\<exists>a \<in> members r. \<exists>m. reply r a m \<and> pc' = AtProcess m)"
    using pc replies(1) by (elim disjE exE conjE) simp_all
  moreover have "length (pending_msgs q) + card B + (if pc' = AtTest \<or> pc' = AtDequeue then 0 else 1) \<le> card (members r)"
    using pc replies(2) by (elim disjE exE conjE) (simp_all del: length_pending_msgs)
  moreover have "running t" "owned t" "collects r (derived_part t)" "card (members r) \<le> mq_capacity (message_queue t)"
    using t(1) by (simp_all add: leader_def)
  ultimately show ?thesis using q unfolding leader_def by (simp del: length_pending_msgs)
qed

lemma leader_recorded:
  assumes t: "leader r B t" "queue_thread t = AtProcess m"
    and d: "collects r d" "recorded r a d" "\<forall>b \<in> members r. recorded r b (derived_part t) \<longrightarrow> recorded r b d"
    and mine: "\<forall>b. reply r b m \<longrightarrow> b = a"
  shows "leader r B (t\<lparr>derived_part := d, queue_thread := AtTest\<rparr>)"
proof -
  have "recorded r b d \<or> (\<exists>m. reply r b m \<and> m \<in> set (pending_msgs (message_queue t)))" if "b \<in> members r - B" for b
    using t that d(2,3) mine unfolding leader_def by (metis DiffD1 thread.inject(1))
  then show ?thesis using t d(1) by (simp add: leader_def del: length_pending_msgs)
qed

text \<open>The handlers of a round.\<close>

locale collection =
  fixes r :: round
  assumes serve: "broker_ok w \<Longrightarrow> initialized (broker w) \<Longrightarrow> x \<in> members r \<Longrightarrow> tasks w x = Some t \<Longrightarrow> owned t \<Longrightarrow>
      serves r (derived_part t) \<Longrightarrow> subscribers_ready k (reply_type r) w \<Longrightarrow>
      \<exists>w1 m. handler r x (request r x) w = Inr w1 \<and> reply r x m \<and> broker_ok w1 \<and> initialized (broker w1) \<and>
        (\<forall>a. rel_option (delivered k m (a \<in> set (live_subscribers w (reply_type r))))
           (((tasks w)(x \<mapsto> t\<lparr>current_state := adopt r (current_state t)\<rparr>)) a) (tasks w1 a)) \<and>
        (\<forall>ty. live_subscribers w1 ty = live_subscribers w ty)"
    and collect: "broker_ok w \<Longrightarrow> tasks w (collector r) = Some t \<Longrightarrow> collects r (derived_part t) \<Longrightarrow>
      a \<in> members r \<Longrightarrow> reply r a m \<Longrightarrow> \<forall>b \<in> members r. tasks w b \<noteq> None \<Longrightarrow>
      \<exists>w1 d. handler r (collector r) m w = Inr w1 \<and>
        tasks w1 = (tasks w)(collector r \<mapsto> t\<lparr>derived_part := d\<rparr>) \<and> broker w1 = broker w \<and>
        next_block w1 = next_block w \<and> collects r d \<and> recorded r a d \<and>
        (\<forall>b \<in> members r. recorded r b (derived_part t) \<longrightarrow> recorded r b d)"
    and sender: "reply r a m \<Longrightarrow> get_sender m = a"
begin

text \<open>A follower's handler posts the reply to the collecting task.\<close>

lemma follower_process:
  assumes col: "collecting r w" and x: "x \<in> members r" "tasks w x = Some t" "follower r x t"
    and pc: "queue_thread t = AtProcess (request r x)"
    and t0: "tasks w (collector r) = Some t0" "leader r (busy w (members r)) t0"
  obtains w' q m s where "sched_step (handler r) x w = Inr w'" "reply r x m" "s \<in> range (adopt r)"
    "tasks w' = (tasks w)(x \<mapsto> t\<lparr>current_state := s, queue_thread := AtTest\<rparr>, collector r \<mapsto> t0\<lparr>message_queue := q\<rparr>)"
    "broker_ok w'" "initialized (broker w')" "\<forall>ty. live_subscribers w' ty = live_subscribers w ty"
    "pending_msgs q = pq_insert m (pending_msgs (message_queue t0))"
    "mq_good (card (busy w (members r)) - 1) q" "mq_capacity q = mq_capacity (message_queue t0)"
proof -
  let ?P = "members r" and ?p = "collector r" and ?s = "adopt r (current_state t)"
  have w: "broker_ok w" "initialized (broker w)" "live_subscribers w (reply_type r) = [?p]" "finite ?P" "?p \<noteq> x"
    using col x(1) by (auto simp: collecting_def)
  have "x \<in> busy w ?P" using x pc by (simp add: busy_def work_def)
  moreover have "finite (busy w ?P)" using w(4) by (simp add: busy_def)
  ultimately obtain k where k: "card (busy w ?P) = Suc k" by (metis card_Suc_Diff1)
  have room: "mq_good (Suc k) (message_queue t0)" "mq_room (message_queue t0)"
    using t0(2) k by (auto simp: leader_def mq_room_def simp del: length_pending_msgs)
  have ready: "subscribers_ready k (reply_type r) w" using room t0(1) w(3) by (simp add: subscribers_ready_def)
  have own: "owned t" "serves r (derived_part t)" using x(3) by (simp_all add: follower_def)
  obtain w1 m where w1: "handler r x (request r x) w = Inr w1" "reply r x m" "broker_ok w1" "initialized (broker w1)"
    "\<forall>a. rel_option (delivered k m (a \<in> set (live_subscribers w (reply_type r))))
       (((tasks w)(x \<mapsto> t\<lparr>current_state := ?s\<rparr>)) a) (tasks w1 a)"
    "\<forall>ty. live_subscribers w1 ty = live_subscribers w ty"
    using serve [OF w(1,2) x(1,2) own ready] by blast
  have same: "tasks w1 a = ((tasks w)(x \<mapsto> t\<lparr>current_state := ?s\<rparr>)) a" if "a \<noteq> ?p" for a
    using spec [OF w1(5), of a] that w(3)
    by (cases "tasks w1 a") (auto simp: delivered_def option_rel_Some2 split: if_splits)
  from spec [OF w1(5), of ?p] w(3,5) t0(1) obtain q where q: "tasks w1 ?p = Some (t0\<lparr>message_queue := q\<rparr>)"
    "mq_good k q" "pending_msgs q = pq_insert m (pending_msgs (message_queue t0))"
    "mq_capacity q = mq_capacity (message_queue t0)"
    by (auto simp: delivered_def option_rel_Some1)
  have tx: "tasks w1 x = Some (t\<lparr>current_state := ?s\<rparr>)" using same [of x] w(5) by simp
  let ?w = "put_task x (t\<lparr>current_state := ?s, queue_thread := AtTest\<rparr>) w1"
  have "sched_step (handler r) x w = Inr ?w"
    using sched_step_process [where process = "handler r", OF x(2) pc w1(1) tx] by simp
  moreover have "tasks ?w = (tasks w)(x \<mapsto> t\<lparr>current_state := ?s, queue_thread := AtTest\<rparr>, ?p \<mapsto> t0\<lparr>message_queue := q\<rparr>)"
    using same q(1) w(5) by (auto simp: fun_eq_iff)
  moreover have "broker_ok ?w" by (rule broker_ok_put_task [OF w1(3) tx]) simp
  moreover have "\<forall>ty. live_subscribers ?w ty = live_subscribers w ty"
    using live_subscribers_put_task [OF tx] w1(6) by simp
  ultimately show ?thesis using that [of ?w m ?s q] w1(2,4) q k by simp
qed

lemma follower_step:
  assumes col: "collecting r w" and x: "x \<in> members r"
  obtains w' where "sched_step (handler r) x w = Inr w'" "collecting r w'" "alike w w'"
    "work_at w' x = work_at w x - 1" "\<forall>y \<in> members r. y \<noteq> x \<longrightarrow> work_at w' y = work_at w y"
    "work_at w x = 0 \<Longrightarrow> work_at w' (collector r) = work_at w (collector r)"
proof -
  let ?P = "members r" and ?p = "collector r"
  obtain t where t: "tasks w x = Some t" "follower r x t" using collecting_follower [OF col x] by blast
  obtain t0 where t0: "tasks w ?p = Some t0" "leader r (busy w ?P) t0" using collecting_leader [OF col] by blast
  have ne: "x \<noteq> ?p" using col x by (auto simp: collecting_def)
  show ?thesis
  proof (cases "queue_thread t = AtTest \<or> queue_thread t = AtDequeue")
    case True
    obtain t' where t': "sched_step (handler r) x w = Inr (put_task x t' w)" "follower r x t'"
      "work t' = work t - 1" "kin t t'" "work t' = 0 \<longleftrightarrow> work t = 0"
      using follower_idle [OF t(2) True t(1)] by metis
    let ?w = "put_task x t' w"
    have al: "alike w ?w" by (rule alike_put_task [OF t(1) _ _ t'(4)]) simp_all
    have "busy ?w ?P = busy w ?P" using t(1) t'(5) by (auto simp: busy_def work_at_def)
    moreover have "broker_ok ?w" using alike_broker_ok [OF al] col by (simp add: collecting_def)
    ultimately have "collecting r ?w" using col t' t0 ne alike_live [OF al] by (auto simp: collecting_def)
    with t' t(1) ne al show ?thesis by (intro that [of ?w]) (auto simp: work_at_def)
  next
    case False
    with t(2) have pc: "queue_thread t = AtProcess (request r x)" "pending_msgs (message_queue t) = []"
      by (auto simp: follower_def)
    obtain w' q m s where w': "sched_step (handler r) x w = Inr w'" "reply r x m" "s \<in> range (adopt r)"
      "tasks w' = (tasks w)(x \<mapsto> t\<lparr>current_state := s, queue_thread := AtTest\<rparr>, ?p \<mapsto> t0\<lparr>message_queue := q\<rparr>)"
      "broker_ok w'" "initialized (broker w')" "\<forall>ty. live_subscribers w' ty = live_subscribers w ty"
      "pending_msgs q = pq_insert m (pending_msgs (message_queue t0))"
      "mq_good (card (busy w ?P) - 1) q" "mq_capacity q = mq_capacity (message_queue t0)"
      by (rule follower_process [OF col x t pc(1) t0])
    let ?t = "t\<lparr>current_state := s, queue_thread := AtTest\<rparr>"
    have work: "work t = 1" "work ?t = 0"
      using pc by (simp_all add: work_def del: length_pending_msgs)
    have at: "work_at w' y = (if y = x then 0 else work_at w y)" if "y \<in> ?P" for y
      using that w'(4) work(2) ne col by (auto simp: work_at_def collecting_def)
    have sub: "busy w ?P \<subseteq> ?P" "finite ?P" "x \<in> busy w ?P"
      using col x t(1) work(1) by (auto simp: busy_def collecting_def)
    have "busy w' ?P = busy w ?P - {x}" using at by (auto simp: busy_def split: if_splits)
    moreover have "leader r (busy w ?P - {x}) (t0\<lparr>message_queue := q\<rparr>)"
      by (rule leader_reply [OF t0(2) sub(3,1,2) w'(2,8-10)])
    moreover have "follower r x ?t" using t(2) pc(2) w'(3) by (simp add: follower_def)
    ultimately have "collecting r w'" using col w'(4-7) ne by (auto simp: collecting_def)
    moreover have "alike w w'" using w'(4,7) t(1) t0(1) by (simp add: alike_def option.rel_refl)
    ultimately show ?thesis using w'(1) at x work(1) t(1) by (intro that [of w']) auto
  qed
qed

text \<open>The collecting task moves.\<close>

lemma leader_frame:
  assumes col: "collecting r w" and t: "tasks w (collector r) = Some t"
    and w': "tasks w' = (tasks w)(collector r \<mapsto> t')" "broker w' = broker w" "next_block w' = next_block w"
    and t': "kin t t'" "leader r (busy w (members r)) t'"
  shows "collecting r w'" "alike w w'" "\<forall>y \<in> members r. work_at w' y = work_at w y"
proof -
  have P: "collector r \<notin> members r" using col by (simp add: collecting_def)
  show at: "\<forall>y \<in> members r. work_at w' y = work_at w y" using w'(1) P by (auto simp: work_at_def)
  show al: "alike w w'" by (rule alike_put_task [OF t w'(1,2) t'(1)])
  have "broker_ok w'" using alike_broker_ok [OF al _ w'(2,3)] col by (simp add: collecting_def)
  moreover have "busy w' (members r) = busy w (members r)" using at by (auto simp: busy_def)
  ultimately show "collecting r w'"
    using col w' t'(2) P alike_live [OF al] by (auto simp: collecting_def)
qed

lemma leader_step:
  assumes col: "collecting r w"
  obtains w' where "sched_step (handler r) (collector r) w = Inr w'" "collecting r w'" "alike w w'"
    "work_at w' (collector r) = work_at w (collector r) - 1" "\<forall>y \<in> members r. work_at w' y = work_at w y"
proof -
  let ?P = "members r" and ?p = "collector r"
  obtain t where t: "tasks w ?p = Some t" "leader r (busy w ?P) t" using collecting_leader [OF col] by blast
  show ?thesis
  proof (cases "queue_thread t = AtTest \<or> queue_thread t = AtDequeue")
    case True
    from t(2) have good: "running t" "mq_good (card (busy w ?P)) (message_queue t)" "calm (message_queue t)"
      by (simp_all add: leader_def)
    obtain q pc' where q: "sched_step (handler r) ?p w = Inr (put_task ?p (t\<lparr>message_queue := q, queue_thread := pc'\<rparr>) w)"
      "mq_good (card (busy w ?P)) q" "calm q" "mq_capacity q = mq_capacity (message_queue t)"
      "pc' = AtTest \<and> pending_msgs (message_queue t) = [] \<and> pending_msgs q = [] \<or>
       pc' = AtDequeue \<and> pending_msgs q = pending_msgs (message_queue t) \<or>
       (\<exists>m. pc' = AtProcess m \<and> queue_thread t = AtDequeue \<and>
          pending_msgs (message_queue t) = m # pending_msgs q)"
      "work (t\<lparr>message_queue := q, queue_thread := pc'\<rparr>) = work t - 1"
      using sched_step_idle [OF t(1) good True, of "handler r" thesis] by metis
    let ?t = "t\<lparr>message_queue := q, queue_thread := pc'\<rparr>"
    have "leader r (busy w ?P) ?t"
      by (rule leader_idle [OF t(2) True q(2-5)])
    with leader_frame [OF col t(1), of "put_task ?p ?t w" ?t] q(1,6) t(1) show ?thesis
      by (intro that [of "put_task ?p ?t w"]) auto
  next
    case False
    with t(2) obtain a m where a: "a \<in> ?P" "reply r a m" "queue_thread t = AtProcess m" by (auto simp: leader_def)
    have pre: "broker_ok w" "collects r (derived_part t)" "\<forall>b \<in> ?P. tasks w b \<noteq> None"
      using col t(2) by (auto simp: collecting_def leader_def)
    obtain w1 d where w1: "handler r ?p m w = Inr w1" "tasks w1 = (tasks w)(?p \<mapsto> t\<lparr>derived_part := d\<rparr>)"
      "broker w1 = broker w" "next_block w1 = next_block w" "collects r d" "recorded r a d"
      "\<forall>b \<in> ?P. recorded r b (derived_part t) \<longrightarrow> recorded r b d"
      using collect [OF pre(1) t(1) pre(2) a(1,2) pre(3)] by blast
    let ?t = "t\<lparr>derived_part := d, queue_thread := AtTest\<rparr>"
    have step: "sched_step (handler r) ?p w = Inr (put_task ?p ?t w1)"
      using sched_step_process [where process = "handler r", OF t(1) a(3) w1(1)] w1(2) by simp
    have mine: "b = a" if "reply r b m" for b using sender [OF that] sender [OF a(2)] by simp
    have "leader r (busy w ?P) ?t"
      by (rule leader_recorded [OF t(2) a(3) w1(5-7)]) (use mine in blast)
    with leader_frame [OF col t(1), of "put_task ?p ?t w1" ?t] step w1(2-4) a(3) t(1) show ?thesis
      by (intro that [of "put_task ?p ?t w1"]) (auto simp: work_def)
  qed
qed

text \<open>Any interleaving of the threads.\<close>

lemma collecting_step:
  assumes "collecting r w" "x \<in> insert (collector r) (members r)"
  obtains w' where "sched_step (handler r) x w = Inr w'" "collecting r w'" "alike w w'"
    "\<forall>y \<in> members r. work_at w' y = work_at w y - count_list [x] y"
    "\<forall>y \<in> members r. work_at w y = 0 \<Longrightarrow> work_at w' (collector r) = work_at w (collector r) - count_list [x] (collector r)"
proof (cases "x = collector r")
  case True
  have "collector r \<notin> members r" using assms(1) by (simp add: collecting_def)
  moreover obtain w' where "sched_step (handler r) (collector r) w = Inr w'" "collecting r w'" "alike w w'"
    "work_at w' (collector r) = work_at w (collector r) - 1" "\<forall>y \<in> members r. work_at w' y = work_at w y"
    by (rule leader_step [OF assms(1)])
  ultimately show ?thesis using True by (intro that [of w']) auto
next
  case False
  with assms(2) have x: "x \<in> members r" by simp
  obtain w' where "sched_step (handler r) x w = Inr w'" "collecting r w'" "alike w w'"
    "work_at w' x = work_at w x - 1" "\<forall>y \<in> members r. y \<noteq> x \<longrightarrow> work_at w' y = work_at w y"
    "work_at w x = 0 \<Longrightarrow> work_at w' (collector r) = work_at w (collector r)"
    using follower_step [OF assms(1) x] by metis
  with x False show ?thesis by (intro that [of w']) auto
qed

lemma collecting_schedule:
  "collecting r w \<Longrightarrow> set sch \<subseteq> insert (collector r) (members r) \<Longrightarrow>
    \<exists>w'. run_schedule (handler r) sch w = Inr w' \<and> collecting r w' \<and> alike w w' \<and>
      (\<forall>y \<in> members r. work_at w' y = work_at w y - count_list sch y) \<and>
      ((\<forall>y \<in> members r. work_at w y = 0) \<longrightarrow>
        work_at w' (collector r) = work_at w (collector r) - count_list sch (collector r))"
proof (induction sch arbitrary: w)
  case Nil
  then show ?case by simp
next
  case (Cons x sch)
  obtain w1 where w1: "sched_step (handler r) x w = Inr w1" "collecting r w1" "alike w w1"
    "\<forall>y \<in> members r. work_at w1 y = work_at w y - count_list [x] y"
    "\<forall>y \<in> members r. work_at w y = 0 \<Longrightarrow>
       work_at w1 (collector r) = work_at w (collector r) - count_list [x] (collector r)"
    using collecting_step [OF Cons.prems(1), of x] Cons.prems(2) by auto
  from Cons.IH [OF w1(2)] Cons.prems(2) obtain w' where
    w': "run_schedule (handler r) sch w1 = Inr w'" "collecting r w'" "alike w1 w'"
      "\<forall>y \<in> members r. work_at w' y = work_at w1 y - count_list sch y"
      "(\<forall>y \<in> members r. work_at w1 y = 0) \<longrightarrow>
        work_at w' (collector r) = work_at w1 (collector r) - count_list sch (collector r)"
    by auto
  have "work_at w' (collector r) = work_at w (collector r) - count_list (x # sch) (collector r)"
    if idle: "\<forall>y \<in> members r. work_at w y = 0"
  proof -
    have "\<forall>y \<in> members r. work_at w1 y = 0" using w1(4) idle by simp
    with w'(5) w1(5) [OF idle] show ?thesis by auto
  qed
  with w1(1,4) w' alike_trans [OF w1(3) w'(3)] show ?case by (intro exI [of _ w']) auto
qed

text \<open>
  Three steps of each task of the group, and after that three steps of the collecting task for each
  reply, finish the work of all threads.
\<close>

lemma collecting_finishes:
  assumes "collecting r w" "set (sch1 @ sch2) \<subseteq> insert (collector r) (members r)"
    and "\<forall>a \<in> members r. 3 \<le> count_list sch1 a" "3 * card (members r) \<le> count_list sch2 (collector r)"
  obtains w' where "run_schedule (handler r) (sch1 @ sch2) w = Inr w'" "collecting r w'" "alike w w'"
    "\<forall>a \<in> insert (collector r) (members r). work_at w' a = 0"
proof -
  obtain w1 where w1: "run_schedule (handler r) sch1 w = Inr w1" "collecting r w1" "alike w w1"
    "\<forall>y \<in> members r. work_at w1 y = work_at w y - count_list sch1 y"
    using collecting_schedule [OF assms(1), of sch1] assms(2) by auto
  have "work_at w a \<le> 3" if "a \<in> members r" for a
    using collecting_follower [OF assms(1) that] by (auto simp: follower_def work_def simp del: length_pending_msgs)
  then have idle: "\<forall>y \<in> members r. work_at w1 y = 0" using w1(4) assms(3) by fastforce
  obtain w2 where w2: "run_schedule (handler r) sch2 w1 = Inr w2" "collecting r w2" "alike w1 w2"
    "\<forall>y \<in> members r. work_at w2 y = 0"
    "work_at w2 (collector r) = work_at w1 (collector r) - count_list sch2 (collector r)"
    using collecting_schedule [OF w1(2), of sch2] assms(2) idle by auto
  have "work_at w1 (collector r) \<le> 3 * card (members r)"
    using collecting_leader [OF w1(2)] by (auto simp: leader_def work_def simp del: length_pending_msgs)
  then have "work_at w2 (collector r) = 0" using w2(5) assms(4) by simp
  with that [of w2] w1(1) w2(1,2,4) alike_trans [OF w1(3) w2(3)] show ?thesis by (simp add: run_schedule_append)
qed

end

text \<open>When no thread has work left, all requests are handled and all replies recorded.\<close>

lemma collecting_done:
  assumes "collecting r w" "\<forall>a \<in> insert (collector r) (members r). work_at w a = 0"
  shows "\<forall>a \<in> members r. \<exists>t. tasks w a = Some t \<and> follower r a t \<and> current_state t \<in> range (adopt r) \<and>
      pending_msgs (message_queue t) = [] \<and> (queue_thread t = AtTest \<or> queue_thread t = AtDequeue)"
    and "\<exists>t. tasks w (collector r) = Some t \<and> leader r {} t \<and> pending_msgs (message_queue t) = [] \<and>
      (queue_thread t = AtTest \<or> queue_thread t = AtDequeue) \<and> (\<forall>a \<in> members r. recorded r a (derived_part t))"
proof -
  have idle: "pending_msgs (message_queue t) = [] \<and> (queue_thread t = AtTest \<or> queue_thread t = AtDequeue)"
    if "work t = 0" "queue_thread t = AtTest \<or> queue_thread t = AtDequeue \<or> (\<exists>m. queue_thread t = AtProcess m)" for t
    using that work_zero [of t] by blast
  show "\<forall>a \<in> members r. \<exists>t. tasks w a = Some t \<and> follower r a t \<and> current_state t \<in> range (adopt r) \<and>
      pending_msgs (message_queue t) = [] \<and> (queue_thread t = AtTest \<or> queue_thread t = AtDequeue)"
  proof
    fix a
    assume a: "a \<in> members r"
    obtain t where t: "tasks w a = Some t" "follower r a t" using collecting_follower [OF assms(1) a] by blast
    have "work t = 0" using assms(2) a t(1) by auto
    with idle [of t] t(2) have "pending_msgs (message_queue t) = []" "queue_thread t = AtTest \<or> queue_thread t = AtDequeue"
      by (auto simp: follower_def)
    with t show "\<exists>t. tasks w a = Some t \<and> follower r a t \<and> current_state t \<in> range (adopt r) \<and>
        pending_msgs (message_queue t) = [] \<and> (queue_thread t = AtTest \<or> queue_thread t = AtDequeue)"
      by (auto simp: follower_def)
  qed
  obtain t where t: "tasks w (collector r) = Some t" "leader r (busy w (members r)) t"
    using collecting_leader [OF assms(1)] by blast
  have "busy w (members r) = {}" "work t = 0" using assms(2) t(1) by (auto simp: busy_def)
  moreover have "pending_msgs (message_queue t) = [] \<and> (queue_thread t = AtTest \<or> queue_thread t = AtDequeue)"
    using idle [OF \<open>work t = 0\<close>] t(2) by (auto simp: leader_def)
  ultimately show "\<exists>t. tasks w (collector r) = Some t \<and> leader r {} t \<and> pending_msgs (message_queue t) = [] \<and>
      (queue_thread t = AtTest \<or> queue_thread t = AtDequeue) \<and> (\<forall>a \<in> members r. recorded r a (derived_part t))"
    using t by (auto simp: leader_def simp del: length_pending_msgs)
qed

end
