(* ===== verification/Protocol.thy ===== *)
theory Protocol
  imports Rounds
begin

text \<open>
  The protocol of a demanded state transition, end to end: the state manager broadcasts the new
  state, the tasks adopt it and acknowledge, the manager records the acknowledgements. The queue
  threads run in any order. A demand is a round of request and reply, and it leaves the system at
  rest, so that demands can follow each other.
\<close>

section \<open>A demand as a round\<close>

text \<open>The program's own tasks follow state messages.\<close>

definition follows :: "user_code \<Rightarrow> ptr \<Rightarrow> TaskState \<Rightarrow> bool" where
  "follows code p0 s \<longleftrightarrow> (\<forall>a w. user_process code a (state_msg p0 s) w = transition_to_state a s w)"

lemma process_state_msg:
  assumes "follows code p0 s" "state_of_byte (byte_of_state s) = s"
    and "tasks w a = Some t" "\<forall>sm. derived_part t \<noteq> DerivedStateManager sm"
  shows "process_message code a (state_msg p0 s) w = Task_transition_to_state a s w"
proof -
  have "transition_to_state a s w = Task_transition_to_state a s w"
    using assms(3,4) by (cases "derived_part t") (simp_all add: transition_to_state_def)
  with assms show ?thesis
    by (cases "derived_part t")
      (simp_all add: process_message_def follows_def HeartBeatTask_process_message_def get_data_as_def)
qed

lemma ack_msg_inject [simp]: "ack_msg a s = ack_msg b s \<longleftrightarrow> a = b"
  by (auto simp: ack_msg_def)

text \<open>
  The manager at \<open>p0\<close> sends the tasks in \<open>P\<close> to the state \<open>s\<close>. The tasks in \<open>D\<close> are registered and the
  last demanded state is \<open>target\<close>.
\<close>

definition state_round :: "user_code \<Rightarrow> ptr \<Rightarrow> TaskState \<Rightarrow> TaskState \<Rightarrow> ptr set \<Rightarrow> ptr set \<Rightarrow> round" where
  "state_round code p0 s target D P =
     \<lparr>handler = process_message code, collector = p0, members = P, reply_type = Type_StateAckMsg,
      request = \<lambda>a. state_msg p0 s, reply = \<lambda>a m. m = ack_msg a s, adopt = \<lambda>_. s,
      serves = \<lambda>d. follows code p0 s \<and> (\<forall>n. s \<noteq> Unenumerated n) \<and> (\<forall>sm. d \<noteq> DerivedStateManager sm),
      collects = \<lambda>d. (\<forall>n. s \<noteq> Unenumerated n) \<and> P \<subseteq> D \<and> (\<exists>sm. d = DerivedStateManager sm \<and>
        map_sorted (task_states sm) \<and> dom (map_find (task_states sm)) = D \<and> target_state sm = Some target),
      recorded = \<lambda>a d. \<exists>sm. d = DerivedStateManager sm \<and> map_find (task_states sm) a = Some s\<rparr>"

lemma state_round_simps [simp]:
  "handler (state_round code p0 s target D P) = process_message code" "collector (state_round code p0 s target D P) = p0"
  "members (state_round code p0 s target D P) = P" "reply_type (state_round code p0 s target D P) = Type_StateAckMsg"
  "request (state_round code p0 s target D P) = (\<lambda>a. state_msg p0 s)"
  "reply (state_round code p0 s target D P) = (\<lambda>a m. m = ack_msg a s)" "adopt (state_round code p0 s target D P) = (\<lambda>_. s)"
  by (simp_all add: state_round_def)

interpretation acks: collection "state_round code p0 s target D P" for code p0 s target D P
proof (unfold_locales, goal_cases)
  case (1 w x t k)
  then have code: "follows code p0 s" "state_of_byte (byte_of_state s) = s" "\<forall>sm. derived_part t \<noteq> DerivedStateManager sm"
    and ready: "subscribers_ready k Type_StateAckMsg w"
    by (simp_all add: state_round_def)
  obtain w1 where "Task_transition_to_state x s w = Inr w1" "broker_ok w1" "initialized (broker w1)"
    "\<And>a. rel_option (delivered k (ack_msg x s) (a \<in> set (live_subscribers w Type_StateAckMsg)))
       (((tasks w)(x \<mapsto> t\<lparr>current_state := s\<rparr>)) a) (tasks w1 a)"
    "\<And>ty. live_subscribers w1 ty = live_subscribers w ty"
    using transition_ok [OF 1(1,2,4,5) ready, of s] by metis
  with process_state_msg [OF code(1,2) 1(4) code(3)] show ?case by simp
next
  case (2 w t a m)
  then obtain sm where sm: "derived_part t = DerivedStateManager sm" "map_sorted (task_states sm)"
    "dom (map_find (task_states sm)) = D" "target_state sm = Some target" "state_of_byte (byte_of_state s) = s" "P \<subseteq> D"
    by (auto simp: state_round_def)
  from 2 have m: "m = ack_msg a s" "a \<in> P" "tasks w a \<noteq> None" "tasks w p0 = Some t" by simp_all
  then have "a \<noteq> nullptr" using broker_ok_nullptr [OF 2(1)] by auto
  moreover have "map_find (task_states sm) a \<noteq> None" using sm(3,6) m(2) by auto
  ultimately obtain notified w1 sm' where w1: "handle_acknowledgment p0 m w = Inr (notified, w1)"
    "tasks w1 = (tasks w)(p0 \<mapsto> t\<lparr>derived_part := DerivedStateManager sm'\<rparr>)"
    "map_find (task_states sm') = (map_find (task_states sm))(a \<mapsto> s)"
    "map_sorted (task_states sm')" "target_state sm' = Some target" "broker w1 = broker w" "next_block w1 = next_block w"
    using acknowledgment_ok [OF m(4) sm(1,2,4), of "ack_msg a s"] m(1,3) sm(5) by auto
  have "process_message code p0 m w = Inr w1"
    using m(1,4) sm(1) w1(1) by (simp add: process_message_def StateManager_process_message_def)
  moreover have "dom (map_find (task_states sm')) = D" using w1(3) sm(3,6) m(2) by auto
  ultimately show ?case
    using w1(2-7) sm(1) 2(3)
    by (intro exI [of _ w1] exI [of _ "DerivedStateManager sm'"]) (auto simp: state_round_def)
next
  case (3 a m)
  then show ?case by simp
qed

text \<open>The demand of the state \<open>s\<close>, addressed to all registered tasks.\<close>

definition demand_round :: "user_code \<Rightarrow> ptr \<Rightarrow> TaskState \<Rightarrow> ptr set \<Rightarrow> round" where
  "demand_round code p0 s P = state_round code p0 s s P P"

lemma demand_round_simps [simp]:
  "handler (demand_round code p0 s P) = process_message code" "collector (demand_round code p0 s P) = p0"
  "members (demand_round code p0 s P) = P" "reply_type (demand_round code p0 s P) = Type_StateAckMsg"
  "request (demand_round code p0 s P) = (\<lambda>a. state_msg p0 s)"
  "reply (demand_round code p0 s P) = (\<lambda>a m. m = ack_msg a s)" "adopt (demand_round code p0 s P) = (\<lambda>_. s)"
  by (simp_all add: demand_round_def)

interpretation demand: collection "demand_round code p0 s P" for code p0 s P
  unfolding demand_round_def by (rule acks.collection_axioms)

section \<open>The system at rest\<close>

text \<open>
  The system between demands: the tasks in \<open>P\<close> are the registered tasks and the subscribers of
  state messages, the manager at \<open>p0\<close> is the subscriber of acknowledgements, all queue threads run
  and wait for messages, and the manager's queue can hold one acknowledgement of each task.
\<close>

definition idle_thread :: "Task \<Rightarrow> bool" where
  "idle_thread t \<longleftrightarrow> running t \<and> owned t \<and> pending_msgs (message_queue t) = [] \<and> calm (message_queue t) \<and>
     (queue_thread t = AtTest \<or> queue_thread t = AtDequeue)"

definition manages :: "ptr set \<Rightarrow> derived \<Rightarrow> bool" where
  "manages P d \<longleftrightarrow> (\<exists>sm. d = DerivedStateManager sm \<and> map_sorted (task_states sm) \<and> dom (map_find (task_states sm)) = P)"

definition managed :: "derived \<Rightarrow> bool" where
  "managed d \<longleftrightarrow> (\<forall>sm. d \<noteq> DerivedStateManager sm)"

definition quiescent :: "ptr \<Rightarrow> ptr set \<Rightarrow> World \<Rightarrow> bool" where
  "quiescent p0 P w \<longleftrightarrow> p0 \<notin> P \<and> card P < 2 ^ 32 \<and> broker_ok w \<and> initialized (broker w) \<and>
     live_subscribers w Type_StateAckMsg = [p0] \<and> set (live_subscribers w Type_StateMsg) = P \<and>
     (\<forall>a \<in> P. \<exists>t. tasks w a = Some t \<and> idle_thread t \<and> managed (derived_part t) \<and>
        0 < mq_capacity (message_queue t)) \<and>
     (\<exists>t. tasks w p0 = Some t \<and> idle_thread t \<and> manages P (derived_part t) \<and>
        card P \<le> mq_capacity (message_queue t))"

lemma idle_thread_good: "idle_thread t \<Longrightarrow> n < 2 ^ 32 \<Longrightarrow> mq_good n (message_queue t)"
  by (simp add: idle_thread_def calm_def)

lemma quiescent_task:
  "quiescent p0 P w \<Longrightarrow> a \<in> P \<Longrightarrow> \<exists>t. tasks w a = Some t \<and> idle_thread t \<and> managed (derived_part t) \<and>
     0 < mq_capacity (message_queue t) \<and> a \<noteq> p0"
  by (auto simp: quiescent_def)

lemma quiescent_manager:
  "quiescent p0 P w \<Longrightarrow> \<exists>t sm. tasks w p0 = Some t \<and> idle_thread t \<and> derived_part t = DerivedStateManager sm \<and>
     map_sorted (task_states sm) \<and> dom (map_find (task_states sm)) = P \<and> card P \<le> mq_capacity (message_queue t)"
  by (auto simp: quiescent_def manages_def)

lemma quiescent_finite: "quiescent p0 P w \<Longrightarrow> finite P"
  by (metis quiescent_def List.finite_set)

text \<open>The broadcast starts the round.\<close>

lemma broadcast_ok:
  assumes "quiescent p0 P w" "tasks w p0 = Some t" "derived_part t = DerivedStateManager sm"
  obtains w' where "demand_begin p0 s w = Inr w'" "broker_ok w'" "initialized (broker w')"
    "\<forall>ty. live_subscribers w' ty = live_subscribers w ty"
    "tasks w' p0 = Some (t\<lparr>derived_part := DerivedStateManager (sm\<lparr>target_state := Some s, sm_current_state := Some s\<rparr>)\<rparr>)"
    "\<forall>a. a \<noteq> p0 \<longrightarrow> rel_option (delivered 0 (state_msg p0 s) (a \<in> P)) (tasks w a) (tasks w' a)"
proof -
  from assms(1) have w: "p0 \<notin> P" "broker_ok w" "initialized (broker w)" "set (live_subscribers w Type_StateMsg) = P"
    by (simp_all add: quiescent_def)
  have own: "owned t" using quiescent_manager [OF assms(1)] assms(2) by (auto simp: idle_thread_def)
  define w1 where "w1 = world_log INFO (name t) (''demanding transition to '' @ task_state_to_string s) w"
  define sm1 where "sm1 = sm\<lparr>target_state := Some s\<rparr>"
  let ?t = "t\<lparr>derived_part := DerivedStateManager sm1\<rparr>"
  let ?w2 = "put_task p0 ?t w1"
  have w1: "tasks w1 = tasks w" "broker w1 = broker w" "broker_ok w1"
    using broker_ok_world_log [OF w(2)] by (simp_all add: w1_def)
  have live: "live_subscribers ?w2 ty = live_subscribers w ty" for ty
    using live_subscribers_put_task [of w1 p0 t ?t ty] assms(2) w1(1) by (simp add: w1_def)
  have ok: "broker_ok ?w2" "initialized (broker ?w2)" "tasks ?w2 p0 = Some ?t" "owned ?t"
    "derived_part ?t = DerivedStateManager sm1"
    using broker_ok_put_task [OF w1(3), of p0 t ?t] assms(2) own w(3) w1 by simp_all
  have ready: "subscribers_ready 0 Type_StateMsg ?w2"
    unfolding subscribers_ready_def live w(4)
  proof (intro ballI allI impI)
    fix a u
    assume a: "a \<in> P" "tasks ?w2 a = Some u"
    then have "tasks w a = Some u" using w(1) w1(1) by (auto split: if_splits)
    with quiescent_task [OF assms(1) a(1)] have "idle_thread u" "0 < mq_capacity (message_queue u)" by auto
    then show "mq_good (Suc 0) (message_queue u) \<and> mq_room (message_queue u)"
      using idle_thread_good [of u 1] by (simp add: mq_room_def idle_thread_def del: length_pending_msgs)
  qed
  obtain w' where w': "transition_to_state p0 s ?w2 = Inr w'" "broker_ok w'" "initialized (broker w')"
    "\<And>a. rel_option (delivered 0 (state_msg p0 s) (a \<in> P))
       (((tasks ?w2)(p0 \<mapsto> ?t\<lparr>derived_part := DerivedStateManager (sm1\<lparr>sm_current_state := Some s\<rparr>)\<rparr>)) a) (tasks w' a)"
    "\<And>ty. live_subscribers w' ty = live_subscribers w ty"
    using sm_transition_ok [OF ok ready, of s] unfolding live w(4) by metis
  have "demand_begin p0 s w = Inr w'"
    using assms(2,3) w'(1) by (simp add: demand_begin_def Let_def put_sm_def sm1_def w1_def)
  moreover have "tasks w' p0 = Some (?t\<lparr>derived_part := DerivedStateManager (sm1\<lparr>sm_current_state := Some s\<rparr>)\<rparr>)"
    using w'(4) [of p0] w(1) by (simp add: option_rel_Some1 delivered_def)
  moreover have "rel_option (delivered 0 (state_msg p0 s) (a \<in> P)) (tasks w a) (tasks w' a)" if "a \<noteq> p0" for a
    using w'(4) [of a] that by (simp add: w1(1))
  ultimately show ?thesis using that [of w'] w'(2,3,5) by (simp add: sm1_def)
qed

lemma demand_begin_collecting:
  assumes quiet: "quiescent p0 P w" and code: "follows code p0 s" "\<forall>n. s \<noteq> Unenumerated n"
  obtains w' where "demand_begin p0 s w = Inr w'" "collecting (demand_round code p0 s P) w'" "alike w w'"
proof -
  from quiet have w: "p0 \<notin> P" "card P < 2 ^ 32" "live_subscribers w Type_StateAckMsg = [p0]" by (simp_all add: quiescent_def)
  obtain t sm where t: "tasks w p0 = Some t" "idle_thread t" "derived_part t = DerivedStateManager sm"
    "map_sorted (task_states sm)" "dom (map_find (task_states sm)) = P" "card P \<le> mq_capacity (message_queue t)"
    using quiescent_manager [OF quiet] by blast
  let ?r = "demand_round code p0 s P"
  let ?t = "t\<lparr>derived_part := DerivedStateManager (sm\<lparr>target_state := Some s, sm_current_state := Some s\<rparr>)\<rparr>"
  obtain w' where w': "demand_begin p0 s w = Inr w'" "broker_ok w'" "initialized (broker w')"
    "\<forall>ty. live_subscribers w' ty = live_subscribers w ty" "tasks w' p0 = Some ?t"
    "\<forall>a. a \<noteq> p0 \<longrightarrow> rel_option (delivered 0 (state_msg p0 s) (a \<in> P)) (tasks w a) (tasks w' a)"
    by (rule broadcast_ok [OF quiet t(1,3)])
  have foll: "\<exists>u. tasks w' a = Some u \<and> follower ?r a u \<and> work u \<noteq> 0" if a: "a \<in> P" for a
  proof -
    obtain u where u: "tasks w a = Some u" "idle_thread u" "managed (derived_part u)" "0 < mq_capacity (message_queue u)" "a \<noteq> p0"
      using quiescent_task [OF quiet a] by blast
    with spec [OF w'(6), of a] a obtain q where "tasks w' a = Some (u\<lparr>message_queue := q\<rparr>)" "mq_good 0 q" "pending_msgs q = [state_msg p0 s]"
      "mq_capacity q = mq_capacity (message_queue u)"
      by (auto simp: option_rel_Some1 delivered_def idle_thread_def pq_insert_def)
    with u code show ?thesis
      by (auto simp: follower_def idle_thread_def managed_def work_def demand_round_def state_round_def simp del: length_pending_msgs)
  qed
  have "busy w' P = P" using foll by (force simp: busy_def)
  moreover have "leader ?r P ?t"
    using t(2-6) code(2) idle_thread_good [OF t(2) w(2)]
    by (auto simp: leader_def idle_thread_def demand_round_def state_round_def simp del: length_pending_msgs)
  moreover have "\<forall>a \<in> P. \<exists>u. tasks w' a = Some u \<and> follower ?r a u" using foll by blast
  ultimately have "collecting ?r w'"
    using w(1,3) w'(2-5) quiescent_finite [OF quiet] by (auto simp: collecting_def)
  moreover have "rel_option kin (tasks w a) (tasks w' a)" for a
    using w'(5,6) t(1) delivered_kin by (cases "a = p0") (auto elim!: option.rel_mono_strong)
  then have "alike w w'" using w'(4) by (simp add: alike_def)
  ultimately show ?thesis using that w'(1) by blast
qed

text \<open>A finished round leaves the system at rest, with all tasks in the demanded state.\<close>

lemma demand_done:
  assumes col: "collecting (demand_round code p0 s P) w'" and work: "\<forall>a \<in> insert p0 P. work_at w' a = 0"
    and w: "quiescent p0 P w" "alike w w'"
  shows "quiescent p0 P w'" "demand_end p0 s w' = Inr (True, w')"
    "\<forall>a \<in> P. \<exists>t. tasks w' a = Some t \<and> current_state t = s"
proof -
  let ?r = "demand_round code p0 s P"
  have idle: "\<forall>a \<in> P. \<exists>t. tasks w' a = Some t \<and> follower ?r a t \<and> current_state t = s \<and>
      pending_msgs (message_queue t) = [] \<and> (queue_thread t = AtTest \<or> queue_thread t = AtDequeue)"
    using collecting_done(1) [OF col] work by simp
  obtain t where t: "tasks w' p0 = Some t" "leader ?r {} t" "pending_msgs (message_queue t) = []"
    "queue_thread t = AtTest \<or> queue_thread t = AtDequeue" "\<forall>a \<in> P. recorded ?r a (derived_part t)"
    using collecting_done(2) [OF col] work by auto
  then obtain sm where sm: "derived_part t = DerivedStateManager sm" "map_sorted (task_states sm)"
    "dom (map_find (task_states sm)) = P"
    by (auto simp: leader_def demand_round_def state_round_def)
  with t(5) have "\<forall>a \<in> P. map_find (task_states sm) a = Some s" by (auto simp: demand_round_def state_round_def)
  with sm have "all_tasks_in_state sm s" by (auto simp: all_tasks_in_state_iff dest!: bspec [OF _ domI])
  with t(1) sm(1) show "demand_end p0 s w' = Inr (True, w')" by (simp add: demand_end_def)
  show "\<forall>a \<in> P. \<exists>t. tasks w' a = Some t \<and> current_state t = s" using idle by blast
  have "\<forall>a \<in> P. \<exists>t. tasks w' a = Some t \<and> idle_thread t \<and> managed (derived_part t) \<and> 0 < mq_capacity (message_queue t)"
    using idle by (fastforce simp: follower_def idle_thread_def managed_def demand_round_def state_round_def)
  moreover have "idle_thread t" "manages P (derived_part t)" "card P \<le> mq_capacity (message_queue t)"
    using t(2-4) sm by (simp_all add: leader_def idle_thread_def manages_def)
  ultimately show "quiescent p0 P w'"
    using w(1) col t(1) alike_live [OF w(2)] by (simp add: quiescent_def collecting_def)
qed

lemma demand_with_schedule:
  assumes "quiescent p0 P w" "follows code p0 s" "\<forall>n. s \<noteq> Unenumerated n"
    and "set (sch1 @ sch2) \<subseteq> insert p0 P"
    and "\<forall>a \<in> P. 3 \<le> count_list sch1 a" "3 * card P \<le> count_list sch2 p0"
  obtains w' where "demand_state_transition (run_schedule (process_message code) (sch1 @ sch2)) p0 s w = Inr (True, w')"
    "quiescent p0 P w'" "alike w w'" "\<forall>a \<in> P. \<exists>t. tasks w' a = Some t \<and> current_state t = s"
    "collecting (demand_round code p0 s P) w'"
proof -
  let ?r = "demand_round code p0 s P"
  obtain w0 where w0: "demand_begin p0 s w = Inr w0" "collecting ?r w0" "alike w w0"
    by (rule demand_begin_collecting [OF assms(1-3)])
  obtain w' where w': "run_schedule (process_message code) (sch1 @ sch2) w0 = Inr w'" "collecting ?r w'" "alike w0 w'"
    "\<forall>a \<in> insert p0 P. work_at w' a = 0"
    using demand.collecting_finishes [OF w0(2), of sch1 sch2] assms(4-6) by auto
  have al: "alike w w'" by (rule alike_trans [OF w0(3) w'(3)])
  note fin = demand_done [OF w'(2,4) assms(1) al]
  have "demand_state_transition (run_schedule (process_message code) (sch1 @ sch2)) p0 s w = Inr (True, w')"
    using w0(1) w'(1) fin(2) by (simp add: demand_state_transition_def)
  with that fin(1,3) al w'(2) show ?thesis by blast
qed

lemma documented_follows:
  assumes "\<forall>n. s \<noteq> Unenumerated n"
  shows "follows documented_code p0 s"
  using assms by (simp add: follows_def documented_code_def documented_process_def get_data_as_def)

text \<open>
  A task at address 8, subscribed to state messages and registered with the manager at address 16,
  for the examples; what else the two tasks hold is given by \<open>f\<close>.
\<close>

lemma example_registered:
  fixes f :: "Task \<Rightarrow> Task"
  assumes f: "\<And>t. owned (f t) = owned t \<and> control_block (f t) = control_block t \<and> message_queue (f t) = message_queue t \<and>
      derived_part (f t) = derived_part t"
  shows "\<exists>w u t. tasks w 8 = Some (f u) \<and> tasks w 16 = Some (f t) \<and> owned u \<and> owned t \<and> broker_ok w \<and> initialized (broker w) \<and>
    live_subscribers w Type_StateAckMsg = [16] \<and> live_subscribers w Type_StateMsg = [8] \<and>
    managed (derived_part u) \<and> manages {8} (derived_part t) \<and>
    pending_msgs (message_queue u) = [] \<and> pending_msgs (message_queue t) = [] \<and>
    calm (message_queue u) \<and> calm (message_queue t) \<and>
    0 < mq_capacity (message_queue u) \<and> 1 \<le> mq_capacity (message_queue t)"
proof -
  let ?sm = "StateManager_new\<lparr>task_states := [(8, NOT_STARTED)]\<rparr>"
  obtain w u t where sys: "pair_system w u t ?sm" using example_pair by blast
  then have w: "broker_ok w" "initialized (broker w)" "tasks w 8 = Some u" "owned u" "tasks w 16 = Some t" "owned t"
    "live_subscribers w Type_StateMsg = []" "live_subscribers w Type_StateAckMsg = []"
    by (simp_all add: pair_system_def)
  obtain w1 where w1: "broker_ok w1" "initialized (broker w1)" "tasks w1 = tasks w"
    "live_subscribers w1 Type_StateMsg = [8]" "live_subscribers w1 Type_StateAckMsg = []"
    by (rule subscribe_ok [OF w(1-4), of Type_StateMsg]) (use w(7,8) in auto)
  have t1: "tasks w1 16 = Some t" using w1(3) w(5) by simp
  obtain w2 where w2: "broker_ok w2" "initialized (broker w2)" "tasks w2 = tasks w"
    "live_subscribers w2 Type_StateMsg = [8]" "live_subscribers w2 Type_StateAckMsg = [16]"
    by (rule subscribe_ok [OF w1(1,2) t1 w(6), of Type_StateAckMsg]) (use w1 in auto)
  let ?w3 = "put_task 8 (f u) w2"
  let ?w4 = "put_task 16 (f t) ?w3"
  have t2: "tasks w2 8 = Some u" "tasks ?w3 16 = Some t" using w2(3) w(3,5) by simp_all
  have "broker_ok ?w3" by (rule broker_ok_put_task [OF w2(1) t2(1)]) (simp add: f)
  then have "broker_ok ?w4" by (rule broker_ok_put_task [OF _ t2(2)]) (simp add: f)
  moreover have "live_subscribers ?w4 ty = live_subscribers w2 ty" for ty
    using live_subscribers_put_task [OF t2(2), of "f t"] live_subscribers_put_task [OF t2(1), of "f u"] f by simp
  moreover have "calm (message_queue u)" "calm (message_queue t)" "pending_msgs (message_queue t) = []"
    "pending_msgs (message_queue u) = []" "1 \<le> mq_capacity (message_queue t)" "0 < mq_capacity (message_queue u)"
    using sys by (simp_all add: pair_system_def mq_room_def calm_def del: length_pending_msgs)
  moreover have "managed (derived_part u)" "manages {8} (derived_part t)"
    using sys by (simp_all add: pair_system_def managed_def manages_def map_sorted_def)
  ultimately show ?thesis
    using w2 w(4,6) by (intro exI [of _ ?w4] exI [of _ u] exI [of _ t]) simp
qed

lemma example_quiescent: "\<exists>w. quiescent 16 {8} w"
proof -
  let ?f = "\<lambda>t :: Task. t\<lparr>running := True, queue_thread := AtTest\<rparr>"
  obtain w u t where "tasks w 8 = Some (?f u)" "tasks w 16 = Some (?f t)" "owned u" "owned t" "broker_ok w" "initialized (broker w)"
    "live_subscribers w Type_StateAckMsg = [16]" "live_subscribers w Type_StateMsg = [8]"
    "managed (derived_part u)" "manages {8} (derived_part t)"
    "pending_msgs (message_queue u) = []" "pending_msgs (message_queue t) = []"
    "calm (message_queue u)" "calm (message_queue t)" "0 < mq_capacity (message_queue u)" "1 \<le> mq_capacity (message_queue t)"
    using example_registered [of ?f] by auto
  then have "quiescent 16 {8} w" by (simp add: quiescent_def idle_thread_def)
  then show ?thesis by blast
qed

text \<open>C4: A demanded state transition succeeds under every interleaving. In a system at rest whose
  tasks follow state messages, \<open>demand_state_transition\<close> to an enumerated state answers true and all
  registered tasks are in that state, whatever the order in which the queue threads of the tasks and
  of the manager run while it waits, as soon as every task has had three steps and the manager,
  after that, three steps for each task. No step of such a run fails, and the system is at rest
  again afterwards, so that the next demand succeeds as well.\<close>

theorem demand_succeeds:
  assumes "quiescent p0 P w" "follows code p0 s" "\<forall>n. s \<noteq> Unenumerated n"
    and "set (sch1 @ sch2) \<subseteq> insert p0 P"
    and "\<forall>a \<in> P. 3 \<le> count_list sch1 a" "3 * card P \<le> count_list sch2 p0"
  shows "\<exists>w'. demand_state_transition (run_schedule (process_message code) (sch1 @ sch2)) p0 s w = Inr (True, w') \<and>
    (\<forall>a \<in> P. \<exists>t. tasks w' a = Some t \<and> current_state t = s) \<and> quiescent p0 P w'"
  using demand_with_schedule [OF assms] by metis

theorem demand_succeeds_witness:
  "\<exists>w w' t. demand_state_transition (run_schedule (process_message documented_code) [8, 16, 8, 8, 16, 16, 16]) 16 RUNNING w =
     Inr (True, w') \<and> tasks w' 8 = Some t \<and> current_state t = RUNNING"
proof -
  obtain w where "quiescent 16 {8} w" using example_quiescent by blast
  from demand_succeeds [OF this documented_follows, of RUNNING "[8, 16, 8, 8]" "[16, 16, 16]"] show ?thesis
    by auto
qed

end
