(* ===== verification/Lifecycle.thy ===== *)
theory Lifecycle
  imports Protocol
begin

text \<open>
  The life of a system from end to end: \<open>initialize\<close> starts the registered tasks and brings them to
  \<open>IDLE\<close>, demanded transitions move them, and \<open>shutdown\<close> stops them and joins their threads. The
  queue threads run in any order meanwhile. The tasks have no periodic work when they are shut
  down.
\<close>

section \<open>Starting up\<close>

text \<open>A task that was created but not started.\<close>

definition dormant :: "Task \<Rightarrow> bool" where
  "dormant t \<longleftrightarrow> \<not> running t \<and> owned t \<and> pending_msgs (message_queue t) = [] \<and> calm (message_queue t) \<and>
     queue_thread t = NoThread \<and> periodic_thread t = NoThread"

definition started :: "Task \<Rightarrow> Task" where
  "started t = t\<lparr>running := True, queue_thread := AtTest,
     periodic_thread := if periodic_task_interval_ms t > 0 then AtTest else NoThread\<rparr>"

lemma start_dormant:
  assumes "tasks w p = Some t" "dormant t"
  shows "start p w = Inr (put_task p (started t) w)"
proof -
  have "started t = (if periodic_task_interval_ms t > 0
      then t\<lparr>running := True, queue_thread := AtTest, periodic_thread := AtTest\<rparr>
      else t\<lparr>running := True, queue_thread := AtTest\<rparr>)"
    using assms(2) by (cases t) (simp add: dormant_def started_def)
  with assms show ?thesis by (simp add: start_def dormant_def)
qed

lemma started_idle: "dormant t \<Longrightarrow> idle_thread (started t)"
  by (simp add: dormant_def started_def idle_thread_def)

lemma started_simps [simp]:
  "derived_part (started t) = derived_part t" "message_queue (started t) = message_queue t"
  "owned (started t) = owned t" "control_block (started t) = control_block t" "name (started t) = name t"
  by (simp_all add: started_def)

lemma start_all_dormant:
  "distinct ps \<Longrightarrow> \<forall>p \<in> set ps. \<exists>t. tasks w p = Some t \<and> dormant t \<Longrightarrow>
     \<exists>w'. start_all ps w = Inr w' \<and> broker w' = broker w \<and> next_block w' = next_block w \<and>
       (\<forall>a. tasks w' a = (if a \<in> set ps then map_option started (tasks w a) else tasks w a))"
proof (induction ps arbitrary: w)
  case Nil
  then show ?case by simp
next
  case (Cons p ps)
  then obtain t where t: "tasks w p = Some t" "dormant t" by auto
  let ?w = "put_task p (started t) w"
  have "\<forall>q \<in> set ps. \<exists>t. tasks ?w q = Some t \<and> dormant t" using Cons.prems by auto
  from Cons.IH [OF _ this] Cons.prems(1) obtain w' where w': "start_all ps ?w = Inr w'" "broker w' = broker w"
    "next_block w' = next_block w"
    "\<forall>a. tasks w' a = (if a \<in> set ps then map_option started (tasks ?w a) else tasks ?w a)" by auto
  moreover have "start_all (p # ps) w = Inr w'" using start_dormant [OF t] w'(1) by simp
  ultimately show ?case using t(1) Cons.prems(1) by (intro exI [of _ w']) auto
qed

text \<open>
  A system before \<open>initialize\<close>: the tasks in \<open>P\<close> are registered with the manager at \<open>p0\<close> and
  subscribed to state messages, and nothing has been started.
\<close>

definition enrolled :: "ptr \<Rightarrow> ptr set \<Rightarrow> World \<Rightarrow> bool" where
  "enrolled p0 P w \<longleftrightarrow> p0 \<notin> P \<and> card P < 2 ^ 32 \<and> broker_ok w \<and> initialized (broker w) \<and>
     live_subscribers w Type_StateAckMsg = [p0] \<and> set (live_subscribers w Type_StateMsg) = P \<and>
     (\<forall>a \<in> P. \<exists>t. tasks w a = Some t \<and> dormant t \<and> managed (derived_part t) \<and>
        0 < mq_capacity (message_queue t)) \<and>
     (\<exists>t. tasks w p0 = Some t \<and> dormant t \<and> manages P (derived_part t) \<and>
        card P \<le> mq_capacity (message_queue t))"

lemma initialize_starts:
  assumes "enrolled p0 P w" "tasks w p0 = Some t" "derived_part t = DerivedStateManager sm"
  obtains w2 w3 where "start p0 (world_log INFO (name t) ''initializing tasks...'' w) = Inr w2"
    "start_all (map fst (task_states sm)) w2 = Inr w3" "quiescent p0 P w3"
    "\<forall>a. tasks w3 a = (if a \<in> insert p0 P then map_option started (tasks w a) else tasks w a)"
proof -
  from assms have w: "p0 \<notin> P" "broker_ok w" and t: "dormant t" "map_sorted (task_states sm)" "dom (map_find (task_states sm)) = P"
    and tasks: "\<And>a. a \<in> P \<Longrightarrow> \<exists>t. tasks w a = Some t \<and> dormant t \<and> managed (derived_part t) \<and> 0 < mq_capacity (message_queue t)"
    by (auto simp: enrolled_def manages_def)
  let ?w1 = "world_log INFO (name t) ''initializing tasks...'' w"
  let ?w2 = "put_task p0 (started t) ?w1"
  have s1: "start p0 ?w1 = Inr ?w2" by (rule start_dormant) (simp_all add: assms(2) t(1))
  have keys: "distinct (map fst (task_states sm))" "set (map fst (task_states sm)) = P"
    using std_map.entries_distinct [OF t(2)] std_map.dom_find [OF t(2)] t(3) by simp_all
  have "\<forall>a \<in> set (map fst (task_states sm)). \<exists>t. tasks ?w2 a = Some t \<and> dormant t"
    unfolding keys(2) using tasks w(1) by fastforce
  from start_all_dormant [OF keys(1) this] obtain w3 where
    w3: "start_all (map fst (task_states sm)) ?w2 = Inr w3" "broker w3 = broker w" "next_block w3 = next_block w"
      "\<forall>a. tasks w3 a = (if a \<in> P then map_option started (tasks ?w2 a) else tasks ?w2 a)"
    unfolding keys(2) by auto
  have w3': "\<forall>a. tasks w3 a = (if a \<in> insert p0 P then map_option started (tasks w a) else tasks w a)"
    using w3(4) w(1) assms(2) by auto
  have rel: "rel_option (\<lambda>t t'. owned t' = owned t \<and> control_block t' = control_block t) (tasks w a) (tasks w3 a)" for a
    using w3' by (cases "tasks w a") simp_all
  have "live_subscribers w3 ty = live_subscribers w ty" for ty by (rule owners_live [OF rel w3(2)])
  moreover have "broker_ok w3" by (rule owners_broker_ok [OF rel w(2) w3(2,3)])
  moreover have "\<forall>a \<in> P. \<exists>t. tasks w3 a = Some t \<and> idle_thread t \<and> managed (derived_part t) \<and> 0 < mq_capacity (message_queue t)"
    using tasks w3' started_idle by fastforce
  moreover have "tasks w3 p0 = Some (started t)" using w3' assms(2) by simp
  ultimately have "quiescent p0 P w3"
    using assms w3(2) started_idle [OF t(1)] by (auto simp: quiescent_def enrolled_def)
  with that s1 w3(1) w3' show ?thesis by blast
qed

lemma initialize_ok:
  assumes "enrolled p0 P w" "follows code p0 IDLE" "set (sch1 @ sch2) \<subseteq> insert p0 P"
    and "\<forall>a \<in> P. 3 \<le> count_list sch1 a" "3 * card P \<le> count_list sch2 p0"
  obtains w3 w' where "initialize (run_schedule (process_message code) (sch1 @ sch2)) p0 w = Inr w'"
    "quiescent p0 P w'" "\<forall>a \<in> P. \<exists>t. tasks w' a = Some t \<and> current_state t = IDLE" "alike w3 w'"
    "\<forall>a. tasks w3 a = (if a \<in> insert p0 P then map_option started (tasks w a) else tasks w a)"
proof -
  obtain t sm where t: "tasks w p0 = Some t" "derived_part t = DerivedStateManager sm"
    using assms(1) by (auto simp: enrolled_def manages_def)
  obtain w2 w3 where w3: "start p0 (world_log INFO (name t) ''initializing tasks...'' w) = Inr w2"
    "start_all (map fst (task_states sm)) w2 = Inr w3" "quiescent p0 P w3"
    "\<forall>a. tasks w3 a = (if a \<in> insert p0 P then map_option started (tasks w a) else tasks w a)"
    by (rule initialize_starts [OF assms(1) t])
  have enumerated: "\<forall>n. IDLE \<noteq> Unenumerated n" by simp
  obtain w' where w': "demand_state_transition (run_schedule (process_message code) (sch1 @ sch2)) p0 IDLE w3 = Inr (True, w')"
    "quiescent p0 P w'" "alike w3 w'" "\<forall>a \<in> P. \<exists>t. tasks w' a = Some t \<and> current_state t = IDLE"
    using demand_with_schedule [OF w3(3) assms(2) enumerated assms(3-5)] by metis
  have "initialize (run_schedule (process_message code) (sch1 @ sch2)) p0 w = Inr w'"
    using t w3(1,2) w'(1) by (simp add: initialize_def Let_def)
  with that w' w3(4) show ?thesis by blast
qed

section \<open>Stopping one task after the other\<close>

text \<open>
  A task during the shutdown: it has nothing to do, and it is either running still, or it was told
  to stop and its thread is on its way to the end or joined.
\<close>

definition winding_task :: "Task \<Rightarrow> bool" where
  "winding_task t \<longleftrightarrow> owned t \<and> managed (derived_part t) \<and> periodic_thread t \<in> {NoThread, AtEnd} \<and>
     pending_msgs (message_queue t) = [] \<and> calm (message_queue t) \<and> 0 < mq_capacity (message_queue t) \<and>
     current_state t = STOPPED \<and>
     (if running t then queue_thread t \<in> {AtTest, AtDequeue}
      else mq_shutdown (message_queue t) \<and> queue_thread t \<in> {AtTest, AtDequeue, AtEnd, NoThread})"

text \<open>The steps that a thread which was told to stop still takes.\<close>

definition countdown :: "Task \<Rightarrow> nat" where
  "countdown t = (case queue_thread t of AtTest \<Rightarrow> 1 | AtDequeue \<Rightarrow> 2 | _ \<Rightarrow> 0)"

text \<open>What a step of any thread leaves of a task: \<open>k\<close> steps of its own.\<close>

definition wound :: "nat \<Rightarrow> Task \<Rightarrow> Task \<Rightarrow> bool" where
  "wound k t t' \<longleftrightarrow> running t' = running t \<and> (\<not> running t \<longrightarrow> countdown t' = countdown t - k) \<and>
     (queue_thread t = NoThread \<longrightarrow> t' = t)"

lemma wound_refl: "wound 0 t t"
  by (simp add: wound_def)

lemma wound_trans: "wound k t u \<Longrightarrow> wound l u v \<Longrightarrow> wound (k + l) t v"
  by (auto simp: wound_def)

lemma wound_rel_trans: "rel_option (wound k) x y \<Longrightarrow> rel_option (wound l) y z \<Longrightarrow> rel_option (wound (k + l)) x z"
  by (cases x; cases y; cases z) (auto intro: wound_trans)

lemma sched_step_parked:
  assumes "tasks w x = Some t" "queue_thread t = AtEnd \<or> queue_thread t = NoThread"
  shows "sched_step f x w = Inr w"
  using assms by (auto simp: sched_step_def run_step_def)

lemma winding_task_step:
  assumes t: "tasks w x = Some t" "winding_task t"
  obtains t' where "sched_step f x w = Inr (put_task x t' w)" "winding_task t'" "kin t t'" "wound 1 t t'"
proof -
  from t(2) have q: "mq_good 0 (message_queue t)" "calm (message_queue t)" "pending_msgs (message_queue t) = []"
    by (simp_all add: winding_task_def calm_def)
  show ?thesis
  proof (cases "running t")
    case True
    then have pc: "queue_thread t = AtTest \<or> queue_thread t = AtDequeue" using t(2) by (auto simp: winding_task_def)
    obtain q' pc' where q': "sched_step f x w = Inr (put_task x (t\<lparr>message_queue := q', queue_thread := pc'\<rparr>) w)"
      "calm q'" "mq_capacity q' = mq_capacity (message_queue t)" "pending_msgs q' = []" "pc' \<in> {AtTest, AtDequeue}"
      using sched_step_idle [OF t(1) True q(1,2) pc, of f thesis] q(3) by fastforce
    let ?t = "t\<lparr>message_queue := q', queue_thread := pc'\<rparr>"
    have "winding_task ?t" using t(2) q'(2-5) True by (simp add: winding_task_def)
    moreover have "wound 1 t ?t" using True pc by (auto simp: wound_def)
    ultimately show ?thesis using that q'(1) by simp
  next
    case False
    then have st: "mq_shutdown (message_queue t)" "queue_thread t \<in> {AtTest, AtDequeue, AtEnd, NoThread}"
      using t(2) by (simp_all add: winding_task_def)
    consider (test) "queue_thread t = AtTest" | (deq) "queue_thread t = AtDequeue"
      | (parked) "queue_thread t = AtEnd \<or> queue_thread t = NoThread" using st(2) by blast
    then show ?thesis
    proof cases
      case test
      let ?t = "t\<lparr>queue_thread := AtEnd\<rparr>"
      have "sched_step f x w = Inr (put_task x ?t w)" using t(1) test False by (simp add: sched_step_def run_step_def)
      moreover have "winding_task ?t" using t(2) False by (simp add: winding_task_def)
      ultimately show ?thesis using that test by (simp add: wound_def countdown_def)
    next
      case deq
      obtain q' where q': "dequeue (message_queue t) = Inr (Returns (None, q'))" "pending_msgs q' = []"
        "mq_capacity q' = mq_capacity (message_queue t)" "mq_shutdown q'"
        using mq_reader.take_empty [OF q(1,3)] st(1) by auto
      let ?t = "t\<lparr>message_queue := q', queue_thread := AtTest\<rparr>"
      have "sched_step f x w = Inr (put_task x ?t w)" using t(1) deq q'(1) by (simp add: sched_step_def run_step_def)
      moreover have "winding_task ?t"
        using t(2) False q'(2-4) calm_dequeue [OF q(1) q'(1)] by (simp add: winding_task_def)
      ultimately show ?thesis using that deq by (simp add: wound_def countdown_def)
    next
      case parked
      then show ?thesis
        using that [of t] t sched_step_parked [OF t(1) parked] put_task_same [OF t(1)]
        by (auto simp: wound_def countdown_def)
    qed
  qed
qed

text \<open>
  The manager during the shutdown: only acknowledgements of the stopped state arrive, and there is
  room for \<open>n\<close> more.
\<close>

definition absorbing :: "user_code \<Rightarrow> ptr \<Rightarrow> ptr set \<Rightarrow> nat \<Rightarrow> Task \<Rightarrow> bool" where
  "absorbing code p0 P n t \<longleftrightarrow> owned t \<and> collects (demand_round code p0 STOPPED P) (derived_part t) \<and>
     mq_good n (message_queue t) \<and> calm (message_queue t) \<and>
     length (pending_msgs (message_queue t)) + n \<le> mq_capacity (message_queue t) \<and>
     (\<forall>m \<in> set (pending_msgs (message_queue t)). \<exists>a \<in> P. m = ack_msg a STOPPED) \<and>
     (queue_thread t = AtTest \<or> queue_thread t = AtDequeue \<or> (\<exists>a \<in> P. queue_thread t = AtProcess (ack_msg a STOPPED)))"

lemma absorbing_process:
  assumes t: "tasks w p0 = Some t" "absorbing code p0 P n t" "queue_thread t = AtProcess (ack_msg a STOPPED)" "a \<in> P"
    and w: "broker_ok w" "\<forall>b \<in> P. tasks w b \<noteq> None"
  obtains w' d where "sched_step (process_message code) p0 w = Inr w'"
    "tasks w' = (tasks w)(p0 \<mapsto> t\<lparr>derived_part := d, queue_thread := AtTest\<rparr>)" "broker w' = broker w"
    "next_block w' = next_block w" "absorbing code p0 P n (t\<lparr>derived_part := d, queue_thread := AtTest\<rparr>)"
proof -
  let ?r = "demand_round code p0 STOPPED P"
  have "collects ?r (derived_part t)" using t(2) by (simp add: absorbing_def)
  then obtain w1 d where w1: "process_message code p0 (ack_msg a STOPPED) w = Inr w1"
    "tasks w1 = (tasks w)(p0 \<mapsto> t\<lparr>derived_part := d\<rparr>)" "broker w1 = broker w" "next_block w1 = next_block w"
    "collects ?r d"
    using demand.collect [of w code p0 STOPPED P t a "ack_msg a STOPPED"] t(1,4) w by auto
  let ?t = "t\<lparr>derived_part := d, queue_thread := AtTest\<rparr>"
  have "sched_step (process_message code) p0 w = Inr (put_task p0 ?t w1)"
    using sched_step_process [where process = "process_message code", OF t(1,3) w1(1)] w1(2) by simp
  moreover have "absorbing code p0 P n ?t" using t(2) w1(5) by (simp add: absorbing_def del: length_pending_msgs)
  ultimately show ?thesis using that [of "put_task p0 ?t w1" d] w1(2-4) by simp
qed

lemma absorbing_idle:
  assumes t: "tasks w p0 = Some t" "absorbing code p0 P n t" "running t"
    and pc: "queue_thread t = AtTest \<or> queue_thread t = AtDequeue"
  obtains t' where "sched_step f p0 w = Inr (put_task p0 t' w)" "absorbing code p0 P n t'" "kin t t'"
proof -
  have q: "mq_good n (message_queue t)" "calm (message_queue t)" using t(2) by (simp_all add: absorbing_def)
  obtain q' pc' where q': "sched_step f p0 w = Inr (put_task p0 (t\<lparr>message_queue := q', queue_thread := pc'\<rparr>) w)"
    "mq_good n q'" "calm q'" "mq_capacity q' = mq_capacity (message_queue t)"
    "pc' = AtTest \<and> pending_msgs (message_queue t) = [] \<and> pending_msgs q' = [] \<or>
     pc' = AtDequeue \<and> pending_msgs q' = pending_msgs (message_queue t) \<or>
     (\<exists>m. pc' = AtProcess m \<and> queue_thread t = AtDequeue \<and>
        pending_msgs (message_queue t) = m # pending_msgs q')"
    using sched_step_idle [OF t(1,3) q pc, of f thesis] by metis
  let ?t = "t\<lparr>message_queue := q', queue_thread := pc'\<rparr>"
  have "length (pending_msgs q') \<le> length (pending_msgs (message_queue t))"
    using q'(5) by (auto simp del: length_pending_msgs)
  moreover have "\<forall>m \<in> set (pending_msgs q'). \<exists>a \<in> P. m = ack_msg a STOPPED"
    "pc' = AtTest \<or> pc' = AtDequeue \<or> (\<exists>a \<in> P. pc' = AtProcess (ack_msg a STOPPED))"
    using q'(5) t(2) by (auto simp: absorbing_def)
  ultimately have "absorbing code p0 P n ?t"
    using t(2) q'(2-4) by (simp add: absorbing_def del: length_pending_msgs)
  with that q'(1) show ?thesis by simp
qed

definition winding :: "user_code \<Rightarrow> ptr \<Rightarrow> ptr set \<Rightarrow> nat \<Rightarrow> World \<Rightarrow> bool" where
  "winding code p0 P n w \<longleftrightarrow> finite P \<and> p0 \<notin> P \<and> broker_ok w \<and> initialized (broker w) \<and>
     live_subscribers w Type_StateAckMsg = [p0] \<and> set (live_subscribers w Type_StateMsg) = P \<and>
     (\<forall>a \<in> P. \<exists>t. tasks w a = Some t \<and> winding_task t) \<and>
     (\<exists>t. tasks w p0 = Some t \<and> running t \<and> periodic_thread t \<in> {NoThread, AtEnd} \<and> absorbing code p0 P n t)"

lemma winding_tasks: "winding code p0 P n w \<Longrightarrow> a \<in> P \<Longrightarrow> \<exists>t. tasks w a = Some t \<and> winding_task t \<and> a \<noteq> p0"
  by (auto simp: winding_def)

lemma winding_manager:
  "winding code p0 P n w \<Longrightarrow> \<exists>t. tasks w p0 = Some t \<and> running t \<and> periodic_thread t \<in> {NoThread, AtEnd} \<and>
     absorbing code p0 P n t"
  by (simp add: winding_def)

lemma winding_frame:
  assumes "winding code p0 P n w" "alike w w'" "broker w' = broker w" "next_block w' = next_block w"
    and "\<forall>a \<in> P. \<exists>t. tasks w' a = Some t \<and> winding_task t"
    and "\<exists>t. tasks w' p0 = Some t \<and> running t \<and> periodic_thread t \<in> {NoThread, AtEnd} \<and> absorbing code p0 P n t"
  shows "winding code p0 P n w'"
  using assms alike_live [OF assms(2)] alike_broker_ok [OF assms(2) _ assms(3,4)] by (simp add: winding_def)

lemma winding_step:
  assumes w: "winding code p0 P n w" and x: "x \<in> insert p0 P"
  obtains w' where "sched_step (process_message code) x w = Inr w'" "winding code p0 P n w'"
    "\<forall>a \<in> P. rel_option (wound (count_list [x] a)) (tasks w a) (tasks w' a)"
proof (cases "x = p0")
  case False
  with x have x: "x \<in> P" by simp
  obtain t where t: "tasks w x = Some t" "winding_task t" using winding_tasks [OF w x] by blast
  obtain t' where t': "sched_step (process_message code) x w = Inr (put_task x t' w)" "winding_task t'" "kin t t'" "wound 1 t t'"
    by (rule winding_task_step [OF t])
  let ?w = "put_task x t' w"
  have "alike w ?w" by (rule alike_put_task [OF t(1) _ _ t'(3)]) simp_all
  then have "winding code p0 P n ?w"
    by (rule winding_frame [OF w]) (use winding_tasks [OF w] winding_manager [OF w] t'(2) False in auto)
  moreover have "\<forall>a \<in> P. rel_option (wound (count_list [x] a)) (tasks w a) (tasks ?w a)"
    using t(1) t'(4) by (simp add: option.rel_refl wound_refl)
  ultimately show ?thesis using that t'(1) by blast
next
  case True
  note result = that
  obtain t where t: "tasks w p0 = Some t" "running t" "periodic_thread t \<in> {NoThread, AtEnd}" "absorbing code p0 P n t"
    using winding_manager [OF w] by blast
  have P: "p0 \<notin> P" "broker_ok w" "\<forall>b \<in> P. tasks w b \<noteq> None" using w winding_tasks [OF w] by (auto simp: winding_def)
  have fin: thesis if w': "sched_step (process_message code) p0 w = Inr w'" "tasks w' = (tasks w)(p0 \<mapsto> t')"
      "broker w' = broker w" "next_block w' = next_block w" "absorbing code p0 P n t'" "kin t t'" for w' t'
  proof -
    have "alike w w'" by (rule alike_put_task [OF t(1) w'(2,3,6)])
    then have "winding code p0 P n w'"
      by (rule winding_frame [OF w _ w'(3,4)])
        (use winding_tasks [OF w] P(1) w'(2,5,6) t(2,3) in \<open>auto simp: kin_def\<close>)
    moreover have "\<forall>a \<in> P. rel_option (wound (count_list [x] a)) (tasks w a) (tasks w' a)"
      using P(1) w'(2) True by (auto simp: option.rel_refl wound_refl)
    ultimately show thesis using w'(1) True by (intro result) simp_all
  qed
  show thesis
  proof (cases "queue_thread t = AtTest \<or> queue_thread t = AtDequeue")
    case True
    obtain t' where "sched_step (process_message code) p0 w = Inr (put_task p0 t' w)" "absorbing code p0 P n t'" "kin t t'"
      by (rule absorbing_idle [OF t(1,4,2) True])
    then show thesis by (intro fin [of "put_task p0 t' w" t']) simp_all
  next
    case False
    with t(4) obtain a where a: "queue_thread t = AtProcess (ack_msg a STOPPED)" "a \<in> P" by (auto simp: absorbing_def)
    obtain w' d where "sched_step (process_message code) p0 w = Inr w'"
      "tasks w' = (tasks w)(p0 \<mapsto> t\<lparr>derived_part := d, queue_thread := AtTest\<rparr>)" "broker w' = broker w"
      "next_block w' = next_block w" "absorbing code p0 P n (t\<lparr>derived_part := d, queue_thread := AtTest\<rparr>)"
      by (rule absorbing_process [OF t(1,4) a P(2,3)])
    then show thesis by (intro fin [of w' "t\<lparr>derived_part := d, queue_thread := AtTest\<rparr>"]) simp_all
  qed
qed

lemma winding_schedule:
  "winding code p0 P n w \<Longrightarrow> set sch \<subseteq> insert p0 P \<Longrightarrow>
     \<exists>w'. run_schedule (process_message code) sch w = Inr w' \<and> winding code p0 P n w' \<and>
       (\<forall>a \<in> P. rel_option (wound (count_list sch a)) (tasks w a) (tasks w' a))"
proof (induction sch arbitrary: w)
  case Nil
  then show ?case by (simp add: option.rel_refl wound_refl)
next
  case (Cons x sch)
  then have x: "x \<in> insert p0 P" by simp
  obtain w1 where w1: "sched_step (process_message code) x w = Inr w1" "winding code p0 P n w1"
    "\<forall>a \<in> P. rel_option (wound (count_list [x] a)) (tasks w a) (tasks w1 a)"
    by (rule winding_step [OF Cons.prems(1) x])
  from Cons.IH [OF w1(2)] Cons.prems(2) obtain w' where w': "run_schedule (process_message code) sch w1 = Inr w'"
    "winding code p0 P n w'" "\<forall>a \<in> P. rel_option (wound (count_list sch a)) (tasks w1 a) (tasks w' a)" by auto
  have "rel_option (wound (count_list (x # sch) a)) (tasks w a) (tasks w' a)" if a: "a \<in> P" for a
  proof -
    have "rel_option (wound (count_list [x] a + count_list sch a)) (tasks w a) (tasks w' a)"
      by (rule wound_rel_trans [OF bspec [OF w1(3) a] bspec [OF w'(3) a]])
    then show ?thesis by (simp split: if_splits)
  qed
  with w1(1) w' show ?case by (intro exI [of _ w']) simp
qed

text \<open>A stop request posts an acknowledgement to the manager and shuts the queue down.\<close>

lemma stop_request_winding:
  assumes w: "winding code p0 P (Suc n) w" and a: "a \<in> P" "tasks w a = Some t"
  obtains w' t0 q where "stop_request transition_to_state a w = Inr w'" "winding code p0 P n w'"
    "tasks w' = (tasks w)(a \<mapsto> t\<lparr>running := False, current_state := STOPPED, message_queue := notify_shutdown (message_queue t)\<rparr>,
       p0 \<mapsto> t0\<lparr>message_queue := q\<rparr>)"
proof -
  have t: "winding_task t" "a \<noteq> p0" using winding_tasks [OF w a(1)] a(2) by auto
  obtain t0 where t0: "tasks w p0 = Some t0" "running t0" "periodic_thread t0 \<in> {NoThread, AtEnd}" "absorbing code p0 P (Suc n) t0"
    using winding_manager [OF w] by blast
  have ww: "broker_ok w" "initialized (broker w)" "live_subscribers w Type_StateAckMsg = [p0]" "p0 \<notin> P"
    using w by (simp_all add: winding_def)
  let ?t = "t\<lparr>running := False\<rparr>"
  let ?w = "put_task a ?t w"
  have live: "live_subscribers ?w ty = live_subscribers w ty" for ty
    by (rule live_subscribers_put_task [OF a(2)]) simp_all
  have ok: "broker_ok ?w" "initialized (broker ?w)" "tasks ?w a = Some ?t" "owned ?t"
    using broker_ok_put_task [OF ww(1) a(2), of ?t] ww(2) t(1) by (simp_all add: winding_task_def)
  have ready: "subscribers_ready n Type_StateAckMsg ?w"
    using t0 t(2) ww(3) by (auto simp: subscribers_ready_def live absorbing_def mq_room_def simp del: length_pending_msgs)
  obtain w1 where w1: "Task_transition_to_state a STOPPED ?w = Inr w1" "broker_ok w1" "initialized (broker w1)"
    "\<And>b. rel_option (delivered n (ack_msg a STOPPED) (b \<in> set (live_subscribers ?w Type_StateAckMsg)))
       (((tasks ?w)(a \<mapsto> ?t\<lparr>current_state := STOPPED\<rparr>)) b) (tasks w1 b)"
    "\<And>ty. live_subscribers w1 ty = live_subscribers ?w ty"
    using transition_ok [OF ok ready, of STOPPED] by metis
  have same: "tasks w1 b = ((tasks w)(a \<mapsto> ?t\<lparr>current_state := STOPPED\<rparr>)) b" if "b \<noteq> p0" for b
    using w1(4) [of b] that ww(3)
    by (cases "tasks w1 b") (auto simp: live delivered_def option_rel_Some2 split: if_splits)
  from w1(4) [of p0] t(2) t0(1) ww(3) obtain q where q: "tasks w1 p0 = Some (t0\<lparr>message_queue := q\<rparr>)" "mq_good n q"
    "pending_msgs q = pq_insert (ack_msg a STOPPED) (pending_msgs (message_queue t0))"
    "mq_capacity q = mq_capacity (message_queue t0)"
    by (auto simp: live delivered_def option_rel_Some1)
  let ?t' = "t\<lparr>running := False, current_state := STOPPED, message_queue := notify_shutdown (message_queue t)\<rparr>"
  let ?w' = "put_task a ?t' w1"
  have tr: "transition_to_state a STOPPED ?w = Inr w1"
    using w1(1) t(1) by (cases "derived_part t") (simp_all add: transition_to_state_def winding_task_def managed_def)
  have ta: "tasks w1 a = Some (?t\<lparr>current_state := STOPPED\<rparr>)" using same [OF t(2)] by simp
  have "stop_request transition_to_state a w = Inr ?w'" using a(2) tr ta by (simp add: stop_request_def)
  moreover have upd: "tasks ?w' = (tasks w)(a \<mapsto> ?t', p0 \<mapsto> t0\<lparr>message_queue := q\<rparr>)"
    using same q(1) t(2) by (auto simp: fun_eq_iff)
  moreover have "absorbing code p0 P n (t0\<lparr>message_queue := q\<rparr>)"
    using t0(4) q(2-4) calm_pq_insert [OF q(3)] a(1) by (auto simp: absorbing_def simp del: length_pending_msgs)
  moreover have "winding_task ?t'" using t(1) by (auto simp: winding_task_def split: if_splits)
  moreover have "broker_ok ?w'" by (rule broker_ok_put_task [OF w1(2) ta]) simp
  moreover have "live_subscribers ?w' ty = live_subscribers w ty" for ty
    using live_subscribers_put_task [OF ta, of ?t' ty] w1(5) [of ty] live [of ty] by simp
  ultimately have "winding code p0 P n ?w'" using w w1(3) t0(2,3) t(2) by (auto simp: winding_def)
  with that \<open>stop_request transition_to_state a w = Inr ?w'\<close> upd show ?thesis by blast
qed

text \<open>A task that was stopped and joined.\<close>

definition joined :: "Task \<Rightarrow> bool" where
  "joined t \<longleftrightarrow> \<not> running t \<and> queue_thread t = NoThread \<and> periodic_thread t = NoThread"

lemma stop_join_ended:
  assumes "tasks w a = Some t" "queue_thread t \<in> {NoThread, AtEnd}" "periodic_thread t \<in> {NoThread, AtEnd}"
  shows "stop_join a w = Inr (Returns (put_task a (t\<lparr>queue_thread := NoThread, periodic_thread := NoThread\<rparr>) w))"
  using assms by (simp add: stop_join_def)

lemma stop_winding:
  assumes w: "winding code p0 P (Suc n) w" and a: "a \<in> P" "tasks w a = Some t" "running t"
    and sch: "set sch \<subseteq> insert p0 P" "2 \<le> count_list sch a"
  obtains w' t' where "stop transition_to_state (run_schedule (process_message code) sch) a w = Inr (Returns w')"
    "winding code p0 P n w'" "tasks w' a = Some t'" "joined t'"
    "\<forall>b \<in> P. b \<noteq> a \<longrightarrow> rel_option (wound (count_list sch b)) (tasks w b) (tasks w' b)"
proof -
  let ?t = "t\<lparr>running := False, current_state := STOPPED, message_queue := notify_shutdown (message_queue t)\<rparr>"
  obtain w1 t0 q where w1: "stop_request transition_to_state a w = Inr w1" "winding code p0 P n w1"
    "tasks w1 = (tasks w)(a \<mapsto> ?t, p0 \<mapsto> t0\<lparr>message_queue := q\<rparr>)"
    by (rule stop_request_winding [OF w a(1,2)])
  have P: "p0 \<notin> P" using w by (simp add: winding_def)
  obtain w2 where w2: "run_schedule (process_message code) sch w1 = Inr w2" "winding code p0 P n w2"
    "\<forall>b \<in> P. rel_option (wound (count_list sch b)) (tasks w1 b) (tasks w2 b)"
    using winding_schedule [OF w1(2) sch(1)] by blast
  have ta: "tasks w1 a = Some ?t" using w1(3) P a(1) by auto
  obtain t2 where t2: "tasks w2 a = Some t2" "winding_task t2" using winding_tasks [OF w2(2) a(1)] by blast
  have "wound (count_list sch a) ?t t2" using bspec [OF w2(3) a(1)] ta t2(1) by simp
  moreover have "countdown ?t \<le> 2" by (simp add: countdown_def split: thread.splits)
  ultimately have "\<not> running t2" "countdown t2 = 0" using sch(2) by (simp_all add: wound_def)
  then have ended: "queue_thread t2 \<in> {NoThread, AtEnd}" "periodic_thread t2 \<in> {NoThread, AtEnd}"
    using t2(2) by (auto simp: winding_task_def countdown_def)
  let ?t3 = "t2\<lparr>queue_thread := NoThread, periodic_thread := NoThread\<rparr>"
  let ?w = "put_task a ?t3 w2"
  have "stop transition_to_state (run_schedule (process_message code) sch) a w = Inr (Returns ?w)"
    using a(2,3) w1(1) w2(1) stop_join_ended [OF t2(1) ended] by (simp add: stop_def)
  moreover have "winding_task ?t3" using t2(2) \<open>\<not> running t2\<close> by (simp add: winding_task_def)
  then have "winding code p0 P n ?w"
    using w2(2) P a(1) broker_ok_put_task [of w2 a t2 ?t3] live_subscribers_put_task [of w2 a t2 ?t3] t2(1)
    by (auto simp: winding_def)
  moreover have "joined ?t3" using \<open>\<not> running t2\<close> by (simp add: joined_def)
  moreover have "rel_option (wound (count_list sch b)) (tasks w b) (tasks ?w b)" if b: "b \<in> P" "b \<noteq> a" for b
  proof -
    have "tasks w1 b = tasks w b" "tasks ?w b = tasks w2 b" using w1(3) P b by auto
    with bspec [OF w2(3) b(1)] show ?thesis by simp
  qed
  ultimately show ?thesis using that [of ?w ?t3] by simp
qed

lemma wound_joined: "wound k t t' \<Longrightarrow> joined t \<Longrightarrow> joined t'"
  by (auto simp: wound_def joined_def)

lemma stop_all_winding:
  assumes sch: "set sch \<subseteq> insert p0 P" "\<forall>a \<in> P. 2 \<le> count_list sch a"
  shows "winding code p0 P (length ps + n) w \<Longrightarrow> distinct ps \<Longrightarrow> set ps \<subseteq> P \<Longrightarrow>
    \<forall>a \<in> P. \<exists>t. tasks w a = Some t \<and> (if a \<in> set ps then running t else joined t) \<Longrightarrow>
    \<exists>w'. stop_all (run_schedule (process_message code) sch) ps w = Inr (Returns w') \<and> winding code p0 P n w' \<and>
      (\<forall>a \<in> P. \<exists>t. tasks w' a = Some t \<and> joined t)"
proof (induction ps arbitrary: w)
  case Nil
  then show ?case by simp
next
  case (Cons a ps)
  have a: "a \<in> P" "a \<notin> set ps" using Cons.prems by auto
  then obtain t where t: "tasks w a = Some t" "running t" using Cons.prems(4) by auto
  have w: "winding code p0 P (Suc (length ps + n)) w" using Cons.prems(1) by simp
  obtain w1 t1 where w1: "stop transition_to_state (run_schedule (process_message code) sch) a w = Inr (Returns w1)"
    "winding code p0 P (length ps + n) w1" "tasks w1 a = Some t1" "joined t1"
    "\<forall>b \<in> P. b \<noteq> a \<longrightarrow> rel_option (wound (count_list sch b)) (tasks w b) (tasks w1 b)"
    by (rule stop_winding [OF w a(1) t sch(1) bspec [OF sch(2) a(1)]])
  have "\<exists>t. tasks w1 b = Some t \<and> (if b \<in> set ps then running t else joined t)" if b: "b \<in> P" for b
  proof (cases "b = a")
    case True
    with w1(3,4) a(2) show ?thesis by simp
  next
    case False
    obtain u where u: "tasks w b = Some u" "if b \<in> set ps then running u else joined u" using Cons.prems(4) b False by force
    with w1(5) b False obtain u' where "tasks w1 b = Some u'" "wound (count_list sch b) u u'"
      by (auto simp: option_rel_Some1 dest!: bspec [of P _ b])
    with u(2) show ?thesis by (auto simp: wound_def intro: wound_joined split: if_splits)
  qed
  then have "\<forall>b \<in> P. \<exists>t. tasks w1 b = Some t \<and> (if b \<in> set ps then running t else joined t)" by blast
  from Cons.IH [OF w1(2) _ _ this] Cons.prems(2,3) w1(1) show ?case by simp
qed

section \<open>Stopping the manager\<close>

text \<open>The steps that the thread of the stopped manager still takes, at most.\<close>

definition remaining :: "Task \<Rightarrow> nat" where
  "remaining t = (case queue_thread t of AtTest \<Rightarrow> 1 | AtProcess m \<Rightarrow> 2 | AtDequeue \<Rightarrow> 3 | _ \<Rightarrow> 0)"

definition closing :: "user_code \<Rightarrow> ptr \<Rightarrow> ptr set \<Rightarrow> nat \<Rightarrow> World \<Rightarrow> bool" where
  "closing code p0 P k w \<longleftrightarrow> p0 \<notin> P \<and> broker_ok w \<and>
     (\<forall>a \<in> P. \<exists>t. tasks w a = Some t \<and> joined t \<and> current_state t = STOPPED) \<and>
     (\<exists>t. tasks w p0 = Some t \<and> \<not> running t \<and> mq_shutdown (message_queue t) \<and>
        periodic_thread t \<in> {NoThread, AtEnd} \<and> remaining t \<le> k \<and>
        (absorbing code p0 P 0 t \<or> queue_thread t = AtEnd))"

text \<open>The next step of the manager's thread.\<close>

lemma closing_manager_step:
  assumes t: "tasks w p0 = Some t" "\<not> running t" "mq_shutdown (message_queue t)"
      "absorbing code p0 P 0 t \<or> queue_thread t = AtEnd"
    and w: "broker_ok w" "\<forall>b \<in> P. tasks w b \<noteq> None"
  obtains w' t' where "sched_step (process_message code) p0 w = Inr w'" "tasks w' = (tasks w)(p0 \<mapsto> t')"
    "broker w' = broker w" "next_block w' = next_block w" "kin t t'" "mq_shutdown (message_queue t')"
    "remaining t' \<le> remaining t - 1" "absorbing code p0 P 0 t' \<or> queue_thread t' = AtEnd"
proof (cases "queue_thread t = AtEnd")
  case True
  with sched_step_parked [OF t(1)] t(1,3) show ?thesis
    by (intro that [of w t]) (simp_all add: map_upd_triv remaining_def)
next
  case False
  with t(4) have ab: "absorbing code p0 P 0 t" by simp
  then consider (test) "queue_thread t = AtTest" | (deq) "queue_thread t = AtDequeue"
    | (proc) a where "a \<in> P" "queue_thread t = AtProcess (ack_msg a STOPPED)"
    by (auto simp: absorbing_def)
  then show ?thesis
  proof cases
    case test
    then have "sched_step (process_message code) p0 w = Inr (put_task p0 (t\<lparr>queue_thread := AtEnd\<rparr>) w)"
      using t(1,2) by (simp add: sched_step_def run_step_def)
    then show ?thesis by (rule that [where t' = "t\<lparr>queue_thread := AtEnd\<rparr>"]) (use t(3) test in \<open>simp_all add: remaining_def\<close>)
  next
    case proc
    obtain w' d where "sched_step (process_message code) p0 w = Inr w'"
      "tasks w' = (tasks w)(p0 \<mapsto> t\<lparr>derived_part := d, queue_thread := AtTest\<rparr>)" "broker w' = broker w"
      "next_block w' = next_block w" "absorbing code p0 P 0 (t\<lparr>derived_part := d, queue_thread := AtTest\<rparr>)"
      by (rule absorbing_process [OF t(1) ab proc(2,1) w])
    then show ?thesis
      by (intro that [of w' "t\<lparr>derived_part := d, queue_thread := AtTest\<rparr>"])
        (use t(3) proc(2) in \<open>simp_all add: remaining_def\<close>)
  next
    case deq
    have q: "mq_good 0 (message_queue t)" using ab by (simp add: absorbing_def)
    obtain pc q' where q': "sched_step (process_message code) p0 w = Inr (put_task p0 (t\<lparr>message_queue := q', queue_thread := pc\<rparr>) w)"
      "mq_good 0 q'" "calm q'" "mq_shutdown q'" "mq_capacity q' = mq_capacity (message_queue t)"
      "pc = AtTest \<and> pending_msgs q' = [] \<or> (\<exists>m. pc = AtProcess m \<and> pending_msgs (message_queue t) = m # pending_msgs q')"
    proof (cases "pending_msgs (message_queue t)")
      case Nil
      with mq_reader.take_empty [OF q Nil] t(3) obtain q' where q': "dequeue (message_queue t) = Inr (Returns (None, q'))"
        "mq_good 0 q'" "pending_msgs q' = []" "mq_capacity q' = mq_capacity (message_queue t)" "mq_shutdown q'" by auto
      then show ?thesis
        using that [of AtTest q'] t(1) deq calm_dequeue [OF q q'(1)] by (simp add: sched_step_def run_step_def)
    next
      case (Cons m ms)
      obtain q' where q': "dequeue (message_queue t) = Inr (Returns (Some m, q'))" "mq_good 0 q'" "pending_msgs q' = ms"
        "mq_capacity q' = mq_capacity (message_queue t)" "mq_shutdown q' = mq_shutdown (message_queue t)"
        using mq_reader.take_ok [OF q Cons] by blast
      then show ?thesis
        using that [of "AtProcess m" q'] t(1,3) deq Cons calm_dequeue [OF q q'(1)] by (simp add: sched_step_def run_step_def)
    qed
    let ?t = "t\<lparr>message_queue := q', queue_thread := pc\<rparr>"
    have "length (pending_msgs q') \<le> length (pending_msgs (message_queue t))"
      "\<forall>m \<in> set (pending_msgs q'). \<exists>a \<in> P. m = ack_msg a STOPPED"
      "pc = AtTest \<or> (\<exists>a \<in> P. pc = AtProcess (ack_msg a STOPPED))"
      using q'(6) ab by (auto simp: absorbing_def simp del: length_pending_msgs)
    then have "absorbing code p0 P 0 ?t" using ab q'(2,3,5) by (auto simp: absorbing_def simp del: length_pending_msgs)
    moreover have "remaining ?t \<le> remaining t - 1" using q'(6) deq by (auto simp: remaining_def)
    ultimately show ?thesis by (intro that [OF q'(1), of ?t]) (use q'(4) in simp_all)
  qed
qed

lemma closing_step:
  assumes w: "closing code p0 P k w" and x: "x \<in> insert p0 P"
  obtains w' where "sched_step (process_message code) x w = Inr w'" "closing code p0 P (k - count_list [x] p0) w'"
proof (cases "x = p0")
  case False
  with x w obtain t where "tasks w x = Some t" "joined t" by (auto simp: closing_def)
  with sched_step_parked have "sched_step (process_message code) x w = Inr w" by (auto simp: joined_def)
  with that w False show ?thesis by simp
next
  case True
  from w obtain t where t: "tasks w p0 = Some t" "\<not> running t" "mq_shutdown (message_queue t)"
    "absorbing code p0 P 0 t \<or> queue_thread t = AtEnd" "periodic_thread t \<in> {NoThread, AtEnd}" "remaining t \<le> k"
    by (auto simp: closing_def)
  have ex: "broker_ok w" "\<forall>b \<in> P. tasks w b \<noteq> None" using w by (auto simp: closing_def)
  obtain w' t' where w': "sched_step (process_message code) p0 w = Inr w'" "tasks w' = (tasks w)(p0 \<mapsto> t')"
    "broker w' = broker w" "next_block w' = next_block w" "kin t t'" "mq_shutdown (message_queue t')"
    "remaining t' \<le> remaining t - 1" "absorbing code p0 P 0 t' \<or> queue_thread t' = AtEnd"
    by (rule closing_manager_step [OF t(1-4) ex])
  have "broker_ok w'" using alike_broker_ok [OF alike_put_task [OF t(1) w'(2,3,5)] ex(1) w'(3,4)] .
  moreover have "remaining t' \<le> k - 1" using w'(7) t(6) by simp
  ultimately have "closing code p0 P (k - 1) w'"
    using w w'(2,5,6,8) t(2,5) by (auto simp: closing_def kin_def)
  with that w'(1) True show ?thesis by simp
qed

lemma closing_schedule:
  "closing code p0 P k w \<Longrightarrow> set sch \<subseteq> insert p0 P \<Longrightarrow>
     \<exists>w'. run_schedule (process_message code) sch w = Inr w' \<and> closing code p0 P (k - count_list sch p0) w'"
proof (induction sch arbitrary: k w)
  case Nil
  then show ?case by simp
next
  case (Cons x sch)
  then have "x \<in> insert p0 P" by simp
  then obtain w1 where w1: "sched_step (process_message code) x w = Inr w1" "closing code p0 P (k - count_list [x] p0) w1"
    using closing_step [OF Cons.prems(1)] by blast
  from Cons.IH [OF w1(2)] Cons.prems(2) w1(1) show ?case by (auto simp: diff_diff_add split: if_splits)
qed

lemma stop_request_manager:
  assumes w: "winding code p0 P 0 w" and fin: "\<forall>a \<in> P. \<exists>t. tasks w a = Some t \<and> joined t"
  obtains w' where "stop_request transition_to_state p0 w = Inr w'" "closing code p0 P 3 w'"
proof -
  obtain t where t: "tasks w p0 = Some t" "running t" "periodic_thread t \<in> {NoThread, AtEnd}" "absorbing code p0 P 0 t"
    using winding_manager [OF w] by blast
  then obtain sm where sm: "derived_part t = DerivedStateManager sm" by (auto simp: absorbing_def demand_round_def state_round_def)
  have ww: "broker_ok w" "initialized (broker w)" "set (live_subscribers w Type_StateMsg) = P" "p0 \<notin> P"
    using w by (simp_all add: winding_def)
  let ?t = "t\<lparr>running := False\<rparr>"
  let ?w = "put_task p0 ?t w"
  let ?d = "DerivedStateManager (sm\<lparr>sm_current_state := Some STOPPED\<rparr>)"
  have live: "live_subscribers ?w ty = live_subscribers w ty" for ty
    by (rule live_subscribers_put_task [OF t(1)]) simp_all
  have ok: "broker_ok ?w" "initialized (broker ?w)" "tasks ?w p0 = Some ?t" "owned ?t" "derived_part ?t = DerivedStateManager sm"
    using broker_ok_put_task [OF ww(1) t(1), of ?t] ww(2) t(4) sm by (simp_all add: absorbing_def)
  have ready: "subscribers_ready 0 Type_StateMsg ?w"
    unfolding subscribers_ready_def live ww(3)
  proof (intro ballI allI impI)
    fix a u
    assume a: "a \<in> P" "tasks ?w a = Some u"
    then have "winding_task u" using winding_tasks [OF w a(1)] by auto
    then show "mq_good (Suc 0) (message_queue u) \<and> mq_room (message_queue u)"
      by (simp add: winding_task_def calm_def mq_room_def del: length_pending_msgs)
  qed
  obtain w1 where w1: "transition_to_state p0 STOPPED ?w = Inr w1" "broker_ok w1"
    "\<And>a. rel_option (delivered 0 (state_msg p0 STOPPED) (a \<in> P))
       (((tasks ?w)(p0 \<mapsto> ?t\<lparr>derived_part := ?d\<rparr>)) a) (tasks w1 a)"
    using sm_transition_ok [OF ok ready, of STOPPED] unfolding live ww(3) by metis
  have t1: "tasks w1 p0 = Some (?t\<lparr>derived_part := ?d\<rparr>)" using w1(3) [of p0] ww(4) by (simp add: delivered_def option_rel_Some1)
  let ?t' = "?t\<lparr>derived_part := ?d, message_queue := notify_shutdown (message_queue t)\<rparr>"
  have "stop_request transition_to_state p0 w = Inr (put_task p0 ?t' w1)"
    using t(1) w1(1) t1 by (simp add: stop_request_def)
  moreover have "broker_ok (put_task p0 ?t' w1)" by (rule broker_ok_put_task [OF w1(2) t1]) simp
  moreover have "absorbing code p0 P 0 ?t'"
    using t(4) sm by (auto simp: absorbing_def demand_round_def state_round_def)
  moreover have "remaining ?t' \<le> 3" by (simp add: remaining_def split: thread.splits)
  moreover have "\<exists>u. tasks w1 a = Some u \<and> joined u \<and> current_state u = STOPPED" if a: "a \<in> P" for a
  proof -
    obtain u where u: "tasks w a = Some u" "joined u" "winding_task u" "a \<noteq> p0"
      using fin winding_tasks [OF w a] a by auto
    with w1(3) [of a] a show ?thesis by (auto simp: option_rel_Some1 delivered_def joined_def winding_task_def)
  qed
  ultimately show ?thesis
    using that [of "put_task p0 ?t' w1"] ww(4) t(3) by (auto simp: closing_def)
qed

lemma stop_manager:
  assumes w: "winding code p0 P 0 w" and fin: "\<forall>a \<in> P. \<exists>t. tasks w a = Some t \<and> joined t"
    and sch: "set sch \<subseteq> insert p0 P" "3 \<le> count_list sch p0"
  obtains w' where "stop transition_to_state (run_schedule (process_message code) sch) p0 w = Inr (Returns w')"
    "\<forall>a \<in> insert p0 P. \<exists>t. tasks w' a = Some t \<and> joined t" "\<forall>a \<in> P. \<exists>t. tasks w' a = Some t \<and> current_state t = STOPPED"
proof -
  obtain t where t: "tasks w p0 = Some t" "running t" using winding_manager [OF w] by blast
  obtain w1 where w1: "stop_request transition_to_state p0 w = Inr w1" "closing code p0 P 3 w1"
    by (rule stop_request_manager [OF w fin])
  obtain w2 where w2: "run_schedule (process_message code) sch w1 = Inr w2" "closing code p0 P (3 - count_list sch p0) w2"
    using closing_schedule [OF w1(2) sch(1)] by blast
  then obtain t2 where t2: "tasks w2 p0 = Some t2" "\<not> running t2" "periodic_thread t2 \<in> {NoThread, AtEnd}"
    "absorbing code p0 P 0 t2 \<or> queue_thread t2 = AtEnd" "remaining t2 = 0"
    using sch(2) by (auto simp: closing_def)
  then have "queue_thread t2 \<in> {NoThread, AtEnd}" by (auto simp: absorbing_def remaining_def)
  note join = stop_join_ended [OF t2(1) this t2(3)]
  let ?t = "t2\<lparr>queue_thread := NoThread, periodic_thread := NoThread\<rparr>"
  have "stop transition_to_state (run_schedule (process_message code) sch) p0 w = Inr (Returns (put_task p0 ?t w2))"
    using t w1(1) w2(1) join by (simp add: stop_def)
  moreover have "joined ?t" using t2(2) by (simp add: joined_def)
  moreover have P: "\<exists>t. tasks (put_task p0 ?t w2) a = Some t \<and> joined t \<and> current_state t = STOPPED" if "a \<in> P" for a
    using w2(2) that by (auto simp: closing_def)
  ultimately show ?thesis using that [of "put_task p0 ?t w2"] by (metis insertE put_task_simps(1) fun_upd_same)
qed

section \<open>The shutdown\<close>

lemma winding_start:
  assumes "quiescent p0 P w" "collecting (demand_round code p0 STOPPED P) w"
    and "\<forall>a \<in> P. \<exists>t. tasks w a = Some t \<and> current_state t = STOPPED"
    and "\<forall>a \<in> insert p0 P. \<exists>t. tasks w a = Some t \<and> periodic_thread t \<in> {NoThread, AtEnd}"
  shows "winding code p0 P (card P) w" "\<forall>a \<in> P. \<exists>t. tasks w a = Some t \<and> running t"
proof -
  have tasks: "\<exists>t. tasks w a = Some t \<and> winding_task t \<and> running t" if a: "a \<in> P" for a
    using quiescent_task [OF assms(1) a] assms(3,4) a by (fastforce simp: winding_task_def idle_thread_def)
  then show "\<forall>a \<in> P. \<exists>t. tasks w a = Some t \<and> running t" by blast
  obtain t where t: "tasks w p0 = Some t" "idle_thread t" "card P \<le> mq_capacity (message_queue t)"
    using quiescent_manager [OF assms(1)] by blast
  have "collects (demand_round code p0 STOPPED P) (derived_part t)"
    using collecting_leader [OF assms(2)] t(1) by (auto simp: leader_def)
  moreover have "mq_good (card P) (message_queue t)"
    using idle_thread_good [OF t(2)] assms(1) by (simp add: quiescent_def)
  ultimately have "absorbing code p0 P (card P) t"
    using t(2,3) by (auto simp: absorbing_def idle_thread_def simp del: length_pending_msgs)
  moreover have "\<forall>a \<in> P. \<exists>t. tasks w a = Some t \<and> winding_task t" using tasks by blast
  moreover have "running t" "periodic_thread t \<in> {NoThread, AtEnd}" using t(1,2) assms(4) by (auto simp: idle_thread_def)
  moreover have "p0 \<notin> P" "broker_ok w" "initialized (broker w)" "live_subscribers w Type_StateAckMsg = [p0]"
    "set (live_subscribers w Type_StateMsg) = P"
    using assms(1) by (simp_all add: quiescent_def)
  ultimately show "winding code p0 P (card P) w"
    using t(1) quiescent_finite [OF assms(1)] by (simp add: winding_def)
qed

lemma shutdown_ok:
  assumes quiet: "quiescent p0 P w" and code: "follows code p0 STOPPED"
    and periodic: "\<forall>a \<in> insert p0 P. \<exists>t. tasks w a = Some t \<and> periodic_thread t \<in> {NoThread, AtEnd}"
    and sch: "set (sch1 @ sch2) \<subseteq> insert p0 P" "\<forall>a \<in> P. 3 \<le> count_list sch1 a" "3 * card P \<le> count_list sch2 p0"
    and sch3: "set sch3 \<subseteq> insert p0 P" "\<forall>a \<in> insert p0 P. 3 \<le> count_list sch3 a"
  obtains w' where "shutdown (run_schedule (process_message code) (sch1 @ sch2))
      (run_schedule (process_message code) sch3) p0 w = Inr (Returns w')"
    "\<forall>a \<in> insert p0 P. \<exists>t. tasks w' a = Some t \<and> joined t" "\<forall>a \<in> P. \<exists>t. tasks w' a = Some t \<and> current_state t = STOPPED"
proof -
  let ?others = "run_schedule (process_message code) (sch1 @ sch2)" and ?joining = "run_schedule (process_message code) sch3"
  obtain t sm where t: "tasks w p0 = Some t" "derived_part t = DerivedStateManager sm"
    using quiescent_manager [OF quiet] by blast
  define w1 where "w1 = world_log INFO (name t) ''shutting down tasks...'' w"
  have w1: "tasks w1 = tasks w" "broker w1 = broker w" "next_block w1 = next_block w" by (simp_all add: w1_def)
  have al1: "alike w w1" by (rule alikeI) (simp_all add: w1 option.rel_refl)
  have quiet1: "quiescent p0 P w1"
    using quiet alike_live [OF al1] alike_broker_ok [OF al1 _ w1(2,3)] w1 by (simp add: quiescent_def)
  have enumerated: "\<forall>n. STOPPED \<noteq> Unenumerated n" by simp
  obtain w2 where w2: "demand_state_transition ?others p0 STOPPED w1 = Inr (True, w2)" "quiescent p0 P w2" "alike w1 w2"
    "\<forall>a \<in> P. \<exists>t. tasks w2 a = Some t \<and> current_state t = STOPPED" "collecting (demand_round code p0 STOPPED P) w2"
    by (rule demand_with_schedule [OF quiet1 code enumerated sch])
  obtain t2 sm2 where t2: "tasks w2 p0 = Some t2" "derived_part t2 = DerivedStateManager sm2"
    "map_sorted (task_states sm2)" "dom (map_find (task_states sm2)) = P"
    using quiescent_manager [OF w2(2)] by blast
  have keys: "distinct (map fst (task_states sm2))" "set (map fst (task_states sm2)) = P"
    using std_map.entries_distinct [OF t2(3)] std_map.dom_find [OF t2(3)] t2(4) by simp_all
  have per: "\<exists>t. tasks w2 a = Some t \<and> periodic_thread t \<in> {NoThread, AtEnd}" if "a \<in> insert p0 P" for a
    using bspec [OF periodic that] alike_task [OF w2(3), of a] w1(1) by (auto simp: kin_def)
  have win: "winding code p0 P (card P) w2" "\<forall>a \<in> P. \<exists>t. tasks w2 a = Some t \<and> running t"
    using winding_start [OF w2(2,5,4)] per by blast+
  have "length (map fst (task_states sm2)) + 0 = card P" using distinct_card [OF keys(1)] keys(2) by simp
  with win(1) have "winding code p0 P (length (map fst (task_states sm2)) + 0) w2" by (simp only:)
  moreover have "\<forall>a \<in> P. \<exists>t. tasks w2 a = Some t \<and> (if a \<in> set (map fst (task_states sm2)) then running t else joined t)"
    unfolding keys(2) using win(2) by simp
  moreover have "\<forall>a \<in> P. 2 \<le> count_list sch3 a" using sch3(2) by force
  ultimately obtain w3 where w3: "stop_all ?joining (map fst (task_states sm2)) w2 = Inr (Returns w3)"
    "winding code p0 P 0 w3" "\<forall>a \<in> P. \<exists>t. tasks w3 a = Some t \<and> joined t"
    using stop_all_winding [OF sch3(1), of code "map fst (task_states sm2)" 0 w2] keys by auto
  have "3 \<le> count_list sch3 p0" using sch3(2) by simp
  from stop_manager [OF w3(2,3) sch3(1) this] obtain w' where
    w': "stop transition_to_state ?joining p0 w3 = Inr (Returns w')"
      "\<forall>a \<in> insert p0 P. \<exists>t. tasks w' a = Some t \<and> joined t" "\<forall>a \<in> P. \<exists>t. tasks w' a = Some t \<and> current_state t = STOPPED"
    by blast
  have "shutdown ?others ?joining p0 w = Inr (Returns w')"
    using t w2(1) t2(1,2) w3(1) w'(1) by (simp add: shutdown_def Let_def w1_def [symmetric])
  with that w'(2,3) show ?thesis by blast
qed

section \<open>A whole life\<close>

text \<open>Demands one after the other, each with the schedule of its wait.\<close>

fun demand_all :: "user_code \<Rightarrow> ptr \<Rightarrow> (TaskState \<times> ptr list) list \<Rightarrow> World \<Rightarrow> (bool list \<times> World) result" where
  "demand_all code p0 [] w = Inr ([], w)"
| "demand_all code p0 ((s, sch) # ds) w =
     res_bind (demand_state_transition (run_schedule (process_message code) sch) p0 s w) (\<lambda>(success, w1).
     res_bind (demand_all code p0 ds w1) (\<lambda>(rs, w2). Inr (success # rs, w2)))"

text \<open>
  A schedule that is long enough for a round: it can be cut into a part in which every task has
  three steps and a part in which the manager has three steps for each task.
\<close>

definition enough :: "ptr \<Rightarrow> ptr set \<Rightarrow> ptr list \<Rightarrow> bool" where
  "enough p0 P sch \<longleftrightarrow> (\<exists>sch1 sch2. sch = sch1 @ sch2 \<and> set sch \<subseteq> insert p0 P \<and>
     (\<forall>a \<in> P. 3 \<le> count_list sch1 a) \<and> 3 * card P \<le> count_list sch2 p0)"

lemma demand_all_ok:
  "quiescent p0 P w \<Longrightarrow>
     \<forall>(s, sch) \<in> set ds. follows code p0 s \<and> (\<forall>n. s \<noteq> Unenumerated n) \<and> enough p0 P sch \<Longrightarrow>
     \<exists>w'. demand_all code p0 ds w = Inr (replicate (length ds) True, w') \<and> quiescent p0 P w' \<and> alike w w'"
proof (induction ds arbitrary: w)
  case Nil
  then show ?case by simp
next
  case (Cons d ds)
  obtain s sch where d: "d = (s, sch)" by (cases d)
  with Cons.prems(2) obtain sch1 sch2 where sch: "follows code p0 s" "\<forall>n. s \<noteq> Unenumerated n" "sch = sch1 @ sch2"
    "set (sch1 @ sch2) \<subseteq> insert p0 P" "\<forall>a \<in> P. 3 \<le> count_list sch1 a" "3 * card P \<le> count_list sch2 p0"
    by (auto simp: enough_def)
  obtain w1 where w1: "demand_state_transition (run_schedule (process_message code) (sch1 @ sch2)) p0 s w = Inr (True, w1)"
    "quiescent p0 P w1" "alike w w1"
    using demand_with_schedule [OF Cons.prems(1) sch(1,2,4-6)] by metis
  from Cons.IH [OF w1(2)] Cons.prems(2) obtain w' where "demand_all code p0 ds w1 = Inr (replicate (length ds) True, w')"
    "quiescent p0 P w'" "alike w1 w'" by auto
  with w1 show ?case using alike_trans [OF w1(3)] by (simp add: d sch(3))
qed

section \<open>Properties\<close>

text \<open>An enrolled system with one task at address 8 and the manager at address 16.\<close>

lemma example_enrolled:
  "\<exists>w. enrolled 16 {8} w \<and> (\<forall>a \<in> {16, 8}. \<exists>t. tasks w a = Some t \<and> periodic_task_interval_ms t \<le> 0)"
proof -
  let ?f = "\<lambda>t :: Task. t\<lparr>running := False, queue_thread := NoThread, periodic_thread := NoThread, periodic_task_interval_ms := 0\<rparr>"
  obtain w u t where w: "tasks w 8 = Some (?f u)" "tasks w 16 = Some (?f t)" "owned u" "owned t" "broker_ok w" "initialized (broker w)"
    "live_subscribers w Type_StateAckMsg = [16]" "live_subscribers w Type_StateMsg = [8]"
    "managed (derived_part u)" "manages {8} (derived_part t)"
    "pending_msgs (message_queue u) = []" "pending_msgs (message_queue t) = []"
    "calm (message_queue u)" "calm (message_queue t)" "0 < mq_capacity (message_queue u)" "1 \<le> mq_capacity (message_queue t)"
    using example_registered [of ?f] by auto
  then have "enrolled 16 {8} w" by (simp add: enrolled_def dormant_def)
  with w(1,2) show ?thesis by (intro exI [of _ w]) simp
qed

text \<open>Initialisation: from a system in which the tasks are registered and subscribed but nothing is
  started, \<open>initialize\<close> starts the queue threads of the manager and of all tasks and brings every task
  to \<open>IDLE\<close>, under every interleaving that is long enough for the demanded transition; it neither
  fails nor reports a timeout, and the system is at rest and ready for demands.\<close>

lemma initialize_reaches_idle:
  assumes "enrolled p0 P w" "follows code p0 IDLE" "enough p0 P sch"
  shows "\<exists>w'. initialize (run_schedule (process_message code) sch) p0 w = Inr w' \<and> quiescent p0 P w' \<and>
    (\<forall>a \<in> P. \<exists>t. tasks w' a = Some t \<and> current_state t = IDLE \<and> running t)"
proof -
  from assms(3) obtain sch1 sch2 where sch: "sch = sch1 @ sch2" "set (sch1 @ sch2) \<subseteq> insert p0 P"
    "\<forall>a \<in> P. 3 \<le> count_list sch1 a" "3 * card P \<le> count_list sch2 p0"
    by (auto simp: enough_def)
  obtain w' where w': "initialize (run_schedule (process_message code) sch) p0 w = Inr w'" "quiescent p0 P w'"
    "\<forall>a \<in> P. \<exists>t. tasks w' a = Some t \<and> current_state t = IDLE"
    using initialize_ok [OF assms(1,2) sch(2-4)] sch(1) by metis
  then show ?thesis using quiescent_task [OF w'(2)] by (fastforce simp: idle_thread_def)
qed

text \<open>C5: The shutdown completes: from a system at rest without periodic threads, \<open>shutdown\<close> demands
  \<open>STOPPED\<close>, then stops and joins one task after the other and at last the manager. Whatever the
  interleaving while it waits, as long as every thread gets its steps, no call fails or waits
  forever: no task is running, no thread is left to join, and every task is in the state
  \<open>STOPPED\<close>. The acknowledgements and the last broadcast that nobody reads any more fit into the
  queues.\<close>

theorem shutdown_stops_all:
  assumes "quiescent p0 P w" "follows code p0 STOPPED"
    and "\<forall>a \<in> insert p0 P. \<exists>t. tasks w a = Some t \<and> periodic_thread t = NoThread"
    and "enough p0 P sch" "set sch' \<subseteq> insert p0 P" "\<forall>a \<in> insert p0 P. 3 \<le> count_list sch' a"
  shows "\<exists>w'. shutdown (run_schedule (process_message code) sch) (run_schedule (process_message code) sch') p0 w =
      Inr (Returns w') \<and>
    (\<forall>a \<in> insert p0 P. \<exists>t. tasks w' a = Some t \<and> \<not> running t \<and> queue_thread t = NoThread \<and> periodic_thread t = NoThread) \<and>
    (\<forall>a \<in> P. \<exists>t. tasks w' a = Some t \<and> current_state t = STOPPED)"
proof -
  from assms(4) obtain sch1 sch2 where sch: "sch = sch1 @ sch2" "set (sch1 @ sch2) \<subseteq> insert p0 P"
    "\<forall>a \<in> P. 3 \<le> count_list sch1 a" "3 * card P \<le> count_list sch2 p0"
    by (auto simp: enough_def)
  have "\<forall>a \<in> insert p0 P. \<exists>t. tasks w a = Some t \<and> periodic_thread t \<in> {NoThread, AtEnd}" using assms(3) by fastforce
  from shutdown_ok [OF assms(1,2) this sch(2-4) assms(5,6)] show ?thesis
    unfolding sch(1) joined_def by metis
qed

theorem shutdown_stops_all_witness:
  "\<exists>w w' t. shutdown (run_schedule (process_message documented_code) [8, 8, 8, 16, 16, 16])
      (run_schedule (process_message documented_code) [16, 8, 16, 8, 16, 8]) 16 w = Inr (Returns w') \<and>
     tasks w' 16 = Some t \<and> \<not> running t"
proof -
  let ?f = "\<lambda>t :: Task. t\<lparr>running := True, queue_thread := AtTest, periodic_thread := NoThread\<rparr>"
  obtain w u t where w: "tasks w 8 = Some (?f u)" "tasks w 16 = Some (?f t)" "owned u" "owned t" "broker_ok w" "initialized (broker w)"
    "live_subscribers w Type_StateAckMsg = [16]" "live_subscribers w Type_StateMsg = [8]"
    "managed (derived_part u)" "manages {8} (derived_part t)"
    "pending_msgs (message_queue u) = []" "pending_msgs (message_queue t) = []"
    "calm (message_queue u)" "calm (message_queue t)" "0 < mq_capacity (message_queue u)" "1 \<le> mq_capacity (message_queue t)"
    using example_registered [of ?f] by auto
  then have quiet: "quiescent 16 {8} w" by (simp add: quiescent_def idle_thread_def)
  have per: "\<forall>a \<in> insert 16 {8}. \<exists>t. tasks w a = Some t \<and> periodic_thread t = NoThread" using w(1,2) by simp
  have sch: "enough 16 {8} [8, 8, 8, 16, 16, 16]"
    unfolding enough_def by (intro exI [of _ "[8, 8, 8]"] exI [of _ "[16, 16, 16]"]) simp
  have code: "follows documented_code 16 STOPPED" by (rule documented_follows) simp
  have sch': "set [16, 8, 16, 8, 16, 8] \<subseteq> insert 16 {8 :: ptr}"
    "\<forall>a \<in> insert 16 {8 :: ptr}. 3 \<le> count_list [16, 8, 16, 8, 16, 8] a" by simp_all
  from shutdown_stops_all [OF quiet code per sch sch'] show ?thesis by blast
qed

text \<open>C6: A whole life: a system whose tasks are registered and subscribed goes through \<open>initialize\<close>,
  any number of demanded transitions to any enumerated states and \<open>shutdown\<close> without a failure:
  \<open>initialize\<close> brings all tasks to \<open>IDLE\<close>, every demand answers true and at the end all tasks are in
  the state \<open>STOPPED\<close>, nothing runs and all threads are joined. This holds under conditions: the
  handlers follow state messages; no task has periodic work (the interval is not positive), so
  there is no heartbeat task among them; and the threads are scheduled long enough, in any order:
  during each wait for acknowledgements every task has three steps and the manager, after that,
  three per task, and during each join every thread has three. The queues' sequence counters do
  not limit the number of demands.\<close>

theorem lifecycle_completes:
  assumes "enrolled p0 P w" "\<forall>s. (\<forall>n. s \<noteq> Unenumerated n) \<longrightarrow> follows code p0 s"
    and "\<forall>a \<in> insert p0 P. \<exists>t. tasks w a = Some t \<and> periodic_task_interval_ms t \<le> 0"
    and "\<forall>(s, sch) \<in> set ds. (\<forall>n. s \<noteq> Unenumerated n) \<and> enough p0 P sch"
    and "enough p0 P sch0" "enough p0 P sch" "set sch' \<subseteq> insert p0 P" "\<forall>a \<in> insert p0 P. 3 \<le> count_list sch' a"
  shows "\<exists>w1 w2 w3. initialize (run_schedule (process_message code) sch0) p0 w = Inr w1 \<and>
    (\<forall>a \<in> P. \<exists>t. tasks w1 a = Some t \<and> current_state t = IDLE) \<and>
    demand_all code p0 ds w1 = Inr (replicate (length ds) True, w2) \<and>
    shutdown (run_schedule (process_message code) sch) (run_schedule (process_message code) sch') p0 w2 = Inr (Returns w3) \<and>
    (\<forall>a \<in> insert p0 P. \<exists>t. tasks w3 a = Some t \<and> \<not> running t \<and> queue_thread t = NoThread \<and> periodic_thread t = NoThread) \<and>
    (\<forall>a \<in> P. \<exists>t. tasks w3 a = Some t \<and> current_state t = STOPPED)"
proof -
  from assms(5) obtain in1 in2 where sch0: "sch0 = in1 @ in2" "set (in1 @ in2) \<subseteq> insert p0 P"
    "\<forall>a \<in> P. 3 \<le> count_list in1 a" "3 * card P \<le> count_list in2 p0"
    by (auto simp: enough_def)
  from assms(6) obtain sch1 sch2 where sch: "sch = sch1 @ sch2" "set (sch1 @ sch2) \<subseteq> insert p0 P"
    "\<forall>a \<in> P. 3 \<le> count_list sch1 a" "3 * card P \<le> count_list sch2 p0"
    by (auto simp: enough_def)
  have code: "follows code p0 IDLE" "follows code p0 STOPPED" using assms(2) by simp_all
  obtain w0 w1 where w1: "initialize (run_schedule (process_message code) sch0) p0 w = Inr w1" "quiescent p0 P w1" "alike w0 w1"
    "\<forall>a. tasks w0 a = (if a \<in> insert p0 P then map_option started (tasks w a) else tasks w a)"
    "\<forall>a \<in> P. \<exists>t. tasks w1 a = Some t \<and> current_state t = IDLE"
    using initialize_ok [OF assms(1) code(1) sch0(2-4)] sch0(1) by metis
  have "\<forall>(s, sch) \<in> set ds. follows code p0 s \<and> (\<forall>n. s \<noteq> Unenumerated n) \<and> enough p0 P sch" using assms(2,4) by auto
  from demand_all_ok [OF w1(2) this] obtain w2 where w2: "demand_all code p0 ds w1 = Inr (replicate (length ds) True, w2)"
    "quiescent p0 P w2" "alike w1 w2" by blast
  have "\<exists>t. tasks w2 a = Some t \<and> periodic_thread t \<in> {NoThread, AtEnd}" if a: "a \<in> insert p0 P" for a
  proof -
    obtain t where t: "tasks w a = Some t" "periodic_task_interval_ms t \<le> 0" using assms(3) a by blast
    then have "tasks w0 a = Some (started t)" "periodic_thread (started t) = NoThread" using w1(4) a by (simp_all add: started_def)
    with alike_task [OF alike_trans [OF w1(3) w2(3)]] show ?thesis by (fastforce simp: kin_def)
  qed
  then have "\<forall>a \<in> insert p0 P. \<exists>t. tasks w2 a = Some t \<and> periodic_thread t \<in> {NoThread, AtEnd}" by blast
  from shutdown_ok [OF w2(2) code(2) this sch(2-4) assms(7,8)] obtain w3 where
    "shutdown (run_schedule (process_message code) sch) (run_schedule (process_message code) sch') p0 w2 = Inr (Returns w3)"
    "\<forall>a \<in> insert p0 P. \<exists>t. tasks w3 a = Some t \<and> joined t"
    "\<forall>a \<in> P. \<exists>t. tasks w3 a = Some t \<and> current_state t = STOPPED" unfolding sch(1) by metis
  with w1(1,5) w2(1) show ?thesis unfolding joined_def by (intro exI [of _ w1] exI [of _ w2] exI [of _ w3]) simp
qed

theorem lifecycle_completes_witness:
  "\<exists>w w1 w2 w3. initialize (run_schedule (process_message documented_code) [16, 8, 8, 8, 16, 16, 16]) 16 w = Inr w1 \<and>
     demand_all documented_code 16 [(RUNNING, [8, 8, 8, 16, 16, 16]), (IDLE, [8, 8, 8, 16, 16, 16])] w1 = Inr ([True, True], w2) \<and>
     shutdown (run_schedule (process_message documented_code) [8, 8, 8, 16, 16, 16])
       (run_schedule (process_message documented_code) [16, 8, 16, 8, 16, 8]) 16 w2 = Inr (Returns w3)"
proof -
  let ?sch = "[8, 8, 8, 16, 16, 16]"
  let ?ds = "[(RUNNING, ?sch), (IDLE, ?sch)]"
  obtain w where w: "enrolled 16 {8} w" "\<forall>a \<in> insert 16 {8}. \<exists>t. tasks w a = Some t \<and> periodic_task_interval_ms t \<le> 0"
    using example_enrolled by blast
  have sch: "enough 16 {8} ?sch"
    unfolding enough_def by (intro exI [of _ "[8, 8, 8]"] exI [of _ "[16, 16, 16]"]) simp
  have sch0: "enough 16 {8} [16, 8, 8, 8, 16, 16, 16]"
    unfolding enough_def by (intro exI [of _ "[16, 8, 8, 8]"] exI [of _ "[16, 16, 16]"]) simp
  have code: "\<forall>s. (\<forall>n. s \<noteq> Unenumerated n) \<longrightarrow> follows documented_code 16 s" using documented_follows by blast
  have ds: "\<forall>(s, sch) \<in> set ?ds. (\<forall>n. s \<noteq> Unenumerated n) \<and> enough 16 {8} sch" using sch by simp
  have sch': "set [16, 8, 16, 8, 16, 8] \<subseteq> insert 16 {8 :: ptr}"
    "\<forall>a \<in> insert 16 {8 :: ptr}. 3 \<le> count_list [16, 8, 16, 8, 16, 8] a" by simp_all
  have len: "replicate (length ?ds) True = [True, True]" by (simp add: numeral_2_eq_2)
  from lifecycle_completes [OF w(1) code w(2) ds sch0 sch sch'] show ?thesis unfolding len by blast
qed

end
