(* ===== verification/Heartbeat_Protocol.thy ===== *)
theory Heartbeat_Protocol
  imports Protocol
begin

text \<open>
  The protocol of the heartbeats, end to end: the heartbeat task posts a numbered heartbeat to every
  monitored task, their queue threads answer, and the queue thread of the heartbeat task matches
  the answers. A heartbeat is a round of request and reply.
\<close>

section \<open>Answering a heartbeat\<close>

text \<open>The program's own tasks answer heartbeats.\<close>

definition answers :: "user_code \<Rightarrow> bool" where
  "answers code \<longleftrightarrow> (\<forall>a m d w. get_data_as Type_HeartbeatMsg m = Some d \<longrightarrow>
     user_process code a m w = handle_heartbeat a d w)"

lemma documented_answers: "answers documented_code"
  by (auto simp: answers_def documented_code_def documented_process_def get_data_as_def
      split: if_splits)

section \<open>A heartbeat as a round\<close>

text \<open>An answer of the task \<open>a\<close> to the heartbeat with the number \<open>i\<close>.\<close>

definition answer :: "uint32_t \<Rightarrow> ptr \<Rightarrow> Msg \<Rightarrow> bool" where
  "answer i a m \<longleftrightarrow> get_sender m = a \<and> get_type m = Type_HeartbeatAckMsg \<and>
     (\<exists>x y. msg_data m = HeartbeatAckMsg i x y)"

text \<open>
  The heartbeats that the task at \<open>p\<close> sent to the tasks in \<open>P\<close>, where \<open>st a\<close> is the entry of the
  task \<open>a\<close>.
\<close>

definition beat_round :: "user_code \<Rightarrow> ptr \<Rightarrow> (ptr \<Rightarrow> TaskStatus) \<Rightarrow> ptr set \<Rightarrow> round" where
  "beat_round code p st P =
     \<lparr>handler = process_message code, collector = p, members = P, reply_type = Type_HeartbeatAckMsg,
      request = \<lambda>a. beat_msg p (st a), reply = \<lambda>a. answer (last_heartbeat_id (st a)) a, adopt = \<lambda>s. s,
      serves = \<lambda>d. answers code \<and> d = UserTask,
      collects = \<lambda>d. \<exists>hb. d = DerivedHeartBeat hb \<and> map_sorted (monitored_tasks hb) \<and>
        dom (map_find (monitored_tasks hb)) = P \<and>
        (\<forall>a \<in> P. \<exists>b now. map_find (monitored_tasks hb) a =
           Some ((st a)\<lparr>awaiting_response := b, last_response_time := now\<rparr>)),
      recorded = \<lambda>a d. \<exists>hb now. d = DerivedHeartBeat hb \<and> map_find (monitored_tasks hb) a =
        Some ((st a)\<lparr>awaiting_response := False, last_response_time := now\<rparr>)\<rparr>"

lemma status_update_self [simp]:
  "\<exists>b now. (s :: TaskStatus) = s\<lparr>awaiting_response := b, last_response_time := now\<rparr>"
  by (intro exI [of _ "awaiting_response s"] exI [of _ "last_response_time s"]) simp

lemma beat_round_simps [simp]:
  "handler (beat_round code p st P) = process_message code" "collector (beat_round code p st P) = p"
  "members (beat_round code p st P) = P" "reply_type (beat_round code p st P) = Type_HeartbeatAckMsg"
  "request (beat_round code p st P) = (\<lambda>a. beat_msg p (st a))"
  "reply (beat_round code p st P) = (\<lambda>a. answer (last_heartbeat_id (st a)) a)"
  "adopt (beat_round code p st P) = (\<lambda>s. s)"
  by (simp_all add: beat_round_def)

interpretation beat: collection "beat_round code p st P" for code p st P
proof (unfold_locales, goal_cases)
  case (1 w x t k)
  then have code: "answers code" "derived_part t = UserTask" and ready: "subscribers_ready k Type_HeartbeatAckMsg w"
    by (simp_all add: beat_round_def)
  let ?d = "msg_data (beat_msg p (st x))"
  obtain w1 m ts where w1: "handle_heartbeat x ?d w = Inr w1"
    "msg_data m = HeartbeatAckMsg (hb_unique_id ?d) (hb_timestamp ?d) ts" "get_sender m = x"
    "get_type m = Type_HeartbeatAckMsg"
    "\<And>b. rel_option (delivered k m (b \<in> set (live_subscribers w Type_HeartbeatAckMsg))) (tasks w b) (tasks w1 b)"
    "broker_ok w1" "initialized (broker w1)" "\<And>ty. live_subscribers w1 ty = live_subscribers w ty"
    using handle_heartbeat_ok [OF 1(1,2,4,5) ready, of ?d] by blast
  have "get_data_as Type_HeartbeatMsg (beat_msg p (st x)) = Some ?d" by (simp add: get_data_as_def beat_msg_def)
  then have "process_message code x (beat_msg p (st x)) w = Inr w1"
    using code w1(1) 1(4) by (simp add: process_message_def answers_def)
  moreover have "answer (last_heartbeat_id (st x)) x m" using w1(2-4) by (simp add: answer_def beat_msg_def)
  moreover have "(tasks w)(x \<mapsto> t\<lparr>current_state := current_state t\<rparr>) = tasks w" using 1(4) by (simp add: map_upd_triv)
  ultimately show ?case using w1(5-8) by auto
next
  case (2 w t a m)
  then obtain hb where hb: "derived_part t = DerivedHeartBeat hb" "map_sorted (monitored_tasks hb)"
    "dom (map_find (monitored_tasks hb)) = P"
    "\<forall>a \<in> P. \<exists>b now. map_find (monitored_tasks hb) a =
       Some ((st a)\<lparr>awaiting_response := b, last_response_time := now\<rparr>)"
    by (auto simp: beat_round_def)
  from 2 have m: "answer (last_heartbeat_id (st a)) a m" "a \<in> P" "tasks w p = Some t" by simp_all
  obtain s b0 now0 where s: "map_find (monitored_tasks hb) a = Some s" "last_heartbeat_id s = last_heartbeat_id (st a)"
    "s = (st a)\<lparr>awaiting_response := b0, last_response_time := now0\<rparr>"
    using hb(4) m(2) by force
  have keys: "fst ` set (monitored_tasks hb) = P" using std_map.dom_find [OF hb(2)] hb(3) by simp
  then have ex: "\<forall>b \<in> fst ` set (monitored_tasks hb). tasks w b \<noteq> None" using 2(6) by simp
  obtain x y where xy: "msg_data m = HeartbeatAckMsg (last_heartbeat_id s) x y" "get_sender m = a"
    "get_type m = Type_HeartbeatAckMsg"
    using m(1) s(2) by (auto simp: answer_def)
  from heartbeat_ack_ok [OF m(3) hb(1,2) xy(1) ex] s(1) xy(2) obtain w1 hb' now where
    w1: "HeartBeatTask_handle_acknowledgment p m w = Inr w1" "broker w1 = broker w" "next_block w1 = next_block w"
      "map_sorted (monitored_tasks hb')" "tasks w1 = (tasks w)(p \<mapsto> t\<lparr>derived_part := DerivedHeartBeat hb'\<rparr>)"
      "map_find (monitored_tasks hb') = (map_find (monitored_tasks hb))(a \<mapsto>
         s\<lparr>awaiting_response := False, last_response_time := now\<rparr>)"
    by auto
  have "process_message code p m w = Inr w1"
    using m(3) hb(1) w1(1) xy(3) by (simp add: process_message_def HeartBeatTask_process_message_def)
  moreover have "dom (map_find (monitored_tasks hb')) = P" using w1(6) hb(3) m(2) by auto
  moreover have own: "map_find (monitored_tasks hb') a =
      Some ((st a)\<lparr>awaiting_response := False, last_response_time := now\<rparr>)"
    using w1(6) s(3) by simp
  moreover have "\<exists>b now. map_find (monitored_tasks hb') c =
      Some ((st c)\<lparr>awaiting_response := b, last_response_time := now\<rparr>)" if "c \<in> P" for c
    using hb(4) that own w1(6) by (cases "c = a") (blast, simp)
  moreover have "\<exists>now. map_find (monitored_tasks hb') c =
      Some ((st c)\<lparr>awaiting_response := False, last_response_time := now\<rparr>)"
    if "map_find (monitored_tasks hb) c = Some ((st c)\<lparr>awaiting_response := False, last_response_time := now'\<rparr>)" for c now'
    using w1(6) that own by (cases "c = a") auto
  ultimately show ?case
    using w1(2-5) hb(1)
    by (intro exI [of _ w1] exI [of _ "DerivedHeartBeat hb'"]) (auto simp: beat_round_def)
next
  case (3 a m)
  then show ?case by (simp add: answer_def)
qed

section \<open>Sending starts the round\<close>

lemma send_loop_next_block: "send_loop p es w = Inr (es', w') \<Longrightarrow> next_block w' = next_block w"
proof (induction es arbitrary: w es')
  case (Cons e es)
  obtain a st where e: "e = (a, st)" by (cases e)
  show ?case
  proof (cases "awaiting_response st")
    case True
    with Cons.prems obtain es1 where "send_loop p es w = Inr (es1, w')" by (auto simp: e res_bind_eq_Inr)
    then show ?thesis by (rule Cons.IH)
  next
    case False
    obtain now w1 where clk: "steady_clock_now w = (now, w1)" by fastforce
    with False Cons.prems obtain i w2 m w3 es1 where w3: "generate_heartbeat_id p w1 = Inr (i, w2)"
      "deliver_message a m w2 = Inr w3" "send_loop p es w3 = Inr (es1, w')"
      by (auto simp: e res_bind_eq_Inr Let_def)
    have "next_block w1 = next_block w" using clk by (auto simp: steady_clock_now_def)
    moreover have "next_block w2 = next_block w1"
      using w3(1) by (auto simp: generate_heartbeat_id_def res_bind_eq_Inr put_hb_def)
    moreover have "next_block w' = next_block w3" by (rule Cons.IH [OF w3(3)])
    ultimately show ?thesis using deliver_message_frame(2) [OF w3(2)] by simp
  qed
qed simp

lemma send_heartbeat_next_block: "send_heartbeat p w = Inr w' \<Longrightarrow> next_block w' = next_block w"
  by (auto simp: send_heartbeat_def store_entries_def res_bind_eq_Inr put_hb_def dest!: send_loop_next_block)

text \<open>
  The system between heartbeats: the task at \<open>p\<close> monitors the tasks in \<open>P\<close> and is the subscriber of
  their answers, all queue threads run and wait for messages, no task owes an answer, and the
  queue of the heartbeat task can hold one answer of each task.
\<close>

definition monitoring :: "ptr \<Rightarrow> ptr set \<Rightarrow> World \<Rightarrow> bool" where
  "monitoring p P w \<longleftrightarrow> card P < 2 ^ 32 \<and> broker_ok w \<and> initialized (broker w) \<and>
     live_subscribers w Type_HeartbeatAckMsg = [p] \<and>
     (\<forall>a \<in> P. \<exists>u. tasks w a = Some u \<and> idle_thread u \<and> derived_part u = UserTask \<and>
        0 < mq_capacity (message_queue u)) \<and>
     (\<exists>t hb. tasks w p = Some t \<and> idle_thread t \<and> derived_part t = DerivedHeartBeat hb \<and>
        map_sorted (monitored_tasks hb) \<and> fst ` set (monitored_tasks hb) = P \<and>
        (\<forall>e \<in> set (monitored_tasks hb). \<not> awaiting_response (snd e)) \<and> card P \<le> mq_capacity (message_queue t))"

lemma monitoring_task:
  "monitoring p P w \<Longrightarrow> a \<in> P \<Longrightarrow> \<exists>u. tasks w a = Some u \<and> idle_thread u \<and> derived_part u = UserTask \<and>
     0 < mq_capacity (message_queue u) \<and> a \<noteq> p"
  by (fastforce simp: monitoring_def)

lemma monitoring_monitor_ok:
  assumes "monitoring p P w" "map_sorted (monitored_tasks hb)" "fst ` set (monitored_tasks hb) = P"
  shows "monitor_ok 0 {p} w (monitored_tasks hb)"
proof -
  have "\<exists>u. tasks w a = Some u \<and> mq_good (Suc 0) (message_queue u) \<and> mq_room (message_queue u) \<and> a \<noteq> p" if a: "a \<in> P" for a
  proof -
    obtain u where u: "tasks w a = Some u" "idle_thread u" "0 < mq_capacity (message_queue u)" "a \<noteq> p"
      using monitoring_task [OF assms(1) a] by blast
    then show ?thesis
      using idle_thread_good [OF u(2), of 1] by (auto simp: mq_room_def idle_thread_def simp del: length_pending_msgs)
  qed
  then show ?thesis using std_map.entries_distinct [OF assms(2)] assms(3) by (auto simp: monitor_ok_def)
qed

lemma list_all2_partner: "list_all2 P xs ys \<Longrightarrow> x \<in> set xs \<Longrightarrow> \<exists>y \<in> set ys. P x y"
  by (induction rule: list_all2_induct) auto

text \<open>The entry that the heartbeat task at \<open>p\<close> has of the task \<open>a\<close>.\<close>

definition monitor_entry :: "World \<Rightarrow> ptr \<Rightarrow> ptr \<Rightarrow> TaskStatus option" where
  "monitor_entry w p a =
     (case tasks w p of
        Some t \<Rightarrow> (case derived_part t of DerivedHeartBeat hb \<Rightarrow> map_find (monitored_tasks hb) a | _ \<Rightarrow> None)
      | None \<Rightarrow> None)"

text \<open>A heartbeat of the task at \<open>p\<close> is in the queue of the task \<open>a\<close>, as its entry says.\<close>

definition heartbeat_posted :: "ptr \<Rightarrow> ptr \<Rightarrow> TaskStatus \<Rightarrow> World \<Rightarrow> bool" where
  "heartbeat_posted p a s w \<longleftrightarrow> monitor_entry w p a = Some s \<and> awaiting_response s \<and>
     (\<exists>u. tasks w a = Some u \<and> pending_msgs (message_queue u) = [beat_msg p s])"

lemma send_heartbeat_collecting:
  assumes mon: "monitoring p P w" and code: "answers code"
  obtains w' st where "send_heartbeat p w = Inr w'" "collecting (beat_round code p st P) w'" "alike w w'"
    "\<forall>a \<in> P. heartbeat_posted p a (st a) w'"
proof -
  from mon have w: "card P < 2 ^ 32" "broker_ok w" "initialized (broker w)" "live_subscribers w Type_HeartbeatAckMsg = [p]"
    by (simp_all add: monitoring_def)
  from mon obtain t hb where t: "tasks w p = Some t" "idle_thread t" "derived_part t = DerivedHeartBeat hb"
    and hb: "map_sorted (monitored_tasks hb)" "fst ` set (monitored_tasks hb) = P"
      "\<forall>e \<in> set (monitored_tasks hb). \<not> awaiting_response (snd e)" "card P \<le> mq_capacity (message_queue t)"
    by (auto simp: monitoring_def)
  let ?es = "monitored_tasks hb"
  have p: "p \<noteq> nullptr" "p \<notin> P"
    using broker_ok_nullptr [OF w(2) t(1)] monitoring_task [OF mon] by blast+
  obtain es' w' where w': "send_heartbeat p w = Inr w'" "broker w' = broker w"
    "tasks w' p = Some (t\<lparr>derived_part := DerivedHeartBeat (hb\<lparr>monitored_tasks := es',
      next_heartbeat_id := next_heartbeat_id hb + of_nat (length (idle ?es))\<rparr>)\<rparr>)"
    "list_all2 (beaten 0 p w w') ?es es'"
    "\<forall>b. b \<noteq> p \<and> b \<notin> fst ` set ?es \<longrightarrow> tasks w' b = tasks w b"
    using send_heartbeat_ok [OF t(1,3) p(1) monitoring_monitor_ok [OF mon hb(1,2)]] by blast
  let ?t = "t\<lparr>derived_part := DerivedHeartBeat (hb\<lparr>monitored_tasks := es',
      next_heartbeat_id := next_heartbeat_id hb + of_nat (length (idle ?es))\<rparr>)\<rparr>"
  define st where "st a = the (map_find es' a)" for a
  let ?r = "beat_round code p st P"
  have keys: "map fst es' = map fst ?es"
    using w'(4) by (induction rule: list_all2_induct) (simp_all add: beaten_def)
  then have es': "map_sorted es'" "fst ` set es' = P"
    using hb(1,2) by (simp add: map_sorted_def, metis keys list.set_map)
  have dom: "dom (map_find es') = P" using std_map.dom_find [OF es'(1)] es'(2) by simp
  have beat: "\<exists>u q. tasks w a = Some u \<and> idle_thread u \<and> derived_part u = UserTask \<and> tasks w' a = Some (u\<lparr>message_queue := q\<rparr>) \<and>
      mq_good 0 q \<and> pending_msgs q = [beat_msg p (st a)] \<and> mq_capacity q = mq_capacity (message_queue u) \<and>
      0 < mq_capacity (message_queue u) \<and> awaiting_response (st a)" if a: "a \<in> P" for a
  proof -
    obtain u where u: "tasks w a = Some u" "idle_thread u" "derived_part u = UserTask" "0 < mq_capacity (message_queue u)"
      using monitoring_task [OF mon a] by blast
    from a hb(2) obtain e where e: "e \<in> set ?es" "fst e = a" by auto
    then obtain e' where e': "e' \<in> set es'" "beaten 0 p w w' e e'" using list_all2_partner [OF w'(4)] by blast
    then have "(a, snd e') \<in> set es'" using e(2) by (metis beaten_def prod.collapse)
    then have "st a = snd e'" using std_map.entries_find [OF es'(1)] by (simp add: st_def)
    with e' e hb(3) have "awaiting_response (st a) \<and>
        rel_option (delivered 0 (beat_msg p (st a)) True) (tasks w a) (tasks w' a)"
      by (auto simp: beaten_def)
    with u show ?thesis by (auto simp: option_rel_Some1 delivered_def idle_thread_def pq_insert_def)
  qed
  have foll: "\<exists>u. tasks w' a = Some u \<and> follower ?r a u \<and> work u \<noteq> 0" if a: "a \<in> P" for a
  proof -
    obtain u q where u: "idle_thread u" "derived_part u = UserTask" "tasks w' a = Some (u\<lparr>message_queue := q\<rparr>)"
      "mq_good 0 q" "pending_msgs q = [beat_msg p (st a)]" "mq_capacity q = mq_capacity (message_queue u)"
      "0 < mq_capacity (message_queue u)"
      using beat [OF a] by blast
    have "serves ?r UserTask" using code by (simp add: beat_round_def)
    with u have "follower ?r a (u\<lparr>message_queue := q\<rparr>)" by (auto simp: follower_def idle_thread_def)
    moreover have "work (u\<lparr>message_queue := q\<rparr>) \<noteq> 0"
      using u(1,5) by (auto simp: idle_thread_def work_def simp del: length_pending_msgs)
    ultimately show ?thesis using u(3) by blast
  qed
  have "rel_option kin (tasks w a) (tasks w' a)" for a
  proof (cases "a \<in> P")
    case True
    then obtain u q where "tasks w a = Some u" "tasks w' a = Some (u\<lparr>message_queue := q\<rparr>)" using beat by blast
    then show ?thesis by simp
  next
    case False
    with w'(3,5) t(1) hb(2) show ?thesis by (cases "a = p") (simp_all add: option.rel_refl)
  qed
  then have al: "alike w w'" using w'(2) by (rule alikeI)
  have "broker_ok w'" by (rule alike_broker_ok [OF al w(2) w'(2) send_heartbeat_next_block [OF w'(1)]])
  moreover have "busy w' P = P" using foll by (force simp: busy_def)
  moreover have "leader ?r P ?t"
    using t(2) hb(4) es'(1) dom idle_thread_good [OF t(2) w(1)]
    by (auto simp: leader_def idle_thread_def beat_round_def st_def simp del: length_pending_msgs)
  moreover have "\<forall>a \<in> P. \<exists>u. tasks w' a = Some u \<and> follower ?r a u" using foll by blast
  moreover have "finite P" using hb(2) by (metis List.finite_set finite_imageI)
  ultimately have "collecting ?r w'"
    using p(2) w(3,4) w'(2,3) alike_live [OF al] by (simp add: collecting_def)
  moreover have "\<forall>a \<in> P. heartbeat_posted p a (st a) w'"
  proof
    fix a assume a: "a \<in> P"
    then have "map_find es' a = Some (st a)" using dom by (auto simp: st_def)
    then have "monitor_entry w' p a = Some (st a)" using w'(3) by (simp add: monitor_entry_def)
    with beat [OF a] show "heartbeat_posted p a (st a) w'" by (auto simp: heartbeat_posted_def)
  qed
  ultimately show ?thesis using that w'(1) al by blast
qed

section \<open>After the round\<close>

lemma beat_done:
  assumes col: "collecting (beat_round code p st P) w'" and work: "\<forall>a \<in> insert p P. work_at w' a = 0"
    and w: "monitoring p P w" "alike w w'"
  shows "monitoring p P w' \<and>
    (\<forall>a \<in> P. \<exists>now. monitor_entry w' p a = Some ((st a)\<lparr>awaiting_response := False, last_response_time := now\<rparr>))"
proof -
  let ?r = "beat_round code p st P"
  have "\<forall>a \<in> P. \<exists>t. tasks w' a = Some t \<and> follower ?r a t \<and>
      pending_msgs (message_queue t) = [] \<and> (queue_thread t = AtTest \<or> queue_thread t = AtDequeue)"
    using collecting_done(1) [OF col] work by auto
  then have tasks: "\<forall>a \<in> P. \<exists>u. tasks w' a = Some u \<and> idle_thread u \<and> derived_part u = UserTask \<and> 0 < mq_capacity (message_queue u)"
    by (fastforce simp: follower_def idle_thread_def beat_round_def)
  obtain t where t: "tasks w' p = Some t" "leader ?r {} t" "pending_msgs (message_queue t) = []"
    "queue_thread t = AtTest \<or> queue_thread t = AtDequeue" "\<forall>a \<in> P. recorded ?r a (derived_part t)"
    using collecting_done(2) [OF col] work by auto
  then obtain hb where hb: "derived_part t = DerivedHeartBeat hb" "map_sorted (monitored_tasks hb)"
    "dom (map_find (monitored_tasks hb)) = P"
    by (auto simp: leader_def beat_round_def)
  have keys: "fst ` set (monitored_tasks hb) = P" using std_map.dom_find [OF hb(2)] hb(3) by simp
  have "\<not> awaiting_response s" if "(a, s) \<in> set (monitored_tasks hb)" for a s
  proof -
    have "a \<in> P" using imageI [OF that, of fst] keys by simp
    moreover have "map_find (monitored_tasks hb) a = Some s" using std_map.entries_find [OF hb(2)] that by blast
    ultimately show ?thesis using t(5) hb(1) by (force simp: beat_round_def)
  qed
  then have "\<forall>e \<in> set (monitored_tasks hb). \<not> awaiting_response (snd e)" by auto
  moreover have "\<forall>a \<in> P. \<exists>now. monitor_entry w' p a =
      Some ((st a)\<lparr>awaiting_response := False, last_response_time := now\<rparr>)"
    using t(1,5) hb(1) by (auto simp: monitor_entry_def beat_round_def)
  moreover have "idle_thread t" "card P \<le> mq_capacity (message_queue t)"
    using t(2-4) by (simp_all add: leader_def idle_thread_def)
  ultimately show ?thesis
    using w col t(1) hb keys tasks alike_live [OF w(2)] by (auto simp: monitoring_def collecting_def)
qed

text \<open>A timeout check that finds nobody waiting changes no task.\<close>

lemma check_loop_idle:
  assumes "tasks w p = Some t" "derived_part t = DerivedHeartBeat hb"
  shows "\<forall>e \<in> set es. \<not> awaiting_response (snd e) \<Longrightarrow> check_loop p now es w = Inr (es, w)"
  by (induction es) (use assms in \<open>auto simp: overdue_def\<close>)

lemma check_for_timeouts_idle:
  assumes "monitoring p P w"
  shows "\<exists>w'. check_for_timeouts p w = Inr w' \<and> tasks w' = tasks w \<and> monitoring p P w'"
proof -
  from assms obtain t hb where t: "tasks w p = Some t" "derived_part t = DerivedHeartBeat hb"
    "\<forall>e \<in> set (monitored_tasks hb). \<not> awaiting_response (snd e)"
    by (auto simp: monitoring_def)
  obtain now w1 where clk: "steady_clock_now w = (now, w1)" by fastforce
  then have w1: "tasks w1 = tasks w" "broker w1 = broker w" "next_block w1 = next_block w"
    by (auto simp: steady_clock_now_def)
  have "check_loop p now (monitored_tasks hb) w1 = Inr (monitored_tasks hb, w1)"
    by (rule check_loop_idle [OF _ t(2,3)]) (simp add: w1(1) t(1))
  moreover have "put_hb p t hb w1 = w1"
    using t(1,2) w1(1) put_task_same [of w1 p t] by (simp add: put_hb_def flip: t(2))
  ultimately have "check_for_timeouts p w = Inr w1"
    using t(1,2) w1(1) by (simp add: check_for_timeouts_def clk store_entries_def)
  moreover have al: "alike w w1" by (rule alikeI) (simp_all add: w1 option.rel_refl)
  have "monitoring p P w1"
    using assms alike_broker_ok [OF al] alike_live [OF al] w1 by (simp add: monitoring_def)
  ultimately show ?thesis using w1(1) by blast
qed

text \<open>A heartbeat task at address 24 that monitors the task at address 8.\<close>

lemma example_monitoring: "\<exists>w. monitoring 24 {8} w"
proof -
  let ?hb = "(HeartBeatTask_new 16 3)\<lparr>monitored_tasks := [(8, TaskStatus_new)]\<rparr>"
  obtain w u s t where sys: "trio_system w u s t ?hb" using example_trio by blast
  then have w: "broker_ok w" "initialized (broker w)" "tasks w 24 = Some t" "owned t"
    "live_subscribers w Type_HeartbeatAckMsg = []" "tasks w 8 = Some u"
    by (simp_all add: trio_system_def)
  obtain w1 where w1: "broker_ok w1" "initialized (broker w1)" "tasks w1 = tasks w"
    "live_subscribers w1 Type_HeartbeatAckMsg = [24]"
    by (rule subscribe_ok [OF w(1-4), of Type_HeartbeatAckMsg]) (use w(5) in auto)
  let ?go = "\<lambda>x. x\<lparr>running := True, queue_thread := AtDequeue\<rparr>"
  let ?w2 = "put_task 8 (?go u) w1"
  let ?w3 = "put_task 24 (?go t) ?w2"
  have t: "tasks w1 8 = Some u" "tasks ?w2 24 = Some t" using w1(3) w(3,6) by simp_all
  have "broker_ok ?w2" by (rule broker_ok_put_task [OF w1(1) t(1)]) simp
  then have "broker_ok ?w3" by (rule broker_ok_put_task [OF _ t(2)]) simp
  moreover have "live_subscribers ?w3 Type_HeartbeatAckMsg = [24]"
    using live_subscribers_put_task [OF t(2), of "?go t"] live_subscribers_put_task [OF t(1), of "?go u"] w1(4) by simp
  moreover have "calm (message_queue u)" "calm (message_queue t)" "pending_msgs (message_queue u) = []"
    "pending_msgs (message_queue t) = []" "0 < mq_capacity (message_queue u)" "1 \<le> mq_capacity (message_queue t)"
    using sys by (simp_all add: trio_system_def calm_def mq_room_def del: length_pending_msgs)
  ultimately have "monitoring 24 {8} ?w3"
    using sys w1(2) by (simp add: monitoring_def trio_system_def idle_thread_def map_sorted_def TaskStatus_new_def)
  then show ?thesis by blast
qed



end
