(* ===== verification/Failover.thy ===== *)
theory Failover
  imports Heartbeat_Protocol
begin

text \<open>
  What becomes of a task that does not answer its heartbeats, end to end: the timeout check of the
  heartbeat task has the state manager send it to \<open>ERROR\<close>, its queue thread adopts the state and
  acknowledges, and the manager records it. This is a round of the manager with the late tasks.
\<close>

section \<open>Supervision\<close>

text \<open>
  The heartbeat task at \<open>p\<close>, with the members \<open>hb\<close>, monitors registered tasks on behalf of the
  manager at \<open>q\<close>. The monitored tasks and the manager run and wait for messages, a state has been
  demanded before, and the manager's queue can hold one acknowledgement of each monitored task.
\<close>

definition monitored_set :: "HeartBeatTask \<Rightarrow> ptr set" where
  "monitored_set hb = fst ` set (monitored_tasks hb)"

definition supervises :: "ptr set \<Rightarrow> Task \<Rightarrow> bool" where
  "supervises P s \<longleftrightarrow> idle_thread s \<and> card P < 2 ^ 32 \<and> card P \<le> mq_capacity (message_queue s) \<and>
     (\<exists>sm target. derived_part s = DerivedStateManager sm \<and> map_sorted (task_states sm) \<and>
        target_state sm = Some target \<and> P \<subseteq> dom (map_find (task_states sm)))"

definition supervised :: "ptr \<Rightarrow> ptr \<Rightarrow> HeartBeatTask \<Rightarrow> World \<Rightarrow> bool" where
  "supervised p q hb w \<longleftrightarrow> p \<noteq> q \<and> broker_ok w \<and> initialized (broker w) \<and>
     live_subscribers w Type_StateAckMsg = [q] \<and> state_manager hb = q \<and>
     map_sorted (monitored_tasks hb) \<and> p \<notin> monitored_set hb \<and> q \<notin> monitored_set hb \<and>
     (\<exists>t. tasks w p = Some t \<and> derived_part t = DerivedHeartBeat hb) \<and>
     (\<forall>a \<in> monitored_set hb. \<exists>u. tasks w a = Some u \<and> idle_thread u \<and> managed (derived_part u) \<and>
        0 < mq_capacity (message_queue u)) \<and>
     (\<exists>s. tasks w q = Some s \<and> supervises (monitored_set hb) s)"

lemma supervised_monitor_ok:
  assumes "supervised p q hb w"
  shows "monitor_ok 0 {p, q} w (monitored_tasks hb)"
proof -
  have "\<exists>u. tasks w a = Some u \<and> mq_good (Suc 0) (message_queue u) \<and> mq_room (message_queue u)"
    if a: "a \<in> monitored_set hb" for a
  proof -
    obtain u where u: "tasks w a = Some u" "idle_thread u" "0 < mq_capacity (message_queue u)"
      using assms a by (auto simp: supervised_def)
    then show ?thesis
      using idle_thread_good [OF u(2), of 1] by (auto simp: mq_room_def idle_thread_def simp del: length_pending_msgs)
  qed
  then show ?thesis
    using assms std_map.entries_distinct [of "monitored_tasks hb"]
    by (auto simp: monitor_ok_def supervised_def monitored_set_def)
qed

section \<open>The timeout check starts a round with the late tasks\<close>

lemma timeouts_collecting:
  assumes sup: "supervised p q hb w" and code: "follows code q ERROR"
    and L: "L = late hb (steady_now (clocks w (clock_reads w))) (monitored_tasks hb)"
  obtains w' target D where "check_for_timeouts p w = Inr w'" "collecting (state_round code q ERROR target D L) w'"
proof -
  from sup have w: "p \<noteq> q" "broker_ok w" "initialized (broker w)" "live_subscribers w Type_StateAckMsg = [q]"
    "state_manager hb = q" "q \<notin> monitored_set hb" "p \<notin> monitored_set hb"
    by (simp_all add: supervised_def)
  from sup obtain t where t: "tasks w p = Some t" "derived_part t = DerivedHeartBeat hb" by (auto simp: supervised_def)
  from sup obtain s sm target where s: "tasks w q = Some s" "idle_thread s" "derived_part s = DerivedStateManager sm"
    and sm: "map_sorted (task_states sm)" "target_state sm = Some target" "monitored_set hb \<subseteq> dom (map_find (task_states sm))"
    and cap: "card (monitored_set hb) < 2 ^ 32" "card (monitored_set hb) \<le> mq_capacity (message_queue s)"
    by (auto simp: supervised_def supervises_def)
  have LP: "L \<subseteq> monitored_set hb" using late_subset L by (simp add: monitored_set_def)
  have fin: "finite (monitored_set hb)" by (simp add: monitored_set_def)
  have cardL: "card L \<le> card (monitored_set hb)" by (rule card_mono [OF fin LP])
  have q0: "q \<noteq> nullptr" using broker_ok_nullptr [OF w(2) s(1)] .
  obtain w' sm' where w': "check_for_timeouts p w = Inr w'" "broker w' = broker w" "next_block w' = next_block w"
    "tasks w' p = Some (t\<lparr>derived_part := DerivedHeartBeat (hb\<lparr>monitored_tasks :=
       map (checked hb (steady_now (clocks w (clock_reads w)))) (monitored_tasks hb)\<rparr>)\<rparr>)"
    "tasks w' q = Some (s\<lparr>derived_part := DerivedStateManager sm'\<rparr>)"
    "map_find (task_states sm') = (\<lambda>a. if a \<in> L then Some ERROR else map_find (task_states sm) a)"
    "map_sorted (task_states sm')" "target_state sm' = Some target"
    "\<forall>a. a \<noteq> p \<and> a \<noteq> q \<longrightarrow> rel_option (delivered 0 (state_msg q ERROR) (a \<in> L)) (tasks w a) (tasks w' a)"
    using check_for_timeouts_ok [OF t w(5) q0 w(1) [symmetric] s(1,3) sm(1) supervised_monitor_ok [OF sup] refl] sm(2)
    unfolding L by auto
  let ?D = "dom (map_find (task_states sm))"
  let ?r = "state_round code q ERROR target ?D L"
  have foll: "\<exists>u. tasks w' a = Some u \<and> follower ?r a u \<and> work u \<noteq> 0" if a: "a \<in> L" for a
  proof -
    have aP: "a \<in> monitored_set hb" using a LP by blast
    then obtain u where u: "tasks w a = Some u" "idle_thread u" "managed (derived_part u)" "0 < mq_capacity (message_queue u)"
      using sup by (auto simp: supervised_def)
    have "a \<noteq> p \<and> a \<noteq> q" using aP w(6,7) by auto
    with w'(9) u(1,2) a obtain x where "tasks w' a = Some (u\<lparr>message_queue := x\<rparr>)" "mq_good 0 x"
      "pending_msgs x = [state_msg q ERROR]" "mq_capacity x = mq_capacity (message_queue u)"
      by (fastforce simp: option_rel_Some1 delivered_def idle_thread_def pq_insert_def)
    with u code show ?thesis
      by (auto simp: follower_def idle_thread_def managed_def work_def state_round_def simp del: length_pending_msgs)
  qed
  have busy: "busy w' L = L" using foll by (force simp: busy_def)
  have good: "mq_good (card L) (message_queue s)" by (rule idle_thread_good [OF s(2)]) (use cardL cap(1) in simp)
  have LD: "L \<subseteq> ?D" using LP sm(3) by blast
  then have dom: "dom (map_find (task_states sm')) = ?D" unfolding w'(6) by (auto split: if_splits)
  have lead: "leader ?r L (s\<lparr>derived_part := DerivedStateManager sm'\<rparr>)"
  proof -
    have "collects ?r (DerivedStateManager sm')" using w'(7,8) dom LD by (simp add: state_round_def)
    then show ?thesis
      using s(2) good cardL cap(2) by (auto simp: leader_def idle_thread_def simp del: length_pending_msgs)
  qed
  have rel: "rel_option kin (tasks w a) (tasks w' a)" for a
  proof (cases "a = p \<or> a = q")
    case True
    with w'(4,5) t(1) s(1) show ?thesis by (elim disjE) simp_all
  next
    case False
    with w'(9) have "rel_option (delivered 0 (state_msg q ERROR) (a \<in> L)) (tasks w a) (tasks w' a)" by blast
    then show ?thesis by (rule option.rel_mono_strong) (rule delivered_kin)
  qed
  have al: "alike w w'" by (rule alikeI [OF rel w'(2)])
  have "broker_ok w'" by (rule alike_broker_ok [OF al w(2) w'(2,3)])
  moreover have "finite L" "q \<notin> L" using LP fin w(6) by (auto intro: finite_subset)
  moreover have "\<forall>a \<in> L. \<exists>u. tasks w' a = Some u \<and> follower ?r a u" using foll by blast
  ultimately have "collecting ?r w'"
    using w(3,4) w'(2,5) lead alike_live [OF al] by (simp add: collecting_def busy)
  with that w'(1) show ?thesis by blast
qed

section \<open>Properties\<close>

text \<open>C15: Tasks that do not answer end in \<open>ERROR\<close>: when the timeout check finds late tasks, it marks
  them without a failure, and under every interleaving of the queue threads in which each late task
  has three steps and the manager, after that, three steps for each of them, all late tasks are in
  the state \<open>ERROR\<close>, with nothing left to do, and the manager has recorded \<open>ERROR\<close> for all of them
  from their own acknowledgements. The tasks are registered and follow state messages, their queue
  threads and that of the manager wait with empty queues, and a state was demanded before, so that
  the manager has a target to compare the acknowledgements with.\<close>

theorem late_tasks_end_in_error:
  assumes "supervised p q hb w" "follows code q ERROR"
    and "L = late hb (steady_now (clocks w (clock_reads w))) (monitored_tasks hb)"
    and "set (sch1 @ sch2) \<subseteq> insert q L"
    and "\<forall>a \<in> L. 3 \<le> count_list sch1 a" "3 * card L \<le> count_list sch2 q"
  shows "\<exists>w1 w2 s sm. check_for_timeouts p w = Inr w1 \<and> run_schedule (process_message code) (sch1 @ sch2) w1 = Inr w2 \<and>
    (\<forall>a \<in> L. \<exists>u. tasks w2 a = Some u \<and> current_state u = ERROR \<and> pending_msgs (message_queue u) = []) \<and>
    tasks w2 q = Some s \<and> derived_part s = DerivedStateManager sm \<and> pending_msgs (message_queue s) = [] \<and>
    (\<forall>a \<in> L. map_find (task_states sm) a = Some ERROR)"
proof -
  obtain w1 target D where w1: "check_for_timeouts p w = Inr w1" "collecting (state_round code q ERROR target D L) w1"
    by (rule timeouts_collecting [OF assms(1-3)])
  let ?r = "state_round code q ERROR target D L"
  obtain w2 where w2: "run_schedule (process_message code) (sch1 @ sch2) w1 = Inr w2" "collecting ?r w2" "alike w1 w2"
    "\<forall>a \<in> insert q L. work_at w2 a = 0"
    using acks.collecting_finishes [OF w1(2), of sch1 sch2] assms(4-6) by auto
  have tasks: "\<forall>a \<in> L. \<exists>u. tasks w2 a = Some u \<and> current_state u = ERROR \<and> pending_msgs (message_queue u) = []"
    using collecting_done(1) [OF w2(2)] w2(4) by fastforce
  obtain s where s: "tasks w2 q = Some s" "leader ?r {} s" "pending_msgs (message_queue s) = []"
    "\<forall>a \<in> L. recorded ?r a (derived_part s)"
    using collecting_done(2) [OF w2(2)] w2(4) by auto
  then obtain sm where sm: "derived_part s = DerivedStateManager sm" by (auto simp: leader_def state_round_def)
  with s(4) have "\<forall>a \<in> L. map_find (task_states sm) a = Some ERROR" by (auto simp: state_round_def)
  with w1(1) w2(1) tasks s(1,3) sm show ?thesis by blast
qed

text \<open>A heartbeat task at address 24 that monitors the task at address 8 for the manager at 16.\<close>

lemma example_supervised:
  fixes st :: TaskStatus
  defines "hb \<equiv> (HeartBeatTask_new 16 3)\<lparr>monitored_tasks := [(8, st)]\<rparr>"
  shows "\<exists>w. supervised 24 16 hb w \<and> clocks w = (\<lambda>_. example_clock)"
proof -
  obtain w u s t where sys: "trio_system w u s t hb" using example_trio by blast
  then have w: "broker_ok w" "initialized (broker w)" "tasks w 16 = Some s" "owned s"
    "live_subscribers w Type_StateAckMsg = []" "tasks w 8 = Some u" "tasks w 24 = Some t" "derived_part t = DerivedHeartBeat hb"
    by (simp_all add: trio_system_def)
  obtain w1 where w1: "clocks w1 = clocks w" "broker_ok w1" "initialized (broker w1)" "tasks w1 = tasks w"
    "live_subscribers w1 Type_StateAckMsg = [16]"
    by (rule subscribe_ok [OF w(1-4), of Type_StateAckMsg]) (use w(5) in auto)
  let ?sm = "StateManager_new\<lparr>task_states := [(8, RUNNING)], target_state := Some RUNNING\<rparr>"
  let ?go = "\<lambda>x. x\<lparr>running := True, queue_thread := AtDequeue\<rparr>"
  let ?s = "(?go s)\<lparr>derived_part := DerivedStateManager ?sm\<rparr>"
  let ?w2 = "put_task 8 (?go u) w1"
  let ?w3 = "put_task 16 ?s ?w2"
  have t: "tasks w1 8 = Some u" "tasks ?w2 16 = Some s" "tasks ?w3 24 = Some t" using w1(4) w(3,6,7) by simp_all
  have "broker_ok ?w2" by (rule broker_ok_put_task [OF w1(2) t(1)]) simp
  then have "broker_ok ?w3" by (rule broker_ok_put_task [OF _ t(2)]) simp
  moreover have "live_subscribers ?w3 Type_StateAckMsg = [16]"
    using live_subscribers_put_task [OF t(2), of ?s] live_subscribers_put_task [OF t(1), of "?go u"] w1(5) by simp
  moreover have "calm (message_queue u)" "calm (message_queue s)" "pending_msgs (message_queue u) = []"
    "pending_msgs (message_queue s) = []" "0 < mq_capacity (message_queue u)" "1 \<le> mq_capacity (message_queue s)" "derived_part u = UserTask" "owned u"
    using sys by (simp_all add: trio_system_def calm_def mq_room_def del: length_pending_msgs)
  ultimately have "supervised 24 16 hb ?w3"
    using w1(3) w(4,8) t(3)
    by (simp add: supervised_def supervises_def monitored_set_def idle_thread_def managed_def map_sorted_def hb_def HeartBeatTask_new_def)
  then show ?thesis using sys w1(1) by (intro exI [of _ ?w3]) (simp add: trio_system_def)
qed

theorem late_tasks_end_in_error_witness:
  "\<exists>w w1 w2 u. check_for_timeouts 24 w = Inr w1 \<and>
     run_schedule (process_message documented_code) [8, 16, 8, 8, 16, 16, 16] w1 = Inr w2 \<and>
     tasks w2 8 = Some u \<and> current_state u = ERROR"
proof -
  let ?st = "TaskStatus_new\<lparr>awaiting_response := True, last_heartbeat_time := - 1000000\<rparr>"
  let ?hb = "(HeartBeatTask_new 16 3)\<lparr>monitored_tasks := [(8, ?st)]\<rparr>"
  obtain w where w: "supervised 24 16 ?hb w" "clocks w = (\<lambda>_. example_clock)" using example_supervised by blast
  have late: "{8} = late ?hb (steady_now (clocks w (clock_reads w))) (monitored_tasks ?hb)"
    using w(2) by (simp add: overdue_def duration_ms_def HeartBeatTask_new_def example_clock_def)
  have sch: "set ([8, 16, 8, 8] @ [16, 16, 16]) \<subseteq> insert 16 {8 :: ptr}"
    "\<forall>a \<in> {8 :: ptr}. 3 \<le> count_list [8, 16, 8, 8] a" "3 * card {8 :: ptr} \<le> count_list [16, 16, 16 :: ptr] 16"
    by simp_all
  have "follows documented_code 16 ERROR" by (rule documented_follows) simp
  from late_tasks_end_in_error [OF w(1) this late sch] show ?thesis by auto
qed

end
