(* ===== verification/Queue_Threads.thy ===== *)
theory Queue_Threads
  imports Message_Queue
begin

text \<open>
  Several threads on one message queue. \<open>enqueue\<close> takes a block from the pool before it takes the
  queue's mutex, so the two halves of different calls interleave with each other and with the other
  operations, which hold the mutex throughout. The pool has a mutex of its own; a block that is
  taken while \<open>dequeue\<close> is between its removal of the node and its return of the block is the same
  as one taken before the call, since the removal does not touch the pool.
\<close>

section \<open>Calls in progress\<close>

text \<open>A queue and the calls of \<open>enqueue\<close> that have a block and wait for the mutex.\<close>

record shared_queue =
  sq_queue :: MessageQueue
  sq_calls :: "(ptr \<times> Msg) list"

datatype queue_event =
    Inserted Msg
  | Taken Msg

inductive queue_step :: "shared_queue \<Rightarrow> queue_event list \<Rightarrow> shared_queue \<Rightarrow> bool" where
  step_alloc: "enqueue_alloc (sq_queue s) = Inr (raw, q) \<Longrightarrow>
     queue_step s [] \<lparr>sq_queue = q, sq_calls = (raw, m) # sq_calls s\<rparr>"
| step_insert: "(raw, m) \<in> set (sq_calls s) \<Longrightarrow> enqueue_insert (sq_queue s) raw m = Inr q \<Longrightarrow>
     queue_step s [Inserted m] \<lparr>sq_queue = q, sq_calls = remove1 (raw, m) (sq_calls s)\<rparr>"
| step_dequeue: "dequeue (sq_queue s) = Inr (Returns (r, q)) \<Longrightarrow>
     queue_step s (case r of None \<Rightarrow> [] | Some m \<Rightarrow> [Taken m]) (s\<lparr>sq_queue := q\<rparr>)"
| step_try_dequeue: "try_dequeue (sq_queue s) = Inr (r, q) \<Longrightarrow>
     queue_step s (case r of None \<Rightarrow> [] | Some m \<Rightarrow> [Taken m]) (s\<lparr>sq_queue := q\<rparr>)"
| step_notify_shutdown: "queue_step s [] (s\<lparr>sq_queue := notify_shutdown (sq_queue s)\<rparr>)"

inductive queue_run :: "shared_queue \<Rightarrow> queue_event list \<Rightarrow> shared_queue \<Rightarrow> bool" where
  run_refl: "queue_run s [] s"
| run_step: "queue_run s es s' \<Longrightarrow> queue_step s' es' s'' \<Longrightarrow> queue_run s (es @ es') s''"

text \<open>The messages that the events of a run put in and took out.\<close>

fun inserted :: "queue_event list \<Rightarrow> Msg multiset" where
  "inserted [] = {#}"
| "inserted (Inserted m # es) = add_mset m (inserted es)"
| "inserted (Taken m # es) = inserted es"

fun taken :: "queue_event list \<Rightarrow> Msg multiset" where
  "taken [] = {#}"
| "taken (Inserted m # es) = taken es"
| "taken (Taken m # es) = add_mset m (taken es)"

lemma inserted_append [simp]: "inserted (es @ es') = inserted es + inserted es'"
  by (induction es rule: inserted.induct) simp_all

lemma taken_append [simp]: "taken (es @ es') = taken es + taken es'"
  by (induction es rule: taken.induct) simp_all

section \<open>The invariant of the interleavings\<close>

abbreviation held_blocks :: "shared_queue \<Rightarrow> ptr set" where
  "held_blocks s \<equiv> fst ` set (sq_calls s)"

definition pending :: "shared_queue \<Rightarrow> Msg multiset" where
  "pending s = image_mset message (mset (mq_contents (sq_queue s)))"

definition shared_ok :: "shared_queue \<Rightarrow> bool" where
  "shared_ok s \<longleftrightarrow> mq_wf (sq_queue s) (held_blocks s) \<and> distinct (map fst (sq_calls s))"

lemma shared_ok_alloc:
  assumes "shared_ok s" "enqueue_alloc (sq_queue s) = Inr (raw, q)"
  shows "shared_ok \<lparr>sq_queue = q, sq_calls = (raw, m) # sq_calls s\<rparr>"
    and "pending \<lparr>sq_queue = q, sq_calls = (raw, m) # sq_calls s\<rparr> = pending s" "mq_capacity q = mq_capacity (sq_queue s)"
proof -
  from assms(1) have wf: "mq_wf (sq_queue s) (held_blocks s)" by (simp add: shared_ok_def)
  have room: "length (mq_queue (sq_queue s)) + card (held_blocks s) < mq_capacity (sq_queue s)"
    using mq_wf_bound [OF wf] enqueue_alloc_full [OF wf] assms(2) by fastforce
  obtain p where p: "q = sq_queue s\<lparr>mq_pool := p\<rparr>" "mq_wf q (insert raw (held_blocks s))" "raw \<notin> held_blocks s"
    using enqueue_alloc_ok [OF wf room] assms(2) by (metis Inr_inject prod.inject)
  then show "shared_ok \<lparr>sq_queue = q, sq_calls = (raw, m) # sq_calls s\<rparr>"
    using assms(1) by (simp add: shared_ok_def)
  show "pending \<lparr>sq_queue = q, sq_calls = (raw, m) # sq_calls s\<rparr> = pending s" "mq_capacity q = mq_capacity (sq_queue s)"
    by (simp_all add: pending_def p(1) mq_contents_def mq_capacity_def)
qed

text \<open>The calls that are left when one of them gets the mutex.\<close>

lemma held_blocks_remove:
  assumes "distinct (map fst cs)" "(raw, m) \<in> set cs"
  shows "fst ` set cs = insert raw (fst ` set (remove1 (raw, m) cs))"
    and "raw \<notin> fst ` set (remove1 (raw, m) cs)" "distinct (map fst (remove1 (raw, m) cs))"
proof -
  obtain ys zs where cs: "cs = ys @ (raw, m) # zs" "(raw, m) \<notin> set ys"
    using split_list_first [OF assms(2)] by blast
  then have rem: "remove1 (raw, m) cs = ys @ zs" by (simp add: remove1_append)
  show "fst ` set cs = insert raw (fst ` set (remove1 (raw, m) cs))"
    and "raw \<notin> fst ` set (remove1 (raw, m) cs)" "distinct (map fst (remove1 (raw, m) cs))"
    using assms(1) unfolding rem by (auto simp: cs(1))
qed

lemma shared_ok_insert:
  assumes "shared_ok s" "(raw, m) \<in> set (sq_calls s)"
  obtains q where "enqueue_insert (sq_queue s) raw m = Inr q"
    "shared_ok \<lparr>sq_queue = q, sq_calls = remove1 (raw, m) (sq_calls s)\<rparr>"
    "pending \<lparr>sq_queue = q, sq_calls = remove1 (raw, m) (sq_calls s)\<rparr> = add_mset m (pending s)"
    "mq_capacity q = mq_capacity (sq_queue s)"
proof -
  let ?cs = "remove1 (raw, m) (sq_calls s)"
  have d: "distinct (map fst (sq_calls s))" using assms(1) by (simp add: shared_ok_def)
  note left = held_blocks_remove [OF d assms(2)]
  have "mq_wf (sq_queue s) (insert raw (fst ` set ?cs))"
    using assms(1) left(1) by (simp add: shared_ok_def)
  from enqueue_insert_ok [OF this left(2), of m] obtain q where "enqueue_insert (sq_queue s) raw m = Inr q"
    "mq_wf q (fst ` set ?cs)" "mset (mq_contents q) =
       add_mset \<lparr>message = m, sequence_number = mq_sequence (sq_queue s)\<rparr> (mset (mq_contents (sq_queue s)))"
    "mq_reserved q = mq_reserved (sq_queue s)"
    by metis
  with left(3) show ?thesis by (intro that [of q]) (simp_all add: shared_ok_def pending_def mq_capacity_def)
qed

text \<open>The operations that hold the mutex throughout.\<close>

lemma shared_ok_take:
  assumes "shared_ok s" "mq_wf q (held_blocks s)" "mset (mq_contents (sq_queue s)) = add_mset n (mset (mq_contents q))"
  shows "shared_ok (s\<lparr>sq_queue := q\<rparr>)" "pending s = add_mset (message n) (pending (s\<lparr>sq_queue := q\<rparr>))"
  using assms by (simp_all add: shared_ok_def pending_def)

lemma dequeue_shared:
  assumes "shared_ok s"
  shows "\<exists>r. dequeue (sq_queue s) = Inr r"
    and "dequeue (sq_queue s) = Inr (Returns (r, q)) \<Longrightarrow>
      shared_ok (s\<lparr>sq_queue := q\<rparr>) \<and> mq_capacity q = mq_capacity (sq_queue s) \<and>
      pending s = (case r of None \<Rightarrow> {#} | Some m \<Rightarrow> {#m#}) + pending (s\<lparr>sq_queue := q\<rparr>)"
proof -
  from assms have wf: "mq_wf (sq_queue s) (held_blocks s)" by (simp add: shared_ok_def)
  have "(\<exists>r. dequeue (sq_queue s) = Inr r) \<and> (\<forall>r q. dequeue (sq_queue s) = Inr (Returns (r, q)) \<longrightarrow>
      shared_ok (s\<lparr>sq_queue := q\<rparr>) \<and> mq_capacity q = mq_capacity (sq_queue s) \<and>
      pending s = (case r of None \<Rightarrow> {#} | Some m \<Rightarrow> {#m#}) + pending (s\<lparr>sq_queue := q\<rparr>))"
  proof (cases "mq_queue (sq_queue s) = []")
    case True
    then show ?thesis
      using mq_wf_sequence [OF wf, of 0] assms
      by (auto simp: dequeue_empty shared_ok_def pending_def mq_contents_def mq_capacity_def)
  next
    case False
    from dequeue_ok [OF wf False] obtain n q' where q': "dequeue (sq_queue s) = Inr (Returns (Some (message n), q'))"
      "mq_wf q' (held_blocks s)" "mset (mq_contents (sq_queue s)) = add_mset n (mset (mq_contents q'))"
      "mq_reserved q' = mq_reserved (sq_queue s)"
      by metis
    with shared_ok_take [OF assms q'(2,3)] show ?thesis by (auto simp: mq_capacity_def)
  qed
  then show "\<exists>r. dequeue (sq_queue s) = Inr r"
    and "dequeue (sq_queue s) = Inr (Returns (r, q)) \<Longrightarrow>
      shared_ok (s\<lparr>sq_queue := q\<rparr>) \<and> mq_capacity q = mq_capacity (sq_queue s) \<and>
      pending s = (case r of None \<Rightarrow> {#} | Some m \<Rightarrow> {#m#}) + pending (s\<lparr>sq_queue := q\<rparr>)"
    by blast+
qed

lemma try_dequeue_shared:
  assumes "shared_ok s" "try_dequeue (sq_queue s) = Inr (r, q)"
  shows "shared_ok (s\<lparr>sq_queue := q\<rparr>) \<and> mq_capacity q = mq_capacity (sq_queue s) \<and>
    pending s = (case r of None \<Rightarrow> {#} | Some m \<Rightarrow> {#m#}) + pending (s\<lparr>sq_queue := q\<rparr>)"
proof (cases "mq_queue (sq_queue s) = []")
  case True
  with assms show ?thesis by (auto simp: try_dequeue_empty split: if_splits)
next
  case False
  from assms(1) have wf: "mq_wf (sq_queue s) (held_blocks s)" by (simp add: shared_ok_def)
  from try_dequeue_ok [OF wf False] obtain n q' where q': "try_dequeue (sq_queue s) = Inr (Some (message n), q')"
    "mq_wf q' (held_blocks s)" "mset (mq_contents (sq_queue s)) = add_mset n (mset (mq_contents q'))"
    "mq_reserved q' = mq_reserved (sq_queue s)"
    by metis
  with shared_ok_take [OF assms(1) q'(2,3)] assms(2) show ?thesis by (auto simp: mq_capacity_def)
qed

text \<open>One step keeps the invariant and the balance of the messages.\<close>

definition balanced :: "queue_event list \<Rightarrow> shared_queue \<Rightarrow> shared_queue \<Rightarrow> bool" where
  "balanced es s s' \<longleftrightarrow> shared_ok s' \<and> mq_capacity (sq_queue s') = mq_capacity (sq_queue s) \<and>
     pending s + inserted es = pending s' + taken es"

lemma queue_step_balanced:
  assumes "queue_step s es s'" "shared_ok s"
  shows "balanced es s s'"
  using assms(1)
proof cases
  case (step_alloc raw q m)
  with shared_ok_alloc [OF assms(2) step_alloc(3)] show ?thesis by (simp add: balanced_def)
next
  case (step_insert raw m q)
  obtain q' where "enqueue_insert (sq_queue s) raw m = Inr q'"
    "shared_ok \<lparr>sq_queue = q', sq_calls = remove1 (raw, m) (sq_calls s)\<rparr>"
    "pending \<lparr>sq_queue = q', sq_calls = remove1 (raw, m) (sq_calls s)\<rparr> = add_mset m (pending s)"
    "mq_capacity q' = mq_capacity (sq_queue s)"
    by (rule shared_ok_insert [OF assms(2) step_insert(3)])
  with step_insert show ?thesis by (simp add: balanced_def)
next
  case (step_dequeue r q)
  with dequeue_shared(2) [OF assms(2) step_dequeue(3)] show ?thesis
    by (cases r) (simp_all add: balanced_def)
next
  case (step_try_dequeue r q)
  with try_dequeue_shared [OF assms(2) step_try_dequeue(3)] show ?thesis
    by (cases r) (simp_all add: balanced_def)
next
  case step_notify_shutdown
  have "shared_ok (s\<lparr>sq_queue := notify_shutdown (sq_queue s)\<rparr>)"
    using assms(2) by (simp add: shared_ok_def mq_wf_notify_shutdown)
  moreover have "pending (s\<lparr>sq_queue := notify_shutdown (sq_queue s)\<rparr>) = pending s"
    "mq_capacity (notify_shutdown (sq_queue s)) = mq_capacity (sq_queue s)"
    by (simp_all add: pending_def mq_contents_def mq_capacity_def notify_shutdown_def)
  ultimately show ?thesis using step_notify_shutdown by (simp add: balanced_def)
qed

lemma queue_run_balanced:
  assumes "queue_run s es s'" "shared_ok s"
  shows "balanced es s s'"
  using assms
proof (induction rule: queue_run.induct)
  case (run_refl s)
  then show ?case by (simp add: balanced_def)
next
  case (run_step s es s' es' s'')
  then have "balanced es s s'" by simp
  moreover have "balanced es' s' s''"
    using run_step queue_step_balanced by (simp add: balanced_def)
  ultimately show ?case
    by (simp add: balanced_def) (metis (no_types, lifting) add.assoc add.commute)
qed

lemma pending_eq: "pending s = mset (pending_msgs (sq_queue s))"
  by (simp add: pending_def pending_msgs_def)

lemma enqueue_alloc_fails_iff:
  assumes "mq_wf q H"
  shows "(\<exists>e. enqueue_alloc q = Inl e) \<longleftrightarrow> length (mq_queue q) + card H = mq_capacity q"
proof (cases "length (mq_queue q) + card H < mq_capacity q")
  case True
  obtain raw p where "enqueue_alloc q = Inr (raw, q\<lparr>mq_pool := p\<rparr>)" by (rule enqueue_alloc_ok [OF assms True])
  with True show ?thesis by simp
next
  case False
  with mq_wf_bound [OF assms] enqueue_alloc_full [OF assms] show ?thesis by auto
qed

section \<open>Properties of the shared queue\<close>

text \<open>C9: A queue that several threads use at once, from its construction over aligned blocks that
  can hold a node on: in every interleaving
  of the two halves of \<open>enqueue\<close> calls with each other and with the other operations, the blocks of
  the calls in progress are distinct and none of them holds a pending message, every call that has
  its block can complete, \<open>dequeue\<close> never fails, a block is refused exactly when the pending messages
  and the calls in progress use up the capacity, and no message is lost or duplicated: what was
  inserted is what was taken and what is still pending.\<close>

theorem concurrent_queue_safe:
  assumes "pool_area base msg_size max_msgs" "node_size \<le> unat msg_size"
    and "MessageQueue_new base msg_size max_msgs = Inr q"
    and "queue_run \<lparr>sq_queue = q, sq_calls = []\<rparr> es s"
  shows "distinct (map fst (sq_calls s)) \<and> held_blocks s \<inter> set (mq_queue (sq_queue s)) = {} \<and>
    (\<forall>(raw, m) \<in> set (sq_calls s). \<exists>q'. enqueue_insert (sq_queue s) raw m = Inr q') \<and>
    (\<exists>r. dequeue (sq_queue s) = Inr r) \<and>
    ((\<exists>e. enqueue_alloc (sq_queue s) = Inl e) \<longleftrightarrow>
       length (mq_queue (sq_queue s)) + length (sq_calls s) = unat max_msgs) \<and>
    inserted es = taken es + mset (pending_msgs (sq_queue s))"
proof -
  let ?init = "\<lparr>sq_queue = q, sq_calls = []\<rparr>"
  obtain q' where "MessageQueue_new base msg_size max_msgs = Inr q'" "mq_wf q' {}" "mq_queue q' = []"
    "mq_capacity q' = unat max_msgs"
    using MessageQueue_new_wf [OF assms(1,2)] by blast
  with assms(3) have q: "mq_wf q {}" "mq_queue q = []" "mq_capacity q = unat max_msgs" by auto
  then have "shared_ok ?init" by (simp add: shared_ok_def)
  from queue_run_balanced [OF assms(4) this] have bal: "balanced es ?init s" .
  then have ok: "shared_ok s" and cap: "mq_capacity (sq_queue s) = unat max_msgs"
    and total: "pending ?init + inserted es = pending s + taken es"
    using q(3) by (simp_all add: balanced_def)
  have "pending ?init = {#}" using q(2) by (simp add: pending_def mq_contents_def)
  with total have "inserted es = taken es + mset (pending_msgs (sq_queue s))"
    by (simp add: pending_eq [of s] add.commute)
  moreover from ok have wf: "mq_wf (sq_queue s) (held_blocks s)" and d: "distinct (map fst (sq_calls s))"
    by (simp_all add: shared_ok_def)
  have "card (held_blocks s) = length (sq_calls s)" using distinct_card [OF d] by simp
  with enqueue_alloc_fails_iff [OF wf] cap
  have alloc: "(\<exists>e. enqueue_alloc (sq_queue s) = Inl e) \<longleftrightarrow>
      length (mq_queue (sq_queue s)) + length (sq_calls s) = unat max_msgs" by simp
  have "\<exists>q'. enqueue_insert (sq_queue s) raw m = Inr q'" if "(raw, m) \<in> set (sq_calls s)" for raw m
    by (rule shared_ok_insert [OF ok that]) blast
  then have "\<forall>(raw, m) \<in> set (sq_calls s). \<exists>q'. enqueue_insert (sq_queue s) raw m = Inr q'" by auto
  moreover have "held_blocks s \<inter> set (mq_queue (sq_queue s)) = {}" using wf unfolding mq_wf_def by blast
  ultimately show ?thesis using d alloc dequeue_shared(1) [OF ok] by (intro conjI)
qed

theorem concurrent_queue_safe_witness:
  "\<exists>q es s m. MessageQueue_new 4096 56 2 = Inr q \<and> queue_run \<lparr>sq_queue = q, sq_calls = []\<rparr> es s \<and>
     length (sq_calls s) = 2 \<and> (\<exists>e. enqueue_alloc (sq_queue s) = Inl e) \<and>
     (\<forall>(raw, m) \<in> set (sq_calls s). \<exists>q'. enqueue_insert (sq_queue s) raw m = Inr q')"
proof -
  have area: "pool_area 4096 56 2" "node_size \<le> unat (56 :: size_t)" by (simp_all add: pool_area_def ptr_aligned_def node_size_eq)
  obtain q where q: "MessageQueue_new 4096 56 2 = Inr q" "mq_wf q {}" "mq_queue q = []" "mq_capacity q = unat (2 :: size_t)"
    using MessageQueue_new_wf [OF area] by blast
  let ?init = "\<lparr>sq_queue = q, sq_calls = []\<rparr>"
  obtain raw p where one: "enqueue_alloc q = Inr (raw, q\<lparr>mq_pool := p\<rparr>)" "mq_wf (q\<lparr>mq_pool := p\<rparr>) {raw}"
    by (rule enqueue_alloc_ok [OF q(2)]) (use q(3,4) in auto)
  let ?q1 = "q\<lparr>mq_pool := p\<rparr>"
  have cap: "mq_capacity ?q1 = mq_capacity q" by (simp add: mq_capacity_def)
  obtain raw' p' where two: "enqueue_alloc ?q1 = Inr (raw', ?q1\<lparr>mq_pool := p'\<rparr>)"
    by (rule enqueue_alloc_ok [OF one(2)]) (use q(3,4) cap in auto)
  let ?m = "example_msg (StateMsg 2)"
  let ?s1 = "\<lparr>sq_queue = ?q1, sq_calls = [(raw, ?m)]\<rparr>"
  let ?s2 = "\<lparr>sq_queue = ?q1\<lparr>mq_pool := p'\<rparr>, sq_calls = [(raw', ?m), (raw, ?m)]\<rparr>"
  have s1: "queue_step ?init [] ?s1" using step_alloc [of ?init raw ?q1 ?m] one(1) by simp
  have s2: "queue_step ?s1 [] ?s2" using step_alloc [of ?s1 raw' _ ?m] two by simp
  have run: "queue_run ?init [] ?s2" using run_step [OF run_step [OF run_refl s1] s2] by simp
  from concurrent_queue_safe [OF area q(1) run] q run show ?thesis
    by (intro exI [of _ q] exI [of _ "[]"] exI [of _ ?s2]) auto
qed

end
