(* ===== verification/Queue_Order.thy ===== *)
theory Queue_Order
  imports Message_Queue
begin

text \<open>
  The queue as a sorting algorithm: messages that are put in and taken out again come in the order
  of a stable sort by descending priority. The reference is the library's \<open>sort_key\<close>.
\<close>

section \<open>Insertion behind equal priorities is stable\<close>

text \<open>The key of the sort: the highest priority is the least.\<close>

definition urgency :: "Msg \<Rightarrow> int" where
  "urgency m = - uint (msg_priority m)"

lemma urgency_le_iff: "urgency m \<le> urgency x \<longleftrightarrow> msg_priority x \<le> msg_priority m"
  by (simp add: urgency_def word_le_def)

lemma pq_insert_simps [simp]:
  "pq_insert m [] = [m]"
  "pq_insert m (x # xs) = (if urgency x \<le> urgency m then x # pq_insert m xs else m # x # xs)"
  by (simp_all add: pq_insert_def urgency_le_iff)

lemma mset_pq_insert: "mset (pq_insert m ms) = add_mset m (mset ms)"
  by (induction ms) simp_all

lemma sorted_pq_insert: "sorted (map urgency ms) \<Longrightarrow> sorted (map urgency (pq_insert m ms))"
  by (induction ms) (auto simp: set_pq_insert)

lemma filter_pq_insert:
  "sorted (map urgency ms) \<Longrightarrow>
     filter (\<lambda>x. urgency k = urgency x) (pq_insert m ms) =
       filter (\<lambda>x. urgency k = urgency x) ms @ (if urgency k = urgency m then [m] else [])"
proof (induction ms)
  case (Cons x xs)
  show ?case
  proof (cases "urgency x \<le> urgency m")
    case True
    with Cons show ?thesis by auto
  next
    case False
    then have "urgency m < urgency y" if "y \<in> set (x # xs)" for y using that Cons.prems by auto
    then have "filter (\<lambda>y. urgency m = urgency y) (x # xs) = []" by (fastforce simp: filter_empty_conv)
    with False show ?thesis by (cases "urgency k = urgency m") simp_all
  qed
qed simp

lemma fold_pq_insert:
  "sorted (map urgency acc) \<Longrightarrow>
     sorted (map urgency (fold pq_insert ms acc)) \<and> mset (fold pq_insert ms acc) = mset acc + mset ms \<and>
     (\<forall>k. filter (\<lambda>x. urgency k = urgency x) (fold pq_insert ms acc) =
        filter (\<lambda>x. urgency k = urgency x) acc @ filter (\<lambda>x. urgency k = urgency x) ms)"
proof (induction ms arbitrary: acc)
  case (Cons m ms)
  from Cons.IH [OF sorted_pq_insert [OF Cons.prems], of m] show ?case
    by (simp add: mset_pq_insert filter_pq_insert [OF Cons.prems])
qed simp

lemma fold_pq_insert_sort: "fold pq_insert ms [] = sort_key urgency ms"
  using fold_pq_insert [of "[]" ms] by (intro properties_for_sort_key [symmetric]) simp_all

section \<open>Filling and draining a queue\<close>

lemma fill_and_drain:
  assumes "mq_good (length ms) q" "pending_msgs q = []" "length ms \<le> mq_capacity q"
  shows "\<exists>q1 q2. post_all enqueue ms q = Inr q1 \<and>
    take_msgs dequeue (length ms) q1 = Inr (sort_key urgency ms, q2) \<and> pending_msgs q2 = [] \<and> mq_good 0 q2"
proof -
  from assms have "mq_good (length ms + 0) q" "length (pending_msgs q) + length ms \<le> mq_capacity q"
    by (simp_all del: length_pending_msgs)
  from mq.post_all_ok [OF this length_pq_insert] obtain q1 where q1: "post_all enqueue ms q = Inr q1" "mq_good 0 q1"
    "pending_msgs q1 = sort_key urgency ms"
    using assms(2) by (auto simp: fold_pq_insert_sort)
  have len: "length ms = length (pending_msgs q1)" unfolding q1(3) by simp
  from mq_reader.take_msgs_ok [OF q1(2), of "length ms"] q1 show ?thesis
    unfolding len by (auto simp del: length_pending_msgs)
qed

text \<open>C2: The queue sorts stably: any messages, at most as many as the queue has blocks, that are put
  into a fresh queue, with aligned blocks that can hold a node, and then taken out by \<open>dequeue\<close> come out as the stable sort of the list by
  descending priority, and the queue is empty again. The binary heap over pool blocks and the
  32-bit sequence numbers thus compute the same function as the library's insertion sort.\<close>

theorem queue_sorts_stably:
  assumes "pool_area base msg_size max_msgs" "node_size \<le> unat msg_size"
    and "length ms \<le> unat max_msgs" "length ms < 2 ^ 32"
  shows "\<exists>q q1 q2. MessageQueue_new base msg_size max_msgs = Inr q \<and> post_all enqueue ms q = Inr q1 \<and>
    take_msgs dequeue (length ms) q1 = Inr (sort_key (\<lambda>m. - uint (msg_priority m)) ms, q2) \<and> mq_is_empty q2"
proof -
  obtain q where q: "MessageQueue_new base msg_size max_msgs = Inr q" "mq_wf q {}"
    "mq_queue q = []" "mq_sequence q = 0" "mq_capacity q = unat max_msgs"
    using MessageQueue_new_wf [OF assms(1,2)] by blast
  have "mq_good (length ms) q" "pending_msgs q = []" "length ms \<le> mq_capacity q"
    using q assms(3,4) by (simp_all add: mq_good_def fifo_ok_def mq_contents_def pending_msgs_def)
  from fill_and_drain [OF this] q(1) show ?thesis
    by (auto simp: urgency_def [abs_def] mq_is_empty_def pending_msgs_empty_iff)
qed

theorem queue_sorts_stably_witness:
  "\<exists>q q1 q2. MessageQueue_new 4096 64 3 = Inr q \<and>
     post_all enqueue [example_msg (StateAckMsg 1), example_msg (StateMsg 2), example_msg (StateAckMsg 3)] q = Inr q1 \<and>
     take_msgs dequeue 3 q1 =
       Inr ([example_msg (StateMsg 2), example_msg (StateAckMsg 1), example_msg (StateAckMsg 3)], q2)"
proof -
  let ?ms = "[example_msg (StateAckMsg 1), example_msg (StateMsg 2), example_msg (StateAckMsg 3)]"
  have "pool_area 4096 64 3" "node_size \<le> unat (64 :: size_t)" "length ?ms \<le> unat (3 :: size_t)" "length ?ms < 2 ^ 32"
    by (simp_all add: pool_area_def ptr_aligned_def node_size_eq)
  from queue_sorts_stably [OF this] obtain q q1 q2 where "MessageQueue_new 4096 64 3 = Inr q" "post_all enqueue ?ms q = Inr q1"
    "take_msgs dequeue (length ?ms) q1 = Inr (sort_key (\<lambda>m. - uint (msg_priority m)) ?ms, q2)" by blast
  moreover have "sort_key (\<lambda>m. - uint (msg_priority m)) ?ms =
      [example_msg (StateMsg 2), example_msg (StateAckMsg 1), example_msg (StateAckMsg 3)]"
    by (simp add: example_msg_def message_priorities_def)
  moreover have "length ?ms = 3" by simp
  ultimately show ?thesis by metis
qed

end
