(* ===== verification/Locks.thy ===== *)
theory Locks
  imports Prelude
begin

text \<open>
  The mutexes of the framework: in which order each operation takes them, that the orders agree but
  for one operation, so that threads running the others cannot block each other forever, and the
  run in which two threads do wait on each other forever: the lock order inversion between
  registration and the timeout check.
\<close>

section \<open>Threads and locks\<close>

text \<open>\<open>QueueMutex\<close> and \<open>PoolMutex\<close> belong to the queue of the task at that address and to its pool.\<close>

datatype mutex =
    StateMutex
  | TasksMutex
  | SubMutex
  | QueueMutex ptr
  | PoolMutex ptr
  | LoggerMutex
  | SinkMutex nat

datatype action = Acquire mutex | Release mutex

text \<open>A thread: the mutexes it holds, the last acquired first, and the actions before it.\<close>

type_synonym lock_thread = "mutex list \<times> action list"

text \<open>A mutex is acquired when no thread holds it, the acquiring one included.\<close>

inductive lock_step :: "lock_thread list \<Rightarrow> lock_thread list \<Rightarrow> bool" where
  step_acquire: "i < length ts \<Longrightarrow> ts ! i = (held, Acquire m # prog) \<Longrightarrow> \<forall>t \<in> set ts. m \<notin> set (fst t) \<Longrightarrow>
     lock_step ts (ts[i := (m # held, prog)])"
| step_release: "i < length ts \<Longrightarrow> ts ! i = (held, Release m # prog) \<Longrightarrow> m \<in> set held \<Longrightarrow>
     lock_step ts (ts[i := (remove1 m held, prog)])"

inductive_cases lock_stepE: "lock_step ts ts'"

definition finished :: "lock_thread list \<Rightarrow> bool" where
  "finished ts \<longleftrightarrow> (\<forall>t \<in> set ts. snd t = [])"

definition deadlocked :: "lock_thread list \<Rightarrow> bool" where
  "deadlocked ts \<longleftrightarrow> \<not> finished ts \<and> (\<nexists>ts'. lock_step ts ts')"

section \<open>The locks that the operations take\<close>

text \<open>A \<^verbatim>\<open>lock_guard\<close> around a block.\<close>

definition guarded :: "mutex \<Rightarrow> action list \<Rightarrow> action list" where
  "guarded m body = Acquire m # body @ [Release m]"

text \<open>
  The branches that an operation takes are arguments: \<open>accepted\<close> whether the entry passes the level
  of the logger, \<open>waits\<close> how often a wait finds its condition false, when it releases the mutex and
  acquires it again.
\<close>

definition log_locks :: "bool \<Rightarrow> action list" where
  "log_locks accepted = (if accepted then guarded LoggerMutex [] else [])"

definition worker_locks :: "nat \<Rightarrow> nat list \<Rightarrow> action list" where
  "worker_locks waits sinks = concat (replicate waits (guarded LoggerMutex [])) @ guarded LoggerMutex [] @
     concat (map (\<lambda>s. guarded (SinkMutex s) []) sinks)"

definition enqueue_locks :: "ptr \<Rightarrow> action list" where
  "enqueue_locks q = guarded (PoolMutex q) [] @ guarded (QueueMutex q) []"

definition dequeue_locks :: "ptr \<Rightarrow> nat \<Rightarrow> bool \<Rightarrow> action list" where
  "dequeue_locks q waits found = concat (replicate waits (guarded (QueueMutex q) [])) @
     guarded (QueueMutex q) (if found then guarded (PoolMutex q) [] else [])"

definition deliver_locks :: "bool \<Rightarrow> ptr \<Rightarrow> action list" where
  "deliver_locks accepted target = log_locks accepted @ enqueue_locks target"

definition publish_locks :: "bool \<Rightarrow> ptr list \<Rightarrow> action list" where
  "publish_locks accepted subscribers = guarded SubMutex (concat (map (deliver_locks accepted) subscribers))"

definition subscribe_locks :: "action list" where
  "subscribe_locks = guarded SubMutex []"

definition transition_locks :: "bool \<Rightarrow> bool \<Rightarrow> ptr list \<Rightarrow> action list" where
  "transition_locks accepted traffic subscribers = log_locks accepted @ publish_locks traffic subscribers"

definition notify_task_registered_locks :: "bool \<Rightarrow> action list" where
  "notify_task_registered_locks is_self = (if is_self then [] else guarded TasksMutex [])"

definition register_task_locks :: "bool \<Rightarrow> bool \<Rightarrow> action list" where
  "register_task_locks has_observer is_self =
     guarded StateMutex (if has_observer then notify_task_registered_locks is_self else [])"

definition demand_locks :: "bool \<Rightarrow> bool \<Rightarrow> bool \<Rightarrow> ptr list \<Rightarrow> nat \<Rightarrow> nat \<Rightarrow> action list" where
  "demand_locks accepted traffic errors subscribers waits reports =
     log_locks accepted @ guarded StateMutex [] @ transition_locks accepted traffic subscribers @
     concat (replicate waits (guarded StateMutex [])) @
     guarded StateMutex (concat (replicate reports (log_locks errors)))"

definition mark_locks :: "bool \<Rightarrow> bool \<Rightarrow> ptr \<Rightarrow> action list" where
  "mark_locks errors traffic task = log_locks errors @ deliver_locks traffic task @ guarded StateMutex []"

definition check_for_timeouts_locks :: "bool \<Rightarrow> bool \<Rightarrow> bool \<Rightarrow> ptr list \<Rightarrow> action list" where
  "check_for_timeouts_locks warnings errors traffic late_tasks =
     guarded TasksMutex (concat (map (\<lambda>a. log_locks warnings @ mark_locks errors traffic a) late_tasks))"

definition send_heartbeat_locks :: "bool \<Rightarrow> ptr list \<Rightarrow> action list" where
  "send_heartbeat_locks traffic targets = guarded TasksMutex (concat (map (deliver_locks traffic) targets))"

definition heartbeat_ack_locks :: "bool \<Rightarrow> action list" where
  "heartbeat_ack_locks logged = guarded TasksMutex (log_locks logged)"

section \<open>Ordered programs\<close>

text \<open>
  A program is ordered when it acquires only mutexes of higher rank than those it holds, releases
  what it holds, and ends with nothing.
\<close>

fun rank :: "mutex \<Rightarrow> nat" where
  "rank StateMutex = 0"
| "rank TasksMutex = 1"
| "rank SubMutex = 2"
| "rank (QueueMutex q) = 3"
| "rank (PoolMutex q) = 4"
| "rank LoggerMutex = 5"
| "rank (SinkMutex s) = 6"

fun held_after :: "mutex list \<Rightarrow> action list \<Rightarrow> mutex list option" where
  "held_after held [] = Some held"
| "held_after held (Acquire m # prog) =
     (if \<forall>h \<in> set held. rank h < rank m then held_after (m # held) prog else None)"
| "held_after held (Release m # prog) =
     (if m \<in> set held then held_after (remove1 m held) prog else None)"

definition ordered :: "lock_thread \<Rightarrow> bool" where
  "ordered t \<longleftrightarrow> held_after (fst t) (snd t) = Some []"

lemma ordered_simps [simp]:
  "ordered (held, []) \<longleftrightarrow> held = []"
  "ordered (held, Acquire m # prog) \<longleftrightarrow> (\<forall>h \<in> set held. rank h < rank m) \<and> ordered (m # held, prog)"
  "ordered (held, Release m # prog) \<longleftrightarrow> m \<in> set held \<and> ordered (remove1 m held, prog)"
  by (auto simp: ordered_def)

definition locks_ok :: "lock_thread list \<Rightarrow> bool" where
  "locks_ok ts \<longleftrightarrow> (\<forall>t \<in> set ts. ordered t)"

lemma locks_ok_nth: "locks_ok ts \<Longrightarrow> i < length ts \<Longrightarrow> ordered (ts ! i)"
  by (simp add: locks_ok_def)

lemma locks_ok_update: "locks_ok ts \<Longrightarrow> ordered t \<Longrightarrow> locks_ok (ts[i := t])"
  by (auto simp: locks_ok_def dest!: subsetD [OF set_update_subset_insert])

lemma locks_ok_step:
  assumes "lock_step ts ts'" "locks_ok ts"
  shows "locks_ok ts'"
  using assms(1)
proof cases
  case (step_acquire i held m prog)
  then show ?thesis using locks_ok_nth [OF assms(2), of i] by (auto intro: locks_ok_update [OF assms(2)])
next
  case (step_release i held m prog)
  then show ?thesis using locks_ok_nth [OF assms(2), of i] by (auto intro: locks_ok_update [OF assms(2)])
qed

text \<open>Each step uses up one action.\<close>

definition actions_left :: "lock_thread list \<Rightarrow> nat" where
  "actions_left ts = sum_list (map (\<lambda>t. length (snd t)) ts)"

lemma actions_left_step: "lock_step ts ts' \<Longrightarrow> actions_left ts = Suc (actions_left ts')"
proof (elim lock_stepE)
  fix i held m prog
  assume i: "i < length ts" "ts ! i = (held, Acquire m # prog)" "ts' = ts[i := (m # held, prog)]"
  then show ?thesis
    using elem_le_sum_list [of i "map (\<lambda>t. length (snd t)) ts"]
    by (simp add: actions_left_def map_update sum_list_update)
next
  fix i held m prog
  assume i: "i < length ts" "ts ! i = (held, Release m # prog)" "ts' = ts[i := (remove1 m held, prog)]"
  then show ?thesis
    using elem_le_sum_list [of i "map (\<lambda>t. length (snd t)) ts"]
    by (simp add: actions_left_def map_update sum_list_update)
qed

text \<open>The waiting thread that wants the mutex of the highest rank can always go on.\<close>

lemma locks_ok_progress:
  assumes ok: "locks_ok ts" and busy: "\<not> finished ts"
  shows "\<exists>ts'. lock_step ts ts'"
proof (cases "\<exists>t \<in> set ts. \<exists>m prog. snd t = Release m # prog")
  case True
  then obtain t m prog where t: "t \<in> set ts" "snd t = Release m # prog" by blast
  then obtain i where i: "i < length ts" "ts ! i = (fst t, Release m # prog)"
    by (metis in_set_conv_nth prod.collapse)
  then have "m \<in> set (fst t)" using locks_ok_nth [OF ok i(1)] by simp
  with i show ?thesis by (blast intro: step_release)
next
  case False
  define wanted where "wanted = {m. \<exists>t \<in> set ts. \<exists>prog. snd t = Acquire m # prog}"
  have acq: "\<exists>m prog. snd t = Acquire m # prog" if "t \<in> set ts" "snd t \<noteq> []" for t
    using False that by (cases "snd t"; cases "hd (snd t)") auto
  have "wanted \<subseteq> (\<lambda>t. case hd (snd t) of Acquire m \<Rightarrow> m | Release m \<Rightarrow> m) ` set ts"
    by (force simp: wanted_def)
  then have "finite wanted" by (rule finite_surj [OF finite_set])
  moreover obtain u where u: "u \<in> set ts" "snd u \<noteq> []" using busy by (auto simp: finished_def)
  then have "wanted \<noteq> {}" using acq [OF u] by (auto simp: wanted_def)
  ultimately have "Max (rank ` wanted) \<in> rank ` wanted" by (intro Max_in) simp_all
  then obtain m where m: "m \<in> wanted" "rank m = Max (rank ` wanted)" by auto
  then obtain t prog where t: "t \<in> set ts" "snd t = Acquire m # prog" by (auto simp: wanted_def)
  then obtain i where i: "i < length ts" "ts ! i = (fst t, Acquire m # prog)"
    by (metis in_set_conv_nth prod.collapse)
  have "m \<notin> set (fst t)" if t: "t \<in> set ts" for t
  proof
    assume held: "m \<in> set (fst t)"
    have ord: "ordered t" using ok t by (simp add: locks_ok_def)
    with held have "snd t \<noteq> []" by (cases t) auto
    with acq [OF t] obtain m' prog' where m': "snd t = Acquire m' # prog'" by blast
    with ord held have "rank m < rank m'" by (cases t) auto
    moreover have "m' \<in> wanted" using t m' by (auto simp: wanted_def)
    then have "rank m' \<le> Max (rank ` wanted)" using \<open>finite wanted\<close> by (intro Max_ge) simp_all
    ultimately show False using m(2) by simp
  qed
  with i show ?thesis by (blast intro: step_acquire)
qed

section \<open>The operations are ordered\<close>

lemma held_after_append: "held_after held (p @ q) = Option.bind (held_after held p) (\<lambda>h. held_after h q)"
  by (induction held p rule: held_after.induct) simp_all

lemma held_after_appendI:
  "held_after held p = Some held \<Longrightarrow> held_after held q = Some held \<Longrightarrow> held_after held (p @ q) = Some held"
  by (simp add: held_after_append)

lemma held_after_guarded:
  "\<forall>h \<in> set held. rank h < rank m \<Longrightarrow> held_after (m # held) body = Some (m # held) \<Longrightarrow>
     held_after held (guarded m body) = Some held"
  by (simp add: guarded_def held_after_append)

lemma held_after_concat:
  "\<forall>p \<in> set ps. held_after held p = Some held \<Longrightarrow> held_after held (concat ps) = Some held"
  by (induction ps) (simp_all add: held_after_append)

lemma held_after_log [simp]: "\<forall>h \<in> set held. rank h < 5 \<Longrightarrow> held_after held (log_locks b) = Some held"
  by (simp add: log_locks_def held_after_guarded)

lemma held_after_enqueue [simp]:
  "\<forall>h \<in> set held. rank h < 3 \<Longrightarrow> held_after held (enqueue_locks q) = Some held"
  unfolding enqueue_locks_def by (intro held_after_appendI held_after_guarded) force+

lemma held_after_deliver [simp]:
  "\<forall>h \<in> set held. rank h < 3 \<Longrightarrow> held_after held (deliver_locks b q) = Some held"
  unfolding deliver_locks_def by (intro held_after_appendI held_after_log held_after_enqueue) force+

text \<open>The calls of a thread of the framework, but the timeout check when it finds a late task.\<close>

inductive ordered_call :: "action list \<Rightarrow> bool" where
  "ordered_call (log_locks accepted)"
| "ordered_call (worker_locks waits sinks)"
| "ordered_call (enqueue_locks q)"
| "ordered_call (dequeue_locks q waits found)"
| "ordered_call (deliver_locks accepted q)"
| "ordered_call (publish_locks accepted subscribers)"
| "ordered_call subscribe_locks"
| "ordered_call (transition_locks accepted traffic subscribers)"
| "ordered_call (notify_task_registered_locks is_self)"
| "ordered_call (register_task_locks has_observer is_self)"
| "ordered_call (demand_locks accepted traffic errors subscribers waits reports)"
| "ordered_call (mark_locks errors traffic task)"
| "ordered_call (check_for_timeouts_locks warnings errors traffic [])"
| "ordered_call (send_heartbeat_locks traffic targets)"
| "ordered_call (heartbeat_ack_locks logged)"

lemma ordered_call_held: "ordered_call p \<Longrightarrow> held_after [] p = Some []"
  by (induction rule: ordered_call.induct)
    (auto simp: worker_locks_def dequeue_locks_def publish_locks_def subscribe_locks_def transition_locks_def
      notify_task_registered_locks_def register_task_locks_def demand_locks_def mark_locks_def
      check_for_timeouts_locks_def send_heartbeat_locks_def heartbeat_ack_locks_def
      intro!: held_after_appendI held_after_guarded held_after_concat)

lemma ordered_calls: "\<forall>p \<in> set calls. ordered_call p \<Longrightarrow> ordered ([], concat calls)"
  by (simp add: ordered_def held_after_concat ordered_call_held)

lemma locks_ok_steps: "lock_step\<^sup>*\<^sup>* ts ts' \<Longrightarrow> locks_ok ts \<Longrightarrow> locks_ok ts'"
  by (induction rule: rtranclp_induct) (auto intro: locks_ok_step)

lemma locks_ok_finishes: "locks_ok ts \<Longrightarrow> \<exists>ts'. lock_step\<^sup>*\<^sup>* ts ts' \<and> finished ts'"
proof (induction "actions_left ts" arbitrary: ts rule: less_induct)
  case less
  show ?case
  proof (cases "finished ts")
    case False
    then obtain ts1 where step: "lock_step ts ts1" using locks_ok_progress [OF less.prems] by blast
    then have "actions_left ts1 < actions_left ts" using actions_left_step by simp
    with less.hyps locks_ok_step [OF step less.prems] step show ?thesis
      by (meson converse_rtranclp_into_rtranclp)
  qed blast
qed

section \<open>Running a schedule\<close>

text \<open>The threads at the given positions take one step each.\<close>

fun exec_locks :: "nat list \<Rightarrow> lock_thread list \<Rightarrow> lock_thread list option" where
  "exec_locks [] ts = Some ts"
| "exec_locks (i # is) ts =
     (if i < length ts
      then (case ts ! i of
              (held, Acquire m # prog) \<Rightarrow>
                if list_all (\<lambda>t. m \<notin> set (fst t)) ts then exec_locks is (ts[i := (m # held, prog)]) else None
            | (held, Release m # prog) \<Rightarrow>
                if m \<in> set held then exec_locks is (ts[i := (remove1 m held, prog)]) else None
            | _ \<Rightarrow> None)
      else None)"

lemma exec_locks_steps: "exec_locks is ts = Some ts' \<Longrightarrow> lock_step\<^sup>*\<^sup>* ts ts'"
proof (induction "is" arbitrary: ts)
  case (Cons i "is")
  then have "\<exists>ts1. lock_step ts ts1 \<and> exec_locks is ts1 = Some ts'"
    by (auto simp: list_all_iff split: if_splits prod.splits list.splits action.splits
        intro: step_acquire step_release)
  with Cons.IH show ?case by (blast intro: converse_rtranclp_into_rtranclp)
qed simp

section \<open>Properties of the locks\<close>

text \<open>C10: Threads that run the operations of the framework, in any number and any order, cannot
  deadlock on its mutexes, as long as no timeout check finds a late task: in every reachable state
  in which some thread is not finished some thread can go on, and all threads can run to their end.
  The reason is one order of the mutexes that all these operations respect: the state mutex, the
  mutex of the heartbeat task, that of the broker, of a queue, of its pool, of the logger, of a
  sink.\<close>

theorem ordered_calls_deadlock_free:
  assumes "\<forall>calls \<in> set programs. \<forall>p \<in> set calls. ordered_call p"
    and "lock_step\<^sup>*\<^sup>* (map (\<lambda>calls. ([], concat calls)) programs) ts"
  shows "\<not> deadlocked ts \<and> (\<exists>ts'. lock_step\<^sup>*\<^sup>* ts ts' \<and> finished ts')"
proof -
  have "locks_ok (map (\<lambda>calls. ([], concat calls)) programs)"
    using assms(1) ordered_calls by (auto simp: locks_ok_def)
  then have "locks_ok ts" by (rule locks_ok_steps [OF assms(2)])
  with locks_ok_progress locks_ok_finishes show ?thesis by (auto simp: deadlocked_def)
qed

theorem ordered_calls_deadlock_free_witness:
  "\<exists>ts. lock_step\<^sup>*\<^sup>* [([], register_task_locks True False), ([], send_heartbeat_locks False [8])] ts \<and>
     ts ! 0 = ([StateMutex], Acquire TasksMutex # [Release TasksMutex, Release StateMutex]) \<and> \<not> deadlocked ts"
proof -
  let ?calls = "[[register_task_locks True False], [send_heartbeat_locks False [8]]]"
  let ?ts = "[([StateMutex], Acquire TasksMutex # [Release TasksMutex, Release StateMutex]), ([], send_heartbeat_locks False [8])]"
  have "exec_locks [0] (map (\<lambda>calls. ([], concat calls)) ?calls) = Some ?ts"
    by (simp add: register_task_locks_def notify_task_registered_locks_def guarded_def)
  then have run: "lock_step\<^sup>*\<^sup>* (map (\<lambda>calls. ([], concat calls)) ?calls) ?ts" by (rule exec_locks_steps)
  have "\<forall>calls \<in> set ?calls. \<forall>p \<in> set calls. ordered_call p" by (auto intro: ordered_call.intros)
  from ordered_calls_deadlock_free [OF this run] run show ?thesis by (intro exI [of _ ?ts]) auto
qed

text \<open>C32: The lock order inversion: a thread that registers a task holds the state mutex and waits
  for the mutex of the heartbeat task, while the periodic thread of the heartbeat task holds that
  mutex in its timeout check and waits for the state mutex to mark a late task. Both wait forever,
  whatever the logger accepts.\<close>

theorem registration_deadlocks_with_timeout_check:
  "\<exists>ts. lock_step\<^sup>*\<^sup>* [([], register_task_locks True False), ([], check_for_timeouts_locks warnings errors traffic [a])] ts \<and>
     deadlocked ts"
proof -
  let ?n = "5 + (if warnings then 2 else 0) + (if errors then 2 else 0) + (if traffic then 2 else 0)"
  let ?ts = "[([StateMutex], [Acquire TasksMutex, Release TasksMutex, Release StateMutex]),
    ([TasksMutex], [Acquire StateMutex, Release StateMutex, Release TasksMutex])]"
  let ?start = "[([], register_task_locks True False), ([], check_for_timeouts_locks warnings errors traffic [a])]"
  have "exec_locks (0 # replicate ?n 1) ?start = Some ?ts"
    by (cases warnings; cases errors; cases traffic)
      (simp_all add: register_task_locks_def notify_task_registered_locks_def check_for_timeouts_locks_def
        mark_locks_def deliver_locks_def enqueue_locks_def log_locks_def guarded_def numeral_eq_Suc)
  then have "lock_step\<^sup>*\<^sup>* ?start ?ts" by (rule exec_locks_steps)
  moreover have "\<not> lock_step ?ts ts'" for ts'
    by (auto elim!: lock_stepE simp: less_Suc_eq)
  then have "deadlocked ?ts" by (simp add: deadlocked_def finished_def)
  ultimately show ?thesis by blast
qed

end
