(* ===== verification/Races.thy ===== *)
theory Races
  imports Locks
begin

text \<open>
  The accesses that the operations make to the shared members, between the mutexes that they take:
  which calls are free of data races under which use, and which pairs of calls are not. A data race
  is what C++ means by it: two conflicting accesses of different threads, neither of which happens
  before the other.
\<close>

section \<open>Accesses and runs\<close>

text \<open>
  The shared members that are not atomic. \<open>TaskKeys\<close> are the nodes of \<^verbatim>\<open>task_states\<close> with their keys
  and \<open>TaskValues\<close> the recorded states in them; \<open>ManagerState\<close> is the \<^verbatim>\<open>current_state\<close> that the state
  manager declares for itself. \<open>QueueNodes\<close> is the heap of a queue with its sequence counter,
  \<open>FreeList\<close> the chain of its pool. Members that nothing writes after the construction, such as the
  name of a task, are left out.
\<close>

datatype location =
    TaskKeys
  | TaskValues
  | TargetState
  | ManagerState
  | Observer
  | MonitoredTasks
  | UnresponsiveAction
  | Subscribers
  | QueueNodes ptr
  | FreeList ptr
  | CurrentState ptr
  | Threads ptr
  | LogQueue
  | Sinks
  | SinkStream nat

datatype event = Sync action | Read location | Write location

type_synonym event_thread = "mutex list \<times> event list"

text \<open>A step of a thread, labelled with the number of the thread and what it does.\<close>

inductive event_step :: "event_thread list \<Rightarrow> nat \<times> event \<Rightarrow> event_thread list \<Rightarrow> bool" where
  event_read: "i < length ts \<Longrightarrow> ts ! i = (held, Read l # prog) \<Longrightarrow>
     event_step ts (i, Read l) (ts[i := (held, prog)])"
| event_write: "i < length ts \<Longrightarrow> ts ! i = (held, Write l # prog) \<Longrightarrow>
     event_step ts (i, Write l) (ts[i := (held, prog)])"
| event_acquire: "i < length ts \<Longrightarrow> ts ! i = (held, Sync (Acquire m) # prog) \<Longrightarrow> \<forall>t \<in> set ts. m \<notin> set (fst t) \<Longrightarrow>
     event_step ts (i, Sync (Acquire m)) (ts[i := (m # held, prog)])"
| event_release: "i < length ts \<Longrightarrow> ts ! i = (held, Sync (Release m) # prog) \<Longrightarrow> m \<in> set held \<Longrightarrow>
     event_step ts (i, Sync (Release m)) (ts[i := (remove1 m held, prog)])"

inductive_cases event_stepE: "event_step ts x ts'"

inductive event_run :: "event_thread list \<Rightarrow> (nat \<times> event) list \<Rightarrow> event_thread list \<Rightarrow> bool" where
  run_nil [simp, intro]: "event_run ts [] ts"
| run_cons: "event_step ts x ts1 \<Longrightarrow> event_run ts1 tr ts' \<Longrightarrow> event_run ts (x # tr) ts'"

inductive_simps event_run_Nil [simp]: "event_run ts [] ts'"
inductive_simps event_run_Cons: "event_run ts (x # tr) ts'"

lemma event_run_append: "event_run ts (tr @ tr') ts' \<longleftrightarrow> (\<exists>ts1. event_run ts tr ts1 \<and> event_run ts1 tr' ts')"
  by (induction tr arbitrary: ts) (auto simp: event_run_Cons)

text \<open>
  What happens before what in a trace: the steps of one thread in their order, and the release of a
  mutex before the later acquisitions of it.
\<close>

definition synchronizes :: "(nat \<times> event) list \<Rightarrow> nat \<Rightarrow> nat \<Rightarrow> bool" where
  "synchronizes tr k l \<longleftrightarrow> k < l \<and> l < length tr \<and>
     (fst (tr ! k) = fst (tr ! l) \<or>
      (\<exists>m. snd (tr ! k) = Sync (Release m) \<and> snd (tr ! l) = Sync (Acquire m)))"

definition happens_before :: "(nat \<times> event) list \<Rightarrow> nat \<Rightarrow> nat \<Rightarrow> bool" where
  "happens_before tr = (synchronizes tr)\<^sup>+\<^sup>+"

fun conflict :: "event \<Rightarrow> event \<Rightarrow> bool" where
  "conflict (Write l) (Write l') \<longleftrightarrow> l = l'"
| "conflict (Write l) (Read l') \<longleftrightarrow> l = l'"
| "conflict (Read l) (Write l') \<longleftrightarrow> l = l'"
| "conflict _ _ \<longleftrightarrow> False"

definition data_race :: "(nat \<times> event) list \<Rightarrow> bool" where
  "data_race tr \<longleftrightarrow> (\<exists>n n'. n < n' \<and> n' < length tr \<and> fst (tr ! n) \<noteq> fst (tr ! n') \<and>
     conflict (snd (tr ! n)) (snd (tr ! n')) \<and> \<not> happens_before tr n n')"

section \<open>The accesses of the operations\<close>

text \<open>
  As for the mutexes, the branches that an operation takes are arguments. The entries of a list that
  the code goes through are given with what the code does for them: a subscriber that is gone is
  \<open>None\<close>, a monitored task comes with whether it is late, or owes no answer.
\<close>

definition locked :: "mutex \<Rightarrow> event list \<Rightarrow> event list" where
  "locked m body = Sync (Acquire m) # body @ [Sync (Release m)]"

definition log_events :: "bool \<Rightarrow> event list" where
  "log_events accepted = (if accepted then locked LoggerMutex [Write LogQueue] else [])"

definition logger_shutdown_events :: "event list" where
  "logger_shutdown_events = locked LoggerMutex [Write LogQueue]"

definition add_sink_events :: "event list" where
  "add_sink_events = [Write Sinks]"

definition worker_events :: "nat \<Rightarrow> nat list \<Rightarrow> event list" where
  "worker_events waits sinks = concat (replicate waits (locked LoggerMutex [Read LogQueue])) @
     locked LoggerMutex [Read LogQueue, Write LogQueue] @
     concat (map (\<lambda>s. Read Sinks # locked (SinkMutex s) [Write (SinkStream s)]) sinks) @ [Read Sinks]"

definition enqueue_events :: "ptr \<Rightarrow> event list" where
  "enqueue_events q = locked (PoolMutex q) [Read (FreeList q), Write (FreeList q)] @
     locked (QueueMutex q) [Read (QueueNodes q), Write (QueueNodes q)]"

definition dequeue_events :: "ptr \<Rightarrow> nat \<Rightarrow> bool \<Rightarrow> event list" where
  "dequeue_events q waits found = concat (replicate waits (locked (QueueMutex q) [Read (QueueNodes q)])) @
     locked (QueueMutex q) (Read (QueueNodes q) # Write (QueueNodes q) #
       (if found then locked (PoolMutex q) [Read (FreeList q), Write (FreeList q)] else []))"

definition try_dequeue_events :: "ptr \<Rightarrow> nat \<Rightarrow> bool \<Rightarrow> event list" where
  "try_dequeue_events q waits found = concat (replicate waits (locked (QueueMutex q) [Read (QueueNodes q)])) @
     locked (QueueMutex q) (Read (QueueNodes q) #
       (if found then Write (QueueNodes q) # locked (PoolMutex q) [Read (FreeList q), Write (FreeList q)] else []))"

definition is_empty_events :: "ptr \<Rightarrow> event list" where
  "is_empty_events q = locked (QueueMutex q) [Read (QueueNodes q)]"

text \<open>The flag that \<open>notify_shutdown\<close> sets is atomic.\<close>

definition notify_shutdown_events :: "ptr \<Rightarrow> event list" where
  "notify_shutdown_events q = locked (QueueMutex q) []"

definition deliver_events :: "bool \<Rightarrow> ptr \<Rightarrow> event list" where
  "deliver_events accepted target = log_events accepted @ enqueue_events target"

text \<open>The flag \<^verbatim>\<open>initialized\<close> of the broker counts as part of \<open>Subscribers\<close>.\<close>

definition publish_events :: "bool \<Rightarrow> ptr option list \<Rightarrow> event list" where
  "publish_events accepted entries = locked SubMutex (Read Subscribers # concat (map (\<lambda>it.
     (case it of Some q \<Rightarrow> deliver_events accepted q | None \<Rightarrow> [Write Subscribers]) @ [Read Subscribers]) entries))"

definition subscribe_events :: "bool \<Rightarrow> event list" where
  "subscribe_events found = locked SubMutex (Read Subscribers # (if found then [] else [Write Subscribers]))"

definition start_events :: "bool \<Rightarrow> ptr \<Rightarrow> event list" where
  "start_events running p = (if running then [] else [Write (Threads p)])"

text \<open>The transition in \<open>stop\<close> is virtual; its accesses are an argument.\<close>

definition stop_events :: "bool \<Rightarrow> ptr \<Rightarrow> event list \<Rightarrow> event list" where
  "stop_events running p transition =
     (if running then transition @ notify_shutdown_events p @ [Read (Threads p), Write (Threads p)] else [])"

definition task_transition_events :: "ptr \<Rightarrow> bool \<Rightarrow> bool \<Rightarrow> ptr option list \<Rightarrow> event list" where
  "task_transition_events p accepted traffic entries =
     Write (CurrentState p) # log_events accepted @ Read (CurrentState p) # publish_events traffic entries"

definition get_current_state_events :: "ptr \<Rightarrow> event list" where
  "get_current_state_events p = [Read (CurrentState p)]"

definition notify_task_registered_events :: "bool \<Rightarrow> bool \<Rightarrow> event list" where
  "notify_task_registered_events is_self monitored =
     (if is_self then []
      else locked TasksMutex (Read MonitoredTasks # (if monitored then [] else [Write MonitoredTasks])))"

text \<open>The assignment to an element of \<^verbatim>\<open>task_states\<close>, which may insert it.\<close>

definition assign_events :: "bool \<Rightarrow> event list" where
  "assign_events known = Read TaskKeys # (if known then [] else [Write TaskKeys]) @ [Write TaskValues]"

definition register_task_events :: "bool \<Rightarrow> bool \<Rightarrow> bool \<Rightarrow> bool \<Rightarrow> event list" where
  "register_task_events known has_observer is_self monitored =
     locked StateMutex (assign_events known @ Read Observer #
       (if has_observer then notify_task_registered_events is_self monitored else []))"

definition set_observer_events :: "event list" where
  "set_observer_events = [Write Observer]"

definition manager_transition_events :: "bool \<Rightarrow> bool \<Rightarrow> ptr option list \<Rightarrow> event list" where
  "manager_transition_events accepted traffic entries =
     log_events accepted @ Write ManagerState # publish_events traffic entries"

definition demand_events :: "bool \<Rightarrow> bool \<Rightarrow> bool \<Rightarrow> ptr option list \<Rightarrow> nat \<Rightarrow> nat \<Rightarrow> event list" where
  "demand_events accepted traffic errors entries waits reports =
     log_events accepted @ locked StateMutex [Write TargetState] @
     manager_transition_events accepted traffic entries @
     concat (replicate waits (locked StateMutex [Read TaskKeys, Read TaskValues])) @
     locked StateMutex (Read TaskKeys # Read TaskValues #
       concat (replicate reports (log_events errors @ [Read TaskKeys, Read TaskValues])))"

definition initialize_events :: "bool \<Rightarrow> bool \<Rightarrow> (ptr \<times> bool) list \<Rightarrow> event list \<Rightarrow> event list" where
  "initialize_events accepted late starts demand = log_events accepted @
     concat (map (\<lambda>(p, running). start_events running p @ [Read TaskKeys]) starts) @ demand @ log_events late"

definition shutdown_events :: "bool \<Rightarrow> bool \<Rightarrow> (ptr \<times> bool \<times> event list) list \<Rightarrow> event list \<Rightarrow> event list" where
  "shutdown_events accepted late stops demand = log_events accepted @ demand @ log_events late @
     concat (map (\<lambda>(p, running, transition). Read TaskKeys # stop_events running p transition) stops)"

definition ack_events :: "bool \<Rightarrow> bool \<Rightarrow> bool \<Rightarrow> bool \<Rightarrow> event list" where
  "ack_events has_sender known has_data accepted =
     (if has_sender
      then Read TaskKeys #
        (if known \<and> has_data
         then assign_events True @ log_events accepted @ [Read TaskKeys, Read TaskValues, Read TargetState]
         else log_events accepted)
      else log_events accepted)"

definition mark_events :: "bool \<Rightarrow> bool \<Rightarrow> bool \<Rightarrow> ptr \<Rightarrow> event list" where
  "mark_events known errors traffic task =
     log_events errors @ deliver_events traffic task @ locked StateMutex (assign_events known)"

text \<open>The timeout check of a heartbeat task that was given a state manager.\<close>

definition check_for_timeouts_events :: "bool \<Rightarrow> bool \<Rightarrow> bool \<Rightarrow> bool \<Rightarrow> (ptr \<times> bool) list \<Rightarrow> event list" where
  "check_for_timeouts_events known warnings errors traffic entries =
     locked TasksMutex (Read MonitoredTasks # concat (map (\<lambda>(a, late).
       if late
       then Read UnresponsiveAction # log_events warnings @ mark_events known errors traffic a @ [Write MonitoredTasks]
       else []) entries))"

definition set_unresponsive_action_events :: "event list" where
  "set_unresponsive_action_events = [Write UnresponsiveAction]"

definition send_heartbeat_events :: "bool \<Rightarrow> (ptr \<times> bool) list \<Rightarrow> event list" where
  "send_heartbeat_events traffic entries =
     locked TasksMutex (Read MonitoredTasks # concat (map (\<lambda>(a, idle).
       if idle then Write MonitoredTasks # deliver_events traffic a @ [Read MonitoredTasks] else []) entries))"

definition heartbeat_ack_events :: "bool \<Rightarrow> bool \<Rightarrow> event list" where
  "heartbeat_ack_events matched accepted =
     locked TasksMutex (Read MonitoredTasks # (if matched then Write MonitoredTasks # log_events accepted else []))"

definition periodic_events :: "ptr \<Rightarrow> event list \<Rightarrow> event list \<Rightarrow> event list" where
  "periodic_events p check send = check @ get_current_state_events p @ send"

section \<open>The accesses and the mutexes agree\<close>

text \<open>What is left of a program when only its mutexes are looked at.\<close>

fun sync_part :: "event list \<Rightarrow> action list" where
  "sync_part [] = []"
| "sync_part (Sync a # prog) = a # sync_part prog"
| "sync_part (_ # prog) = sync_part prog"

lemma sync_part_append [simp]: "sync_part (p @ q) = sync_part p @ sync_part q"
  by (induction p rule: sync_part.induct) simp_all

lemma sync_part_concat [simp]: "sync_part (concat ps) = concat (map sync_part ps)"
  by (induction ps) simp_all

lemma sync_part_locked [simp]: "sync_part (locked m body) = guarded m (sync_part body)"
  by (simp add: locked_def guarded_def)

lemma sync_part_log [simp]: "sync_part (log_events b) = log_locks b"
  by (simp add: log_events_def log_locks_def)

lemma sync_part_enqueue [simp]: "sync_part (enqueue_events q) = enqueue_locks q"
  by (simp add: enqueue_events_def enqueue_locks_def)

lemma sync_part_deliver [simp]: "sync_part (deliver_events b q) = deliver_locks b q"
  by (simp add: deliver_events_def deliver_locks_def)

lemma sync_part_publish [simp]:
  "sync_part (publish_events b entries) = publish_locks b (List.map_filter (\<lambda>it. it) entries)"
  unfolding publish_events_def publish_locks_def sync_part_locked
  by (induction entries) (auto simp: guarded_def map_filter_simps split: option.splits)

lemma sync_part_assign [simp]: "sync_part (assign_events b) = []"
  by (simp add: assign_events_def)

lemma sync_part_mark [simp]: "sync_part (mark_events known errors traffic a) = mark_locks errors traffic a"
  by (simp add: mark_events_def mark_locks_def)

lemma sync_part_manager_transition [simp]:
  "sync_part (manager_transition_events b c entries) = transition_locks b c (List.map_filter (\<lambda>it. it) entries)"
  by (simp add: manager_transition_events_def transition_locks_def)

lemma sync_part_notify [simp]: "sync_part (notify_task_registered_events b c) = notify_task_registered_locks b"
  by (simp add: notify_task_registered_events_def notify_task_registered_locks_def)

lemma sync_part_register: "sync_part (register_task_events k b c d) = register_task_locks b c"
  by (simp add: register_task_events_def register_task_locks_def)

lemma sync_part_demand:
  "sync_part (demand_events b c d entries waits reports) =
     demand_locks b c d (List.map_filter (\<lambda>it. it) entries) waits reports"
  by (simp add: demand_events_def demand_locks_def map_replicate)

lemma sync_part_dequeue: "sync_part (dequeue_events q waits found) = dequeue_locks q waits found"
  by (simp add: dequeue_events_def dequeue_locks_def map_replicate)

lemma sync_part_worker: "sync_part (worker_events waits sinks) = worker_locks waits sinks"
  by (simp add: worker_events_def worker_locks_def map_replicate comp_def)

lemma sync_part_subscribe: "sync_part (subscribe_events b) = subscribe_locks"
  by (simp add: subscribe_events_def subscribe_locks_def)

lemma sync_part_task_transition:
  "sync_part (task_transition_events p b c entries) = transition_locks b c (List.map_filter (\<lambda>it. it) entries)"
  by (simp add: task_transition_events_def transition_locks_def)

lemma sync_part_check_for_timeouts:
  "sync_part (check_for_timeouts_events k b c d entries) = check_for_timeouts_locks b c d (map fst (filter snd entries))"
  unfolding check_for_timeouts_events_def check_for_timeouts_locks_def sync_part_locked
  by (induction entries) (auto simp: guarded_def)

lemma sync_part_send_heartbeat:
  "sync_part (send_heartbeat_events b entries) = send_heartbeat_locks b (map fst (filter snd entries))"
  unfolding send_heartbeat_events_def send_heartbeat_locks_def sync_part_locked
  by (induction entries) (auto simp: guarded_def)

lemma sync_part_heartbeat_ack: "sync_part (heartbeat_ack_events m b) = heartbeat_ack_locks (m \<and> b)"
  by (simp add: heartbeat_ack_events_def heartbeat_ack_locks_def log_locks_def)

section \<open>Protection\<close>

text \<open>
  How a location can be protected: all accesses hold a mutex, or there is no write while threads
  share it, or one thread alone makes the accesses. \<open>disciplined pol i held prog\<close> says that a thread
  \<open>i\<close> that holds \<open>held\<close> accesses everything as \<open>pol\<close> demands.
\<close>

datatype protection = Guarded mutex | Frozen | Owned nat

fun disciplined :: "(location \<Rightarrow> protection) \<Rightarrow> nat \<Rightarrow> mutex list \<Rightarrow> event list \<Rightarrow> bool" where
  "disciplined pol i held [] \<longleftrightarrow> True"
| "disciplined pol i held (Sync (Acquire m) # prog) \<longleftrightarrow> disciplined pol i (m # held) prog"
| "disciplined pol i held (Sync (Release m) # prog) \<longleftrightarrow> disciplined pol i (remove1 m held) prog"
| "disciplined pol i held (Read l # prog) \<longleftrightarrow>
     (case pol l of Guarded m \<Rightarrow> m \<in> set held | Frozen \<Rightarrow> True | Owned j \<Rightarrow> i = j) \<and> disciplined pol i held prog"
| "disciplined pol i held (Write l # prog) \<longleftrightarrow>
     (case pol l of Guarded m \<Rightarrow> m \<in> set held | Frozen \<Rightarrow> False | Owned j \<Rightarrow> i = j) \<and> disciplined pol i held prog"

definition all_disciplined :: "(location \<Rightarrow> protection) \<Rightarrow> event_thread list \<Rightarrow> bool" where
  "all_disciplined pol ts \<longleftrightarrow> (\<forall>i < length ts. disciplined pol i (fst (ts ! i)) (snd (ts ! i)))"

definition holds :: "event_thread list \<Rightarrow> nat \<Rightarrow> mutex \<Rightarrow> bool" where
  "holds ts i m \<longleftrightarrow> i < length ts \<and> m \<in> set (fst (ts ! i))"

definition exclusive :: "event_thread list \<Rightarrow> bool" where
  "exclusive ts \<longleftrightarrow> (\<forall>i j m. holds ts i m \<longrightarrow> holds ts j m \<longrightarrow> i = j)"

text \<open>The mutexes that a thread holds after an event, by its kind.\<close>

fun held_next :: "event \<Rightarrow> mutex list \<Rightarrow> mutex list" where
  "held_next (Sync (Acquire m)) held = m # held"
| "held_next (Sync (Release m)) held = remove1 m held"
| "held_next _ held = held"

lemma event_step_shape:
  assumes "event_step ts (i, e) ts'"
  obtains held prog where "i < length ts" "ts ! i = (held, e # prog)" "ts' = ts[i := (held_next e held, prog)]"
    "\<forall>m. e = Sync (Acquire m) \<longrightarrow> (\<forall>j. \<not> holds ts j m)"
  using assms by cases (auto simp: holds_def)

lemma held_next_sub: "m \<in> set (held_next e held) \<Longrightarrow> m \<in> set held \<or> e = Sync (Acquire m)"
  by (cases "(e, held)" rule: held_next.cases) (auto dest: subsetD [OF set_remove1_subset])

lemma held_next_keep: "m \<in> set held \<Longrightarrow> e \<noteq> Sync (Release m) \<Longrightarrow> m \<in> set (held_next e held)"
  by (cases "(e, held)" rule: held_next.cases) auto

lemma holds_step:
  assumes "event_step ts (j, e) ts'"
  shows "holds ts' i m \<Longrightarrow> holds ts i m \<or> i = j \<and> e = Sync (Acquire m)"
    and "holds ts i m \<Longrightarrow> holds ts' i m \<or> i = j \<and> e = Sync (Release m)"
proof -
  obtain held prog where step: "j < length ts" "ts ! j = (held, e # prog)" "ts' = ts[j := (held_next e held, prog)]"
    using event_step_shape [OF assms] by metis
  show "holds ts' i m \<Longrightarrow> holds ts i m \<or> i = j \<and> e = Sync (Acquire m)"
    using step held_next_sub [of m e held] by (cases "i = j") (simp_all add: holds_def)
  show "holds ts i m \<Longrightarrow> holds ts' i m \<or> i = j \<and> e = Sync (Release m)"
    using step held_next_keep [of m held e] by (cases "i = j") (auto simp: holds_def)
qed

lemma disciplined_next: "disciplined pol i held (e # prog) \<Longrightarrow> disciplined pol i (held_next e held) prog"
  by (cases "(e, held)" rule: held_next.cases) auto

lemma all_disciplined_step: "event_step ts (i, e) ts' \<Longrightarrow> all_disciplined pol ts \<Longrightarrow> all_disciplined pol ts'"
  by (elim event_step_shape) (fastforce simp: all_disciplined_def nth_list_update intro: disciplined_next)

lemma all_disciplined_run: "event_run ts tr ts' \<Longrightarrow> all_disciplined pol ts \<Longrightarrow> all_disciplined pol ts'"
  by (induction rule: event_run.induct) (auto dest: all_disciplined_step)

lemma exclusive_step:
  assumes "event_step ts (i, e) ts'" "exclusive ts"
  shows "exclusive ts'"
  unfolding exclusive_def
proof (intro allI impI)
  fix j k m
  assume "holds ts' j m" "holds ts' k m"
  with holds_step(1) [OF assms(1)] have "holds ts j m \<or> j = i \<and> e = Sync (Acquire m)"
    "holds ts k m \<or> k = i \<and> e = Sync (Acquire m)" by blast+
  moreover have "\<not> holds ts l m" if "e = Sync (Acquire m)" for l using assms(1) that by (elim event_step_shape) blast
  ultimately show "j = k" using assms(2) unfolding exclusive_def by blast
qed

lemma exclusive_run: "event_run ts tr ts' \<Longrightarrow> exclusive ts \<Longrightarrow> exclusive ts'"
  by (induction rule: event_run.induct) (auto dest: exclusive_step)

text \<open>A mutex that passes from one thread to another is released by the one and then acquired by the other.\<close>

lemma run_acquires:
  "event_run ts tr ts' \<Longrightarrow> \<not> holds ts j m \<Longrightarrow> holds ts' j m \<Longrightarrow> \<exists>l < length tr. tr ! l = (j, Sync (Acquire m))"
proof (induction rule: event_run.induct)
  case (run_cons ts x ts1 tr ts')
  show ?case
  proof (cases "holds ts1 j m")
    case True
    with run_cons(1,4) have "x = (j, Sync (Acquire m))" by (cases x) (auto dest: holds_step(1))
    then show ?thesis by (intro exI [of _ 0]) simp
  next
    case False
    with run_cons.IH run_cons.prems obtain l where "l < length tr" "tr ! l = (j, Sync (Acquire m))" by blast
    then show ?thesis by (intro exI [of _ "Suc l"]) simp
  qed
qed simp

lemma run_handover:
  "event_run ts tr ts' \<Longrightarrow> exclusive ts \<Longrightarrow> i \<noteq> j \<Longrightarrow> holds ts i m \<Longrightarrow> holds ts' j m \<Longrightarrow>
     \<exists>k l. k < l \<and> l < length tr \<and> tr ! k = (i, Sync (Release m)) \<and> tr ! l = (j, Sync (Acquire m))"
proof (induction rule: event_run.induct)
  case (run_nil ts)
  then show ?case by (auto simp: exclusive_def)
next
  case (run_cons ts x ts1 tr ts')
  obtain n e where x: "x = (n, e)" by (cases x)
  note step = run_cons(1) [unfolded x]
  show ?case
  proof (cases "holds ts1 i m")
    case True
    with run_cons.IH exclusive_step [OF step] run_cons.prems obtain k l where
      "k < l" "l < length tr" "tr ! k = (i, Sync (Release m))" "tr ! l = (j, Sync (Acquire m))" by blast
    then show ?thesis by (intro exI [of _ "Suc k"] exI [of _ "Suc l"]) simp
  next
    case False
    then have rel: "x = (i, Sync (Release m))" using holds_step(2) [OF step] run_cons.prems(3) x by blast
    have "\<not> holds ts j m" using run_cons.prems by (auto simp: exclusive_def)
    then have "\<not> holds ts1 j m" using holds_step(1) [OF step] rel x by auto
    with run_acquires [OF run_cons(2)] run_cons.prems obtain l where
      "l < length tr" "tr ! l = (j, Sync (Acquire m))" by blast
    then show ?thesis using rel by (intro exI [of _ 0] exI [of _ "Suc l"]) simp
  qed
qed

lemma event_run_nth:
  assumes "event_run ts tr ts'" "n < length tr"
  obtains ts1 ts2 where "event_run ts (take n tr) ts1" "event_step ts1 (tr ! n) ts2" "event_run ts2 (drop (Suc n) tr) ts'"
proof -
  have "event_run ts (take n tr @ tr ! n # drop (Suc n) tr) ts'"
    using assms by (simp add: Cons_nth_drop_Suc)
  with that show ?thesis by (auto simp: event_run_append event_run_Cons)
qed

text \<open>The location that an event accesses.\<close>

fun accesses :: "event \<Rightarrow> location option" where
  "accesses (Read l) = Some l"
| "accesses (Write l) = Some l"
| "accesses (Sync a) = None"

lemma conflict_accesses: "conflict e f \<Longrightarrow> \<exists>l. accesses e = Some l \<and> accesses f = Some l \<and> (e = Write l \<or> f = Write l)"
  by (cases "(e, f)" rule: conflict.cases) auto

lemma accesses_held: "accesses e = Some l \<Longrightarrow> held_next e held = held"
  by (cases e) simp_all

lemma disciplined_access:
  "all_disciplined pol ts \<Longrightarrow> event_step ts (i, e) ts' \<Longrightarrow> accesses e = Some l \<Longrightarrow>
     (case pol l of Guarded m \<Rightarrow> holds ts i m \<and> holds ts' i m | Frozen \<Rightarrow> e \<noteq> Write l | Owned j \<Rightarrow> i = j)"
  by (elim event_step_shape, cases e)
    (auto simp: all_disciplined_def holds_def nth_list_update split: protection.splits dest!: spec [of _ i])

lemma disciplined_no_race:
  assumes run: "event_run ts tr ts'" and ok: "all_disciplined pol ts" "exclusive ts"
  shows "\<not> data_race tr"
proof
  assume "data_race tr"
  then obtain n n' where n: "n < n'" "n' < length tr" "fst (tr ! n) \<noteq> fst (tr ! n')"
    "conflict (snd (tr ! n)) (snd (tr ! n'))" "\<not> happens_before tr n n'" by (auto simp: data_race_def)
  obtain i e where e: "tr ! n = (i, e)" by (cases "tr ! n")
  obtain j f where f: "tr ! n' = (j, f)" by (cases "tr ! n'")
  from n(4) e f obtain l where l: "accesses e = Some l" "accesses f = Some l" "e = Write l \<or> f = Write l"
    using conflict_accesses by auto
  from n(1,2) have "n < length tr" by simp
  from event_run_nth [OF run this] obtain ts1 ts2 where r1: "event_run ts (take n tr) ts1"
    "event_step ts1 (i, e) ts2" "event_run ts2 (drop (Suc n) tr) ts'" unfolding e by metis
  have "n' - Suc n < length (drop (Suc n) tr)" using n(1,2) by simp
  from event_run_nth [OF r1(3) this] obtain ts3 ts4 where r2: "event_run ts2 (take (n' - Suc n) (drop (Suc n) tr)) ts3"
    "event_step ts3 (j, f) ts4" using n(1,2) f by (simp add: nth_append) metis
  note d1 = all_disciplined_run [OF r1(1) ok(1)]
  note d3 = all_disciplined_run [OF r2(1) all_disciplined_step [OF r1(2) d1]]
  note a1 = disciplined_access [OF d1 r1(2) l(1)] and a2 = disciplined_access [OF d3 r2(2) l(2)]
  show False
  proof (cases "pol l")
    case (Guarded m)
    have ex: "exclusive ts2" by (rule exclusive_step [OF r1(2) exclusive_run [OF r1(1) ok(2)]])
    have ij: "i \<noteq> j" using n(3) e f by simp
    have "holds ts2 i m" "holds ts3 j m" using a1 a2 Guarded by simp_all
    from run_handover [OF r2(1) ex ij this] obtain k k' where k: "k < k'" "k' < n' - Suc n"
      "tr ! (Suc n + k) = (i, Sync (Release m))" "tr ! (Suc n + k') = (j, Sync (Acquire m))"
      using n(1,2) by auto
    have "synchronizes tr n (Suc n + k)" "synchronizes tr (Suc n + k) (Suc n + k')" "synchronizes tr (Suc n + k') n'"
      using k n(1,2) e f by (auto simp: synchronizes_def)
    then have "happens_before tr n n'" unfolding happens_before_def by (meson tranclp.r_into_trancl tranclp.trancl_into_trancl)
    with n(5) show False by simp
  next
    case Frozen
    with a1 a2 l(3) show False by simp
  next
    case (Owned p)
    with a1 a2 n(3) e f show False by simp
  qed
qed

text \<open>A call is neutral when it releases what it acquires.\<close>

definition neutral :: "event list \<Rightarrow> bool" where
  "neutral p \<longleftrightarrow> fold held_next p = id"

lemma neutral_simps [simp]:
  "neutral []" "neutral (Read l # p) \<longleftrightarrow> neutral p" "neutral (Write l # p) \<longleftrightarrow> neutral p"
  by (simp_all add: neutral_def fun_eq_iff)

lemma neutral_append [simp]: "neutral p \<Longrightarrow> neutral q \<Longrightarrow> neutral (p @ q)"
  by (simp add: neutral_def)

lemma neutral_concat [simp]: "\<forall>p \<in> set ps. neutral p \<Longrightarrow> neutral (concat ps)"
  by (induction ps) simp_all

lemma neutral_locked [simp]: "neutral body \<Longrightarrow> neutral (locked m body)"
  by (simp add: neutral_def locked_def fun_eq_iff)

lemma disciplined_append [simp]:
  "disciplined pol i held (p @ q) \<longleftrightarrow> disciplined pol i held p \<and> disciplined pol i (fold held_next p held) q"
  by (induction pol i held p rule: disciplined.induct) (auto split: protection.splits)

lemma neutral_fold [simp]: "neutral p \<Longrightarrow> fold held_next p held = held"
  by (simp add: neutral_def)

lemma disciplined_locked [simp]:
  "disciplined pol i held (locked m body) \<longleftrightarrow> disciplined pol i (m # held) body"
  by (simp add: locked_def)

lemma disciplined_concat:
  "(\<And>p. p \<in> set ps \<Longrightarrow> neutral p \<and> disciplined pol i held p) \<Longrightarrow> disciplined pol i held (concat ps)"
  by (induction ps) simp_all

text \<open>
  The contract between the calls of a program and a protection: every call that a thread may make
  is neutral and accesses everything as it is protected. Such threads have no data race.
\<close>

locale race_discipline =
  fixes pol :: "location \<Rightarrow> protection" and may_call :: "nat \<Rightarrow> event list \<Rightarrow> bool"
  assumes call_neutral: "may_call i p \<Longrightarrow> neutral p"
    and call_disciplined: "may_call i p \<Longrightarrow> disciplined pol i [] p"
begin

lemma calls_race_free:
  assumes calls: "\<forall>i < length programs. \<forall>p \<in> set (programs ! i). may_call i p"
    and run: "event_run (map (\<lambda>calls. ([], concat calls)) programs) tr ts"
  shows "\<not> data_race tr"
proof (rule disciplined_no_race [OF run])
  show "all_disciplined pol (map (\<lambda>calls. ([], concat calls)) programs)"
    unfolding all_disciplined_def using calls call_neutral call_disciplined
    by (auto intro!: disciplined_concat)
  show "exclusive (map (\<lambda>calls. ([], concat calls)) programs)" by (auto simp: exclusive_def holds_def)
qed

end

section \<open>The discipline of the framework\<close>

text \<open>
  What protects the members. The observer of the registrations, the sinks and the action of the
  heartbeat task have setters without a mutex and must not be set any more; the state of a task and
  its thread objects must belong to one thread, which \<open>owner\<close> names.
\<close>

fun framework :: "(location \<Rightarrow> nat) \<Rightarrow> location \<Rightarrow> protection" where
  "framework owner TaskKeys = Guarded StateMutex"
| "framework owner TaskValues = Guarded StateMutex"
| "framework owner TargetState = Guarded StateMutex"
| "framework owner MonitoredTasks = Guarded TasksMutex"
| "framework owner Subscribers = Guarded SubMutex"
| "framework owner (QueueNodes q) = Guarded (QueueMutex q)"
| "framework owner (FreeList q) = Guarded (PoolMutex q)"
| "framework owner LogQueue = Guarded LoggerMutex"
| "framework owner (SinkStream s) = Guarded (SinkMutex s)"
| "framework owner Observer = Frozen"
| "framework owner UnresponsiveAction = Frozen"
| "framework owner Sinks = Frozen"
| "framework owner ManagerState = Owned (owner ManagerState)"
| "framework owner (CurrentState p) = Owned (owner (CurrentState p))"
| "framework owner (Threads p) = Owned (owner (Threads p))"

text \<open>The calls that respect it: all but the handling of a state acknowledgement, the loops of
  \<open>initialize\<close> and \<open>shutdown\<close> over the registered tasks, and the setters.\<close>

inductive orderly_call :: "(location \<Rightarrow> nat) \<Rightarrow> nat \<Rightarrow> event list \<Rightarrow> bool" for owner i where
  "orderly_call owner i (log_events accepted)"
| "orderly_call owner i logger_shutdown_events"
| "orderly_call owner i (worker_events waits sinks)"
| "orderly_call owner i (enqueue_events q)"
| "orderly_call owner i (dequeue_events q waits found)"
| "orderly_call owner i (try_dequeue_events q waits found)"
| "orderly_call owner i (is_empty_events q)"
| "orderly_call owner i (notify_shutdown_events q)"
| "orderly_call owner i (deliver_events accepted q)"
| "orderly_call owner i (publish_events accepted entries)"
| "orderly_call owner i (subscribe_events found)"
| "owner (Threads p) = i \<Longrightarrow> orderly_call owner i (start_events running p)"
| "owner (Threads p) = i \<Longrightarrow> owner (CurrentState p) = i \<Longrightarrow>
     orderly_call owner i (stop_events running p (task_transition_events p accepted traffic entries))"
| "owner (CurrentState p) = i \<Longrightarrow> orderly_call owner i (task_transition_events p accepted traffic entries)"
| "owner (CurrentState p) = i \<Longrightarrow> orderly_call owner i (get_current_state_events p)"
| "orderly_call owner i (register_task_events known has_observer is_self monitored)"
| "owner ManagerState = i \<Longrightarrow> orderly_call owner i (manager_transition_events accepted traffic entries)"
| "owner ManagerState = i \<Longrightarrow> orderly_call owner i (demand_events accepted traffic errors entries waits reports)"
| "orderly_call owner i (mark_events known errors traffic a)"
| "orderly_call owner i (check_for_timeouts_events known warnings errors traffic monitored)"
| "orderly_call owner i (send_heartbeat_events traffic monitored)"
| "orderly_call owner i (heartbeat_ack_events matched accepted)"

lemmas shared_events_defs = log_events_def enqueue_events_def deliver_events_def assign_events_def mark_events_def
  notify_task_registered_events_def notify_shutdown_events_def

lemma neutral_shared [simp]:
  "neutral (log_events b)" "neutral (enqueue_events q)" "neutral (deliver_events b q)" "neutral (assign_events b)"
  "neutral (mark_events b c d q)" "neutral (notify_task_registered_events b c)" "neutral (notify_shutdown_events q)"
  by (simp_all add: shared_events_defs)

lemma neutral_publish [simp]: "neutral (publish_events b entries)"
  by (auto simp: publish_events_def intro!: neutral_locked neutral_concat split: option.splits)

lemma disciplined_shared [simp]:
  "disciplined (framework owner) i held (log_events b)"
  "disciplined (framework owner) i held (enqueue_events q)"
  "disciplined (framework owner) i held (deliver_events b q)"
  "StateMutex \<in> set held \<Longrightarrow> disciplined (framework owner) i held (assign_events b)"
  "disciplined (framework owner) i held (mark_events b c d q)"
  "disciplined (framework owner) i held (notify_task_registered_events b c)"
  "disciplined (framework owner) i held (notify_shutdown_events q)"
  by (simp_all add: shared_events_defs)

lemma disciplined_publish [simp]: "disciplined (framework owner) i held (publish_events b entries)"
  unfolding publish_events_def disciplined_locked disciplined.simps
  by (auto intro!: disciplined_concat split: option.splits)

lemmas call_events_defs = logger_shutdown_events_def worker_events_def dequeue_events_def try_dequeue_events_def
  is_empty_events_def subscribe_events_def start_events_def stop_events_def task_transition_events_def
  get_current_state_events_def register_task_events_def manager_transition_events_def demand_events_def
  check_for_timeouts_events_def send_heartbeat_events_def heartbeat_ack_events_def

lemma orderly_neutral: "orderly_call owner i p \<Longrightarrow> neutral p"
  by (induction rule: orderly_call.induct) (auto simp: call_events_defs
      intro!: neutral_locked neutral_append neutral_concat)

lemma orderly_disciplined: "orderly_call owner i p \<Longrightarrow> disciplined (framework owner) i [] p"
  by (induction rule: orderly_call.induct) (auto simp: call_events_defs intro!: disciplined_concat)

interpretation framework: race_discipline "framework owner" "orderly_call owner" for owner
  by unfold_locales (fact orderly_neutral orderly_disciplined)+

section \<open>Calls that race\<close>

text \<open>A thread alone runs the first part of its program, if no other holds what it acquires there.\<close>

lemma event_run_solo:
  "held_after held (sync_part p) = Some held' \<Longrightarrow> i < length ts \<Longrightarrow> ts ! i = (held, p @ rest) \<Longrightarrow>
     \<forall>j m. j \<noteq> i \<longrightarrow> holds ts j m \<longrightarrow> Sync (Acquire m) \<notin> set p \<Longrightarrow>
     \<exists>tr. event_run ts tr (ts[i := (held', rest)])"
proof (induction p arbitrary: held ts)
  case Nil
  then have "ts[i := (held', rest)] = ts" by (metis append_Nil held_after.simps(1) list_update_id option.inject sync_part.simps(1))
  then show ?case by (metis run_nil)
next
  case (Cons e p)
  let ?ts = "ts[i := (held_next e held, p @ rest)]"
  have own: "held_after (held_next e held) (sync_part p) = Some held'" and
    step: "event_step ts (i, e) ?ts"
  proof -
    show "held_after (held_next e held) (sync_part p) = Some held'"
      using Cons.prems(1) by (cases "(e, held)" rule: held_next.cases) (auto split: if_splits)
    show "event_step ts (i, e) ?ts"
    proof (cases "(e, held)" rule: held_next.cases)
      case (1 m h)
      have "m \<notin> set held" using Cons.prems(1) 1 by (auto split: if_splits)
      moreover have "m \<notin> set (fst (ts ! j))" if "j \<noteq> i" "j < length ts" for j
        using Cons.prems(4) 1 that by (auto simp: holds_def)
      ultimately have "\<forall>t \<in> set ts. m \<notin> set (fst t)"
        using Cons.prems(2,3) by (metis fst_conv in_set_conv_nth)
      then show ?thesis using 1 Cons.prems(2,3) by (auto intro: event_acquire)
    next
      case (2 m h)
      then have "m \<in> set held" using Cons.prems(1) by (auto split: if_splits)
      then show ?thesis using 2 Cons.prems(2,3) by (auto intro: event_release)
    qed (use Cons.prems(2,3) in \<open>auto intro: event_read event_write\<close>)
  qed
  have "\<forall>j m. j \<noteq> i \<longrightarrow> holds ?ts j m \<longrightarrow> Sync (Acquire m) \<notin> set p"
    using Cons.prems(4) by (auto simp: holds_def)
  with Cons.IH [OF own, of ?ts] Cons.prems(2) obtain tr where "event_run ?ts tr (ts[i := (held', rest)])" by auto
  with step show ?case by (blast intro: run_cons)
qed

lemma synchronizes_less: "happens_before tr k l \<Longrightarrow> k < l"
  unfolding happens_before_def by (induction rule: tranclp_induct) (auto simp: synchronizes_def)

lemma happens_before_next:
  assumes "happens_before tr n (Suc n)"
  shows "synchronizes tr n (Suc n)"
  using assms unfolding happens_before_def
proof cases
  case (trancl_into_trancl k)
  then have "n < k" "k < Suc n"
    using synchronizes_less [of tr n k] by (simp_all add: happens_before_def synchronizes_def)
  then show ?thesis by simp
qed

text \<open>Conflicting accesses of two threads right after each other are a data race.\<close>

lemma data_race_adjacent:
  assumes "i \<noteq> j" "conflict e f"
  shows "data_race (tr @ [(i, e), (j, f)])"
proof -
  let ?tr = "tr @ [(i, e), (j, f)]" and ?n = "length tr"
  have "\<not> synchronizes ?tr ?n (Suc ?n)" using assms by (auto simp: synchronizes_def nth_append)
  then have "\<not> happens_before ?tr ?n (Suc ?n)" using happens_before_next by blast
  with assms show ?thesis
    unfolding data_race_def by (intro exI [of _ ?n] exI [of _ "Suc ?n"]) (simp add: nth_append)
qed

definition can_race :: "event list \<Rightarrow> event list \<Rightarrow> bool" where
  "can_race p q \<longleftrightarrow> (\<exists>tr ts. event_run [([], p), ([], q)] tr ts \<and> data_race tr)"

lemma holds_pair: "holds [t, u] j m \<longleftrightarrow> j = 0 \<and> m \<in> set (fst t) \<or> j = 1 \<and> m \<in> set (fst u)"
  by (cases j) (auto simp: holds_def)

lemma event_step_access:
  "accesses e = Some l \<Longrightarrow> i < length ts \<Longrightarrow> ts ! i = (held, e # prog) \<Longrightarrow> event_step ts (i, e) (ts[i := (held, prog)])"
  by (cases e) (auto intro: event_read event_write)

lemma can_raceI:
  assumes p: "p = p1 @ e # p2" "held_after [] (sync_part p1) = Some hp"
    and q: "q = q1 @ f # q2" "held_after [] (sync_part q1) = Some hq"
    and free: "\<forall>m \<in> set hq. Sync (Acquire m) \<notin> set p1" and conflict: "conflict e f"
  shows "can_race p q"
proof -
  obtain l where l: "accesses e = Some l" "accesses f = Some l" using conflict_accesses [OF conflict] by blast
  obtain tr1 where tr1: "event_run [([], p), ([], q)] tr1 [([], p), (hq, f # q2)]"
    using event_run_solo [OF q(2), of 1 "[([], p), ([], q)]" "f # q2"] q(1)
    by (auto simp: holds_pair)
  obtain tr2 where tr2: "event_run [([], p), (hq, f # q2)] tr2 [(hp, e # p2), (hq, f # q2)]"
    using event_run_solo [OF p(2), of 0 "[([], p), (hq, f # q2)]" "e # p2"] p(1) free
    by (auto simp: holds_pair)
  have e: "event_step [(hp, e # p2), (hq, f # q2)] (0, e) [(hp, p2), (hq, f # q2)]"
    using event_step_access [OF l(1), of 0 "[(hp, e # p2), (hq, f # q2)]"] by simp
  have f: "event_step [(hp, p2), (hq, f # q2)] (1, f) [(hp, p2), (hq, q2)]"
    using event_step_access [OF l(2), of 1 "[(hp, p2), (hq, f # q2)]"] by simp
  have "event_run [([], p), ([], q)] ((tr1 @ tr2) @ [(0, e), (1, f)]) [(hp, p2), (hq, q2)]"
    using tr1 tr2 e f by (auto simp: event_run_append event_run_Cons)
  moreover have "data_race ((tr1 @ tr2) @ [(0, e), (1, f)])" using conflict by (intro data_race_adjacent) simp_all
  ultimately show ?thesis unfolding can_race_def by blast
qed

section \<open>Running a schedule\<close>

definition can_step :: "event_thread list \<Rightarrow> mutex list \<Rightarrow> event \<Rightarrow> bool" where
  "can_step ts held e = (case e of Sync (Acquire m) \<Rightarrow> list_all (\<lambda>t. m \<notin> set (fst t)) ts
     | Sync (Release m) \<Rightarrow> m \<in> set held | _ \<Rightarrow> True)"

fun exec_events :: "nat list \<Rightarrow> event_thread list \<Rightarrow> ((nat \<times> event) list \<times> event_thread list) option" where
  "exec_events [] ts = Some ([], ts)"
| "exec_events (i # is) ts =
     (if i < length ts
      then (case ts ! i of
              (held, e # prog) \<Rightarrow>
                if can_step ts held e
                then map_option (\<lambda>(tr, ts'). ((i, e) # tr, ts')) (exec_events is (ts[i := (held_next e held, prog)]))
                else None
            | _ \<Rightarrow> None)
      else None)"

lemma can_step_event_step:
  "i < length ts \<Longrightarrow> ts ! i = (held, e # prog) \<Longrightarrow> can_step ts held e \<Longrightarrow>
     event_step ts (i, e) (ts[i := (held_next e held, prog)])"
  by (cases "(e, held)" rule: held_next.cases)
    (auto simp: can_step_def list_all_iff intro: event_read event_write event_acquire event_release)

lemma exec_events_run: "exec_events is ts = Some (tr, ts') \<Longrightarrow> event_run ts tr ts'"
  by (induction "is" arbitrary: ts tr)
    (auto split: if_splits prod.splits list.splits intro: run_cons can_step_event_step)

section \<open>Members without a mutex\<close>

text \<open>
  The heartbeat task reads its state in its periodic thread while its queue thread changes it. The
  setters race with their readers: a sink that is added with the worker that goes through the sinks,
  the observer with a registration, the action of the heartbeat task with a timeout check that finds
  a late task.
\<close>

lemma current_state_races:
  "can_race (periodic_events p (check_for_timeouts_events known warnings errors traffic []) send)
     (task_transition_events p accepted traffic' entries)"
  by (rule can_raceI [where e = "Read (CurrentState p)" and f = "Write (CurrentState p)" and ?q1.0 = "[]" and hq = "[]"
        and ?p1.0 = "check_for_timeouts_events known warnings errors traffic []" and hp = "[]"])
    (simp_all add: periodic_events_def get_current_state_events_def task_transition_events_def
      check_for_timeouts_events_def held_after_guarded)

lemma add_sink_races: "can_race (worker_events waits sinks) add_sink_events"
proof -
  let ?p1 = "concat (replicate waits (locked LoggerMutex [Read LogQueue])) @ locked LoggerMutex [Read LogQueue, Write LogQueue]"
  have held: "held_after [] (sync_part ?p1) = Some []"
    by (simp add: held_after_append held_after_guarded held_after_concat map_replicate)
  obtain p2 where "worker_events waits sinks = ?p1 @ Read Sinks # p2"
    by (cases sinks) (simp_all add: worker_events_def)
  from can_raceI [OF this held, where f = "Write Sinks" and ?q1.0 = "[]" and hq = "[]"] show ?thesis
    by (simp add: add_sink_events_def)
qed

lemma set_observer_races:
  "can_race (register_task_events known has_observer is_self monitored) set_observer_events"
  by (rule can_raceI [where e = "Read Observer" and f = "Write Observer" and ?q1.0 = "[]" and hq = "[]"
        and ?p1.0 = "Sync (Acquire StateMutex) # assign_events known" and hp = "[StateMutex]"])
    (simp_all add: register_task_events_def locked_def set_observer_events_def)

lemma set_unresponsive_action_races:
  "can_race (check_for_timeouts_events known warnings errors traffic ((a, True) # monitored)) set_unresponsive_action_events"
  by (rule can_raceI [where e = "Read UnresponsiveAction" and f = "Write UnresponsiveAction" and ?q1.0 = "[]" and hq = "[]"
        and ?p1.0 = "[Sync (Acquire TasksMutex), Read MonitoredTasks]" and hp = "[TasksMutex]"])
    (simp_all add: check_for_timeouts_events_def locked_def set_unresponsive_action_events_def)

text \<open>The loops over the registered tasks in \<open>initialize\<close> and \<open>shutdown\<close> race with the registration of a
  new one, as they do not take the state mutex.\<close>

lemma registration_races_with_initialize:
  "can_race (initialize_events accepted late (st # starts) demand) (register_task_events False has_observer is_self monitored)"
proof -
  let ?p1 = "log_events accepted @ start_events (snd st) (fst st)"
  obtain p2 where p: "initialize_events accepted late (st # starts) demand = ?p1 @ Read TaskKeys # p2"
    by (simp add: initialize_events_def split_beta)
  have "held_after [] (sync_part ?p1) = Some []" "Sync (Acquire StateMutex) \<notin> set ?p1"
    by (simp_all add: start_events_def log_events_def locked_def held_after_append)
  with can_raceI [OF p, where f = "Write TaskKeys" and ?q1.0 = "[Sync (Acquire StateMutex), Read TaskKeys]" and
      hq = "[StateMutex]" and hp = "[]"] show ?thesis
    by (simp add: register_task_events_def locked_def assign_events_def)
qed

section \<open>Properties\<close>

text \<open>C11: Freedom from data races: threads that run any of the operations of the framework, in any
  number, order and interleaving, never access a shared member in conflict without one access
  happening before the other. Left out are the handling of a state acknowledgement, the loops of
  \<open>initialize\<close> and \<open>shutdown\<close> and the setters without a mutex; and what no mutex protects is
  assumed to have one owner: the state of a task (\<open>transition_to_state\<close>, \<open>get_current_state\<close>), its
  thread objects (\<open>start\<close>, \<open>stop\<close>) and the manager's own state are used by one thread each, which
  the code does not enforce. The mutex that protects each of the
  other members is the one that \<open>framework\<close> names.\<close>

theorem orderly_calls_race_free:
  assumes "\<forall>i < length programs. \<forall>p \<in> set (programs ! i). orderly_call owner i p"
    and "event_run (map (\<lambda>calls. ([], concat calls)) programs) tr ts"
  shows "\<not> data_race tr"
  using framework.calls_race_free [OF assms] .

theorem orderly_calls_race_free_witness:
  "\<exists>tr ts. event_run [([], is_empty_events 8), ([], enqueue_events 8)] tr ts \<and> length tr = 11 \<and> \<not> data_race tr"
proof -
  let ?calls = "[[is_empty_events 8], [enqueue_events 8]]"
  let ?start = "map (\<lambda>calls. ([], concat calls)) ?calls"
  let ?tr = "map (Pair 0) (is_empty_events 8) @ map (Pair 1) (enqueue_events 8)"
  have run: "event_run ?start ?tr [([], []), ([], [])]"
    by (rule exec_events_run [of "replicate 3 0 @ replicate 8 1"])
      (simp add: is_empty_events_def enqueue_events_def locked_def can_step_def numeral_eq_Suc)
  have "\<forall>i < length ?calls. \<forall>p \<in> set (?calls ! i). orderly_call (\<lambda>_. 0) i p"
    by (auto simp: less_Suc_eq intro: orderly_call.intros)
  from orderly_calls_race_free [OF this run] run show ?thesis
    by (intro exI [of _ ?tr] exI) (auto simp: is_empty_events_def enqueue_events_def locked_def)
qed

text \<open>What \<open>demand_state_transition\<close> does before its last test reads the recorded states.\<close>

definition demand_before :: "bool \<Rightarrow> bool \<Rightarrow> ptr option list \<Rightarrow> nat \<Rightarrow> event list" where
  "demand_before accepted traffic entries waits =
     log_events accepted @ locked StateMutex [Write TargetState] @ manager_transition_events accepted traffic entries @
     concat (replicate waits (locked StateMutex [Read TaskKeys, Read TaskValues])) @
     [Sync (Acquire StateMutex), Read TaskKeys]"

text \<open>C33: The handling of a state acknowledgement has data races: it looks up and stores the state
  of the sender and reads the target without the state mutex. It races with \<open>register_task\<close> of a new
  task, which changes the map while it is searched, with \<open>demand_state_transition\<close>, whose wait reads
  the recorded states while one is stored, and with the marking of an unresponsive task, which
  stores at the same time.\<close>

theorem acknowledgment_races:
  "can_race (ack_events True known has_data accepted) (register_task_events False has_observer is_self monitored) \<and>
   can_race (ack_events True True True accepted) (demand_events accepted' traffic errors entries waits reports) \<and>
   can_race (ack_events True True True accepted) (mark_events known errors traffic a)"
proof (intro conjI)
  show "can_race (ack_events True known has_data accepted) (register_task_events False has_observer is_self monitored)"
    by (rule can_raceI [where ?p1.0 = "[]" and e = "Read TaskKeys" and hp = "[]" and f = "Write TaskKeys"
          and ?q1.0 = "[Sync (Acquire StateMutex), Read TaskKeys]" and hq = "[StateMutex]"])
      (simp_all add: ack_events_def register_task_events_def locked_def assign_events_def)
  note race = can_raceI [where ?p1.0 = "[Read TaskKeys, Read TaskKeys]" and e = "Write TaskValues" and hp = "[]" and hq = "[StateMutex]"]
  have "held_after [] (sync_part (demand_before accepted' traffic entries waits)) = Some [StateMutex]"
    by (simp add: demand_before_def held_after_append held_after_guarded held_after_concat map_replicate
        ordered_call_held [OF ordered_call.intros(8)])
  then show "can_race (ack_events True True True accepted) (demand_events accepted' traffic errors entries waits reports)"
    by (intro race [where f = "Read TaskValues" and ?q1.0 = "demand_before accepted' traffic entries waits"])
      (simp_all add: ack_events_def demand_events_def demand_before_def locked_def assign_events_def)
  show "can_race (ack_events True True True accepted) (mark_events known errors traffic a)"
    by (rule race [where f = "Write TaskValues" and ?q1.0 = "log_events errors @ deliver_events traffic a @
          Sync (Acquire StateMutex) # Read TaskKeys # (if known then [] else [Write TaskKeys])"])
      (simp_all add: ack_events_def mark_events_def locked_def assign_events_def held_after_append)
qed

text \<open>C34: Members without a mutex have data races in ordinary use: the periodic thread of the
  heartbeat task reads its state while its queue thread changes it; the worker of the logger goes
  through the sinks while one is added; \<open>initialize\<close> goes through the registered tasks while one is
  registered; the observer of the registrations and the action of the heartbeat task can be set
  while they are read.\<close>

theorem unguarded_members_race:
  "can_race (periodic_events p (check_for_timeouts_events known warnings errors traffic []) send)
     (task_transition_events p accepted traffic entries) \<and>
   can_race (worker_events waits sinks) add_sink_events \<and>
   can_race (initialize_events accepted late (st # starts) demand)
     (register_task_events False has_observer is_self monitored) \<and>
   can_race (register_task_events known has_observer is_self monitored) set_observer_events \<and>
   can_race (check_for_timeouts_events known warnings errors traffic ((a, True) # tasks)) set_unresponsive_action_events"
  by (intro conjI current_state_races add_sink_races registration_races_with_initialize set_observer_races
      set_unresponsive_action_races)

end
