(* ===== verification/Monitors.thy ===== *)
theory Monitors
  imports Queue_Threads Logger
begin

text \<open>
  Waiting on a condition variable: a reader tests a predicate under a mutex and sleeps while it is
  false; other calls change the shared state under the mutex and notify after it. The wait
  of \<open>dequeue\<close> and that of the logger's worker are such loops. What can go wrong in them is a
  wake-up that is lost: the reader sleeps although its predicate holds and nobody is going to
  notify it.
\<close>

section \<open>The wait loop\<close>

text \<open>
  The reader outside the wait, at the test, between the test and the sleep, asleep, and woken but
  without the mutex. It holds the mutex at the test and until it sleeps.
\<close>

datatype sleeper = Away | Testing | Deciding | Asleep | Woken

text \<open>\<open>notices\<close> counts the calls that have made their change and are about to notify.\<close>

record 's monitor =
  shared :: 's
  reader :: sleeper
  notices :: nat

text \<open>
  \<open>ready\<close> says when the reader may call the wait, \<open>pred\<close> is what it waits for, \<open>taking\<close> what it does
  under the mutex when it has it, \<open>loud\<close> are the changes that others make under the mutex and
  announce, and \<open>silent\<close> those that they do not announce. A sleeping reader may wake up for no
  reason.
\<close>

inductive monitor_step ::
  "('s \<Rightarrow> bool) \<Rightarrow> ('s \<Rightarrow> bool) \<Rightarrow> ('s \<Rightarrow> 's \<Rightarrow> bool) \<Rightarrow> ('s \<Rightarrow> 's \<Rightarrow> bool) \<Rightarrow> ('s \<Rightarrow> 's \<Rightarrow> bool) \<Rightarrow>
   's monitor \<Rightarrow> 's monitor \<Rightarrow> bool" for ready pred taking loud silent where
  mon_call: "reader d = Away \<Longrightarrow> ready (shared d) \<Longrightarrow>
     monitor_step ready pred taking loud silent d (d\<lparr>reader := Testing\<rparr>)"
| mon_refuse: "reader d = Testing \<Longrightarrow> \<not> pred (shared d) \<Longrightarrow>
     monitor_step ready pred taking loud silent d (d\<lparr>reader := Deciding\<rparr>)"
| mon_sleep: "reader d = Deciding \<Longrightarrow> monitor_step ready pred taking loud silent d (d\<lparr>reader := Asleep\<rparr>)"
| mon_spurious: "reader d = Asleep \<Longrightarrow> monitor_step ready pred taking loud silent d (d\<lparr>reader := Woken\<rparr>)"
| mon_lock: "reader d = Woken \<Longrightarrow> monitor_step ready pred taking loud silent d (d\<lparr>reader := Testing\<rparr>)"
| mon_take: "reader d = Testing \<Longrightarrow> pred (shared d) \<Longrightarrow> taking (shared d) s \<Longrightarrow>
     monitor_step ready pred taking loud silent d (d\<lparr>shared := s, reader := Away\<rparr>)"
| mon_loud: "reader d \<notin> {Testing, Deciding} \<Longrightarrow> loud (shared d) s \<Longrightarrow>
     monitor_step ready pred taking loud silent d (d\<lparr>shared := s, notices := Suc (notices d)\<rparr>)"
| mon_notify: "notices d = Suc n \<Longrightarrow>
     monitor_step ready pred taking loud silent d
       (d\<lparr>notices := n, reader := if reader d = Asleep then Woken else reader d\<rparr>)"
| mon_silent: "silent (shared d) s \<Longrightarrow> monitor_step ready pred taking loud silent d (d\<lparr>shared := s\<rparr>)"

inductive_cases monitor_stepE: "monitor_step ready pred taking loud silent d d'"

text \<open>
  The contract of a wait loop: the changes that are not announced do not make the predicate true,
  no change of others disturbs the reader, and the reader can take what it waited for.
\<close>

locale wait_loop =
  fixes sound ready pred :: "'s \<Rightarrow> bool" and taking loud silent :: "'s \<Rightarrow> 's \<Rightarrow> bool"
  assumes quiet: "silent s s' \<Longrightarrow> pred s' \<Longrightarrow> pred s"
    and loud_sound: "loud s s' \<Longrightarrow> sound s \<Longrightarrow> sound s'"
    and silent_sound: "silent s s' \<Longrightarrow> sound s \<Longrightarrow> sound s'"
    and loud_ready: "loud s s' \<Longrightarrow> ready s \<Longrightarrow> ready s'"
    and silent_ready: "silent s s' \<Longrightarrow> ready s \<Longrightarrow> ready s'"
    and take_sound: "taking s s' \<Longrightarrow> sound s \<Longrightarrow> sound s'"
    and take_possible: "sound s \<Longrightarrow> ready s \<Longrightarrow> pred s \<Longrightarrow> \<exists>s'. taking s s'"
begin

definition awaited :: "'s monitor \<Rightarrow> bool" where
  "awaited d \<longleftrightarrow> sound (shared d) \<and> (reader d \<noteq> Away \<longrightarrow> ready (shared d)) \<and>
     (reader d = Deciding \<longrightarrow> \<not> pred (shared d)) \<and>
     (reader d = Asleep \<longrightarrow> pred (shared d) \<longrightarrow> 0 < notices d)"

lemma awaited_step: "monitor_step ready pred taking loud silent d d' \<Longrightarrow> awaited d \<Longrightarrow> awaited d'"
  by (induction rule: monitor_step.induct) (auto simp: awaited_def intro: loud_sound silent_sound take_sound loud_ready silent_ready dest: quiet)

lemma awaited_run: "(monitor_step ready pred taking loud silent)\<^sup>*\<^sup>* d d' \<Longrightarrow> awaited d \<Longrightarrow> awaited d'"
  by (induction rule: rtranclp_induct) (auto intro: awaited_step)

text \<open>When the predicate holds, a reader that waits can take at once, or after a notification that
  is on its way.\<close>

lemma awaited_completes:
  assumes ok: "awaited d" and wait: "reader d \<noteq> Away" "pred (shared d)"
  shows "\<exists>d'. (monitor_step ready pred taking loud silent)\<^sup>*\<^sup>* d d' \<and> reader d' = Away \<and> taking (shared d) (shared d')"
proof -
  let ?step = "monitor_step ready pred taking loud silent"
  obtain s where s: "taking (shared d) s" using ok wait take_possible by (auto simp: awaited_def)
  have test: "\<exists>d'. ?step\<^sup>*\<^sup>* e d' \<and> reader d' = Away \<and> taking (shared d) (shared d')"
    if "reader e = Testing" "shared e = shared d" for e
    using mon_take [where d = e, of pred taking s ready loud silent] that s wait(2)
    by (intro exI [of _ "e\<lparr>shared := s, reader := Away\<rparr>"]) auto
  have woken: "\<exists>d'. ?step\<^sup>*\<^sup>* e d' \<and> reader d' = Away \<and> taking (shared d) (shared d')"
    if "reader e = Woken" "shared e = shared d" for e
    using test [of "e\<lparr>reader := Testing\<rparr>"] mon_lock [of e ready pred taking loud silent] that
    by (auto intro: converse_rtranclp_into_rtranclp)
  show ?thesis
  proof (cases "reader d")
    case Asleep
    then obtain n where "notices d = Suc n" using ok wait(2) by (auto simp: awaited_def gr0_conv_Suc)
    from mon_notify [where d = d, OF this, of ready pred taking loud silent] Asleep
    have "?step d (d\<lparr>notices := n, reader := Woken\<rparr>)" by simp
    with woken [of "d\<lparr>notices := n, reader := Woken\<rparr>"] show ?thesis
      by (auto intro: converse_rtranclp_into_rtranclp)
  qed (use ok wait test woken in \<open>auto simp: awaited_def\<close>)
qed

end

section \<open>The wait of dequeue\<close>

text \<open>
  The queue of a task: its queue thread is the reader; \<open>enqueue\<close> takes its block without the mutex
  and then inserts under it, and \<open>notify_shutdown\<close> sets the flag under it.
\<close>

inductive queue_loud :: "shared_queue \<Rightarrow> shared_queue \<Rightarrow> bool" where
  loud_insert: "(raw, m) \<in> set (sq_calls s) \<Longrightarrow> enqueue_insert (sq_queue s) raw m = Inr q \<Longrightarrow>
     queue_loud s \<lparr>sq_queue = q, sq_calls = remove1 (raw, m) (sq_calls s)\<rparr>"
| loud_shutdown: "queue_loud s (s\<lparr>sq_queue := notify_shutdown (sq_queue s)\<rparr>)"

inductive queue_silent :: "shared_queue \<Rightarrow> shared_queue \<Rightarrow> bool" where
  silent_alloc: "enqueue_alloc (sq_queue s) = Inr (raw, q) \<Longrightarrow>
     queue_silent s \<lparr>sq_queue = q, sq_calls = (raw, m) # sq_calls s\<rparr>"

inductive queue_taking :: "shared_queue \<Rightarrow> shared_queue \<Rightarrow> bool" where
  taking_dequeue: "dequeue (sq_queue s) = Inr (Returns (r, q)) \<Longrightarrow> queue_taking s (s\<lparr>sq_queue := q\<rparr>)"

definition queue_pred :: "shared_queue \<Rightarrow> bool" where
  "queue_pred s \<longleftrightarrow> wait_pred (sq_queue s)"

abbreviation queue_monitor_step :: "shared_queue monitor \<Rightarrow> shared_queue monitor \<Rightarrow> bool" where
  "queue_monitor_step \<equiv> monitor_step (\<lambda>_. True) queue_pred queue_taking queue_loud queue_silent"

lemma queue_loud_ok: "queue_loud s s' \<Longrightarrow> shared_ok s \<Longrightarrow> shared_ok s'"
  by (auto elim!: queue_loud.cases dest: queue_step_balanced [OF step_insert] queue_step_balanced [OF step_notify_shutdown]
      simp: balanced_def)

lemma queue_silent_ok: "queue_silent s s' \<Longrightarrow> shared_ok s \<Longrightarrow> shared_ok s'"
  by (auto elim!: queue_silent.cases intro: shared_ok_alloc(1))

lemma queue_silent_quiet: "queue_silent s s' \<Longrightarrow> queue_pred s' \<longleftrightarrow> queue_pred s"
  by (auto elim!: queue_silent.cases simp: queue_pred_def wait_pred_def enqueue_alloc_def res_bind_eq_Inr)

lemma queue_taking_possible: "shared_ok s \<Longrightarrow> queue_pred s \<Longrightarrow> \<exists>s'. queue_taking s s'"
proof -
  assume s: "shared_ok s" "queue_pred s"
  obtain r where r: "dequeue (sq_queue s) = Inr r" using dequeue_shared(1) [OF s(1)] by blast
  then have "r \<noteq> Blocks" using s(2) by (auto simp: queue_pred_def dequeue_def Let_def res_bind_eq_Inr split: if_splits)
  with r show ?thesis by (cases r) (auto intro: taking_dequeue)
qed

interpretation queue_wait: wait_loop shared_ok "\<lambda>_. True" queue_pred queue_taking queue_loud queue_silent
proof (unfold_locales, goal_cases)
  case (6 s s')
  then show ?case by (auto elim!: queue_taking.cases dest: dequeue_shared(2))
qed (auto dest: queue_silent_quiet queue_loud_ok queue_silent_ok queue_taking_possible)

section \<open>The wait of the logger's worker\<close>

inductive logger_loud :: "Logger \<Rightarrow> Logger \<Rightarrow> bool" where
  loud_log: "\<not> level < min_level L \<Longrightarrow> logger_loud L (Logger_log c tid level component msg L)"
| loud_stop: "logger_loud L (Logger_shutdown L)"

text \<open>Calls that do not notify: entries below the level and the settings.\<close>

inductive logger_setting :: "Logger \<Rightarrow> Logger \<Rightarrow> bool" where
  setting_log: "level < min_level L \<Longrightarrow> logger_setting L (Logger_log c tid level component msg L)"
| setting_level: "logger_setting L (set_level level L)"
| setting_relative: "logger_setting L (use_relative_timestamps enable L)"
| setting_sink: "logger_setting L (add_sink snk L)"

text \<open>The work of the worker outside the mutex: the entry it took is formatted and dispatched.\<close>

inductive logger_dispatch :: "Logger \<Rightarrow> Logger \<Rightarrow> bool" where
  dispatch_entry: "worker L = W_Dispatch e \<Longrightarrow> worker_step L = Returns L' \<Longrightarrow> logger_dispatch L L'"

definition logger_silent :: "Logger \<Rightarrow> Logger \<Rightarrow> bool" where
  "logger_silent L L' \<longleftrightarrow> logger_setting L L' \<or> logger_dispatch L L'"

lemma logger_silentE:
  assumes "logger_silent L L'"
  obtains "logger_setting L L'" | "logger_dispatch L L'"
  using assms by (auto simp: logger_silent_def)

inductive logger_taking :: "Logger \<Rightarrow> Logger \<Rightarrow> bool" where
  taking_entry: "worker L = W_Wait \<Longrightarrow> worker_step L = Returns L' \<Longrightarrow> logger_taking L L'"

definition worker_ready :: "Logger \<Rightarrow> bool" where
  "worker_ready L \<longleftrightarrow> worker L = W_Wait"

definition worker_pred :: "Logger \<Rightarrow> bool" where
  "worker_pred L \<longleftrightarrow> stopping L \<or> log_queue L \<noteq> []"

abbreviation logger_monitor_step :: "Logger monitor \<Rightarrow> Logger monitor \<Rightarrow> bool" where
  "logger_monitor_step \<equiv> monitor_step worker_ready worker_pred logger_taking logger_loud logger_silent"

interpretation worker_wait: wait_loop "\<lambda>_. True" worker_ready worker_pred logger_taking logger_loud logger_silent
proof (unfold_locales, goal_cases)
  case (1 s s')
  then show ?case
    by (auto elim!: logger_silentE logger_setting.cases logger_dispatch.cases simp: worker_pred_def Logger_log_def set_level_def use_relative_timestamps_def
        add_sink_def worker_step_def)
next
  case (4 s s')
  then show ?case by (auto elim!: logger_loud.cases simp: worker_ready_def Logger_log_def Logger_shutdown_def)
next
  case (5 s s')
  then show ?case
    by (auto elim!: logger_silentE logger_setting.cases logger_dispatch.cases simp: worker_ready_def Logger_log_def set_level_def use_relative_timestamps_def
        add_sink_def)
next
  case (7 s)
  then show ?case
    by (cases "stopping s \<and> log_queue s = []")
      (auto intro!: exI taking_entry simp: worker_ready_def worker_pred_def worker_step_def)
qed simp_all

section \<open>Properties\<close>

text \<open>A reader that goes to sleep before a change is announced.\<close>

lemma sleep_then_change:
  assumes "ready s" "\<not> pred s" "loud s s'"
  shows "(monitor_step ready pred taking loud silent)\<^sup>*\<^sup>* \<lparr>shared = s, reader = Away, notices = 0\<rparr>
    \<lparr>shared = s', reader = Asleep, notices = 1\<rparr>"
proof -
  let ?step = "monitor_step ready pred taking loud silent" and ?at = "\<lambda>pc. \<lparr>shared = s, reader = pc, notices = 0\<rparr>"
  have s1: "?step (?at Away) (?at Testing)"
    using mon_call [where d = "?at Away" and ready = ready and pred = pred] assms(1) by simp
  have s2: "?step (?at Testing) (?at Deciding)"
    using mon_refuse [where d = "?at Testing" and ready = ready and pred = pred] assms(2) by simp
  have s3: "?step (?at Deciding) (?at Asleep)"
    using mon_sleep [where d = "?at Deciding" and ready = ready and pred = pred] by simp
  have s4: "?step (?at Asleep) \<lparr>shared = s', reader = Asleep, notices = 1\<rparr>"
    using mon_loud [where d = "?at Asleep" and ready = ready and pred = pred and loud = loud, of s'] assms(3) by simp
  note run = converse_rtranclp_into_rtranclp [where r = ?step]
  show ?thesis by (rule run [OF s1 run [OF s2 run [OF s3 r_into_rtranclp [where r = ?step, OF s4]]]])
qed

text \<open>C12: The wake-up of a task is never lost. Start with a fresh queue, with aligned blocks
  that can hold a node, and let its reader call
  \<open>dequeue\<close> again and again while any number of other threads call \<open>enqueue\<close> and \<open>notify_shutdown\<close>,
  with the mutex taken and the notification sent where the code does it, and with spurious
  wake-ups. Whenever the reader sleeps although a message is pending or the shutdown flag is set, a
  call that has made its change is still about to notify; and a reader that waits while a message
  is pending or the flag is set can complete its \<open>dequeue\<close> on the queue as it is, without any
  further call.\<close>

theorem queue_reader_woken:
  assumes "pool_area base msg_size max_msgs" "node_size \<le> unat msg_size"
    and "MessageQueue_new base msg_size max_msgs = Inr q"
    and "queue_monitor_step\<^sup>*\<^sup>* \<lparr>shared = \<lparr>sq_queue = q, sq_calls = []\<rparr>, reader = Away, notices = 0\<rparr> d"
    and "wait_pred (sq_queue (shared d))"
  shows "(reader d = Asleep \<longrightarrow> 0 < notices d) \<and>
    (reader d \<noteq> Away \<longrightarrow> (\<exists>d' r. queue_monitor_step\<^sup>*\<^sup>* d d' \<and> reader d' = Away \<and>
       dequeue (sq_queue (shared d)) = Inr (Returns (r, sq_queue (shared d'))) \<and> sq_calls (shared d') = sq_calls (shared d)))"
proof -
  have "mq_wf q {}" using MessageQueue_new_wf [OF assms(1,2)] assms(3) by auto
  then have "queue_wait.awaited \<lparr>shared = \<lparr>sq_queue = q, sq_calls = []\<rparr>, reader = Away, notices = 0\<rparr>"
    by (simp add: queue_wait.awaited_def shared_ok_def)
  then have ok: "queue_wait.awaited d" by (rule queue_wait.awaited_run [OF assms(4)])
  have "queue_pred (shared d)" using assms(5) by (simp add: queue_pred_def)
  with ok queue_wait.awaited_completes [OF ok] show ?thesis
    by (fastforce simp: queue_wait.awaited_def elim!: queue_taking.cases)
qed

theorem queue_reader_woken_witness:
  "\<exists>q d r q'. MessageQueue_new 4096 56 2 = Inr q \<and>
     queue_monitor_step\<^sup>*\<^sup>* \<lparr>shared = \<lparr>sq_queue = q, sq_calls = []\<rparr>, reader = Away, notices = 0\<rparr> d \<and>
     reader d = Asleep \<and> 0 < notices d \<and> dequeue (sq_queue (shared d)) = Inr (Returns (r, q'))"
proof -
  have area: "pool_area 4096 56 2" "node_size \<le> unat (56 :: size_t)" by (simp_all add: pool_area_def ptr_aligned_def node_size_eq)
  obtain q where q: "MessageQueue_new 4096 56 2 = Inr q" "mq_queue q = []"
    using MessageQueue_new_wf [OF area] by blast
  have "\<not> mq_shutdown q" using q(1) by (auto simp: MessageQueue_new_def res_bind_eq_Inr)
  then have empty: "\<not> queue_pred \<lparr>sq_queue = q, sq_calls = []\<rparr>" using q(2) by (simp add: queue_pred_def wait_pred_def)
  let ?s = "\<lparr>sq_queue = q, sq_calls = []\<rparr>"
  let ?s' = "?s\<lparr>sq_queue := notify_shutdown (sq_queue ?s)\<rparr>"
  let ?d = "\<lparr>shared = ?s', reader = Asleep, notices = 1\<rparr>"
  have run: "queue_monitor_step\<^sup>*\<^sup>* \<lparr>shared = ?s, reader = Away, notices = 0\<rparr> ?d"
    by (rule sleep_then_change) (use empty loud_shutdown [of ?s] in simp_all)
  have "wait_pred (sq_queue (shared ?d))" by (simp add: wait_pred_def notify_shutdown_def)
  from queue_reader_woken [OF area q(1) run this] obtain r q' where
    "dequeue (sq_queue (shared ?d)) = Inr (Returns (r, q'))" "0 < notices ?d" by auto
  with q(1) run show ?thesis by (intro exI [of _ q] exI [of _ ?d] exI [of _ r] exI [of _ q']) simp
qed

text \<open>C13: The logger's worker is never left asleep: from a fresh logger, in every interleaving of the
  worker with logging calls, settings and the shutdown, with the mutex and the notifications where
  the code has them, a worker that sleeps although an entry is queued or the logger is stopping
  is about to be notified; and a worker that waits then can take the entry, or end, without any
  further call.\<close>

theorem logger_worker_woken:
  assumes "logger_monitor_step\<^sup>*\<^sup>* \<lparr>shared = Logger_new, reader = Away, notices = 0\<rparr> d"
    and "stopping (shared d) \<or> log_queue (shared d) \<noteq> []"
  shows "(reader d = Asleep \<longrightarrow> 0 < notices d) \<and>
    (reader d \<noteq> Away \<longrightarrow> (\<exists>d'. logger_monitor_step\<^sup>*\<^sup>* d d' \<and> reader d' = Away \<and>
       worker_step (shared d) = Returns (shared d')))"
proof -
  have "worker_wait.awaited \<lparr>shared = Logger_new, reader = Away, notices = 0\<rparr>" by (simp add: worker_wait.awaited_def)
  then have ok: "worker_wait.awaited d" by (rule worker_wait.awaited_run [OF assms(1)])
  have "worker_pred (shared d)" using assms(2) by (simp add: worker_pred_def)
  with ok worker_wait.awaited_completes [OF ok] show ?thesis
    by (fastforce simp: worker_wait.awaited_def elim!: logger_taking.cases)
qed

theorem logger_worker_woken_witness:
  "\<exists>d. logger_monitor_step\<^sup>*\<^sup>* \<lparr>shared = Logger_new, reader = Away, notices = 0\<rparr> d \<and> reader d = Asleep \<and>
     0 < notices d \<and> (\<exists>L. worker_step (shared d) = Returns L)"
proof -
  let ?d = "\<lparr>shared = Logger_shutdown Logger_new, reader = Asleep, notices = 1\<rparr>"
  have new: "worker_ready Logger_new" "\<not> worker_pred Logger_new"
    by (simp_all add: worker_ready_def worker_pred_def Logger_new_def)
  have run: "logger_monitor_step\<^sup>*\<^sup>* \<lparr>shared = Logger_new, reader = Away, notices = 0\<rparr> ?d"
    by (rule sleep_then_change) (use new loud_stop in simp_all)
  have "stopping (shared ?d) \<or> log_queue (shared ?d) \<noteq> []" by (simp add: Logger_shutdown_def)
  from logger_worker_woken [OF run this] obtain L where "worker_step (shared ?d) = Returns L" "0 < notices ?d" by auto
  with run show ?thesis by (intro exI [of _ ?d]) simp
qed

end
