(* ===== verification/Demand_Wait.thy ===== *)
theory Demand_Wait
  imports State_Manager
begin

text \<open>
  The wait of \<open>demand_state_transition\<close> for the acknowledgements, against the queue thread of the
  manager that handles them. The caller tests and goes to sleep under the state mutex; the handler
  stores, looks whether all tasks are in the target state and notifies without it. So a wake-up
  can be lost, but only if an acknowledgement is stored while the caller holds the mutex.
\<close>

section \<open>The caller and the handler\<close>

text \<open>The caller of \<^verbatim>\<open>wait_for\<close>: after a notification or a spurious wake-up it tests again, and
  after the timeout it returns what the test says then.\<close>

datatype caller_pc = Checking | Going_To_Sleep | Sleeping | Awake | Timed_Out | Returned bool

datatype handler_pc = Idle | Scanning | Notifying

record demand_wait =
  manager :: StateManager
  caller :: caller_pc
  handler_thread :: handler_pc
  acks :: "(ptr \<times> TaskState) list"

definition has_mutex :: "caller_pc \<Rightarrow> bool" where
  "has_mutex pc \<longleftrightarrow> pc = Checking \<or> pc = Going_To_Sleep"

definition store_state :: "ptr \<Rightarrow> TaskState \<Rightarrow> StateManager \<Rightarrow> StateManager" where
  "store_state a s sm = sm\<lparr>task_states := map_assign a s (task_states sm)\<rparr>"

text \<open>The steps of the caller in \<^verbatim>\<open>wait_for\<close> while the state \<open>s\<close> is demanded.\<close>

inductive caller_step :: "TaskState \<Rightarrow> demand_wait \<Rightarrow> demand_wait \<Rightarrow> bool" for s where
  caller_test: "caller d = Checking \<Longrightarrow>
     caller_step s d (d\<lparr>caller := if all_tasks_in_state (manager d) s then Returned True else Going_To_Sleep\<rparr>)"
| caller_block: "caller d = Going_To_Sleep \<Longrightarrow> caller_step s d (d\<lparr>caller := Sleeping\<rparr>)"
| caller_spurious: "caller d = Sleeping \<Longrightarrow> caller_step s d (d\<lparr>caller := Awake\<rparr>)"
| caller_lock: "caller d = Awake \<Longrightarrow> caller_step s d (d\<lparr>caller := Checking\<rparr>)"
| caller_timeout: "caller d = Sleeping \<Longrightarrow> caller_step s d (d\<lparr>caller := Timed_Out\<rparr>)"
| caller_expired: "caller d = Timed_Out \<Longrightarrow>
     caller_step s d (d\<lparr>caller := Returned (all_tasks_in_state (manager d) s)\<rparr>)"

text \<open>
  The steps of the handler: store the acknowledged state, look at all recorded states, notify.
  The acknowledgements in \<open>acks\<close> are of known senders.
\<close>

inductive handler_step :: "demand_wait \<Rightarrow> demand_wait \<Rightarrow> bool" where
  handler_store: "handler_thread d = Idle \<Longrightarrow> acks d = (a, x) # rest \<Longrightarrow>
     handler_step d (d\<lparr>manager := store_state a x (manager d), acks := rest, handler_thread := Scanning\<rparr>)"
| handler_scan: "handler_thread d = Scanning \<Longrightarrow> target_state (manager d) = Some target \<Longrightarrow>
     handler_step d (d\<lparr>handler_thread := if all_tasks_in_state (manager d) target then Notifying else Idle\<rparr>)"
| handler_notify: "handler_thread d = Notifying \<Longrightarrow>
     handler_step d (d\<lparr>handler_thread := Idle, caller := if caller d = Sleeping then Awake else caller d\<rparr>)"

text \<open>Registrations and marks of unresponsive tasks take the mutex and do not notify.\<close>

inductive record_step :: "demand_wait \<Rightarrow> demand_wait \<Rightarrow> bool" where
  record_store: "\<not> has_mutex (caller d) \<Longrightarrow> x = NOT_STARTED \<or> x = ERROR \<Longrightarrow>
     record_step d (d\<lparr>manager := store_state a x (manager d)\<rparr>)"

definition wait_step :: "TaskState \<Rightarrow> demand_wait \<Rightarrow> demand_wait \<Rightarrow> bool" where
  "wait_step s d d' \<longleftrightarrow> caller_step s d d' \<or> handler_step d d' \<or> record_step d d'"

lemma wait_stepI:
  "caller_step s d d' \<Longrightarrow> wait_step s d d'" "handler_step d d' \<Longrightarrow> wait_step s d d'"
  by (simp_all add: wait_step_def)

lemmas wait_test = caller_test [THEN wait_stepI(1)]
  and wait_block = caller_block [THEN wait_stepI(1)]
  and ack_store = handler_store [THEN wait_stepI(2)]
  and ack_scan = handler_scan [THEN wait_stepI(2)]
  and ack_notify = handler_notify [THEN wait_stepI(2)]

lemma wait_stepE:
  assumes "wait_step s d d'"
  obtains "caller_step s d d'" | "handler_step d d'" | "record_step d d'"
  using assms by (auto simp: wait_step_def)

inductive_cases caller_stepE: "caller_step s d d'"
inductive_cases handler_stepE: "handler_step d d'"
inductive_cases record_stepE: "record_step d d'"

lemmas wait_step_elims = wait_stepE caller_stepE handler_stepE record_stepE

text \<open>The three steps of the handler are what \<open>handle_acknowledgment\<close> does.\<close>

lemma handler_steps:
  assumes "tasks w p = Some t" "derived_part t = DerivedStateManager sm" "target_state sm = Some target"
    and "a \<noteq> nullptr" "map_find (task_states sm) a \<noteq> None" "tasks w a \<noteq> None" "\<forall>n. x \<noteq> Unenumerated n"
  shows "\<exists>notified w' t' sm'. handle_acknowledgment p (ack_msg a x) w = Inr (notified, w') \<and>
    tasks w' p = Some t' \<and> derived_part t' = DerivedStateManager sm' \<and>
    (wait_step s)\<^sup>*\<^sup>* \<lparr>manager = sm, caller = pc, handler_thread = Idle, acks = (a, x) # rest\<rparr>
      \<lparr>manager = sm', caller = if notified \<and> pc = Sleeping then Awake else pc, handler_thread = Idle, acks = rest\<rparr>"
proof -
  let ?sm = "store_state a x sm" and ?m = "ack_msg a x"
  let ?d = "\<lambda>sm pc h as. \<lparr>manager = sm, caller = pc, handler_thread = h, acks = as\<rparr>"
  obtain u where u: "tasks (put_sm p t ?sm w) a = Some u"
    using assms(6) by (cases "a = p") (auto simp: put_sm_def)
  have "list_ex (\<lambda>(task, s). task = a) (task_states sm)" using assms(5) by (simp add: known_sender_iff)
  moreover have "state_of_byte (byte_of_state x) = x" using assms(7) by simp
  ultimately have "\<exists>w'. handle_acknowledgment p ?m w = Inr (all_tasks_in_state ?sm target, w') \<and>
      tasks w' = tasks (put_sm p t ?sm w)"
    using assms(1-4) u unfolding handle_acknowledgment_def store_state_def
    by (simp add: Let_def get_data_as_def)
  then obtain w' where w': "handle_acknowledgment p ?m w = Inr (all_tasks_in_state ?sm target, w')"
    "tasks w' p = Some (t\<lparr>derived_part := DerivedStateManager ?sm\<rparr>)" by (auto simp: put_sm_def)
  have s1: "wait_step s (?d sm pc Idle ((a, x) # rest)) (?d ?sm pc Scanning rest)"
    using ack_store [of "?d sm pc Idle ((a, x) # rest)" a x rest s] by simp
  have target: "target_state ?sm = Some target" using assms(3) by (simp add: store_state_def)
  have s2: "wait_step s (?d ?sm pc Scanning rest)
      (?d ?sm pc (if all_tasks_in_state ?sm target then Notifying else Idle) rest)"
    using ack_scan [of "?d ?sm pc Scanning rest" target s] target by simp
  have s3: "wait_step s (?d ?sm pc Notifying rest) (?d ?sm (if pc = Sleeping then Awake else pc) Idle rest)"
    using ack_notify [of "?d ?sm pc Notifying rest" s] by (cases "pc = Sleeping") simp_all
  note run = converse_rtranclp_into_rtranclp [where r = "wait_step s"]
  have "(wait_step s)\<^sup>*\<^sup>* (?d sm pc Idle ((a, x) # rest))
      (?d ?sm (if all_tasks_in_state ?sm target \<and> pc = Sleeping then Awake else pc) Idle rest)"
  proof (cases "all_tasks_in_state ?sm target")
    case True
    with s2 have s2': "wait_step s (?d ?sm pc Scanning rest) (?d ?sm pc Notifying rest)" by simp
    from run [OF s1 run [OF s2' r_into_rtranclp [where r = "wait_step s", OF s3]]] True show ?thesis by simp
  next
    case False
    with run [OF s1 run [OF s2]] show ?thesis by auto
  qed
  with w' show ?thesis by auto
qed

section \<open>When the wake-up arrives\<close>

text \<open>Steps in which no acknowledgement is stored while the caller has the mutex.\<close>

definition timely_step :: "TaskState \<Rightarrow> demand_wait \<Rightarrow> demand_wait \<Rightarrow> bool" where
  "timely_step s d d' \<longleftrightarrow> wait_step s d d' \<and> (acks d' \<noteq> acks d \<longrightarrow> \<not> has_mutex (caller d))"

definition wake_pending :: "TaskState \<Rightarrow> demand_wait \<Rightarrow> bool" where
  "wake_pending s d \<longleftrightarrow> target_state (manager d) = Some s \<and>
     (caller d = Going_To_Sleep \<longrightarrow> \<not> all_tasks_in_state (manager d) s) \<and>
     (caller d = Sleeping \<longrightarrow> all_tasks_in_state (manager d) s \<longrightarrow> handler_thread d \<noteq> Idle)"

lemma in_map_assign: "(k, v) \<in> set (map_assign k v m)"
  by (induction k v m rule: map_assign.induct) auto

lemma stored_not_all: "x \<noteq> s \<Longrightarrow> \<not> all_tasks_in_state (store_state a x sm) s"
  using in_map_assign [of a x "task_states sm"] by (force simp: all_tasks_in_state_def store_state_def list_all_iff)

lemma store_state_target [simp]: "target_state (store_state a x sm) = target_state sm"
  by (simp add: store_state_def)

lemma wake_pending_step:
  assumes "timely_step s d d'" "s \<noteq> NOT_STARTED" "s \<noteq> ERROR" "wake_pending s d"
  shows "wake_pending s d'"
proof -
  have "wait_step s d d'" using assms(1) by (simp add: timely_step_def)
  then show ?thesis
  proof (cases rule: wait_stepE)
    case 1
    with assms(4) show ?thesis by (auto simp: wake_pending_def elim!: caller_stepE)
  next
    case 2
    with assms show ?thesis
      by (auto simp: wake_pending_def timely_step_def has_mutex_def elim!: handler_stepE split: if_splits)
  next
    case 3
    then obtain a x where x: "\<not> has_mutex (caller d)" "x = NOT_STARTED \<or> x = ERROR"
      "d' = d\<lparr>manager := store_state a x (manager d)\<rparr>" by (elim record_stepE) blast
    from x(2) assms(2,3) have "x \<noteq> s" by auto
    with x assms(4) stored_not_all show ?thesis by (simp add: wake_pending_def has_mutex_def)
  qed
qed

text \<open>
  A demand of a state that no registration or mark records: while no acknowledgement is stored
  under the caller's nose, a caller that sleeps although all tasks are in the demanded state is about
  to be notified.
\<close>

lemma timely_acknowledgments_wake:
  assumes "(timely_step s)\<^sup>*\<^sup>* \<lparr>manager = sm, caller = Checking, handler_thread = Idle, acks = as\<rparr> d"
    and "target_state sm = Some s" "s \<noteq> NOT_STARTED" "s \<noteq> ERROR"
    and "caller d = Sleeping" "all_tasks_in_state (manager d) s"
  shows "handler_thread d \<noteq> Idle"
proof -
  have "wake_pending s d"
    using assms(1) by (induction rule: rtranclp_induct)
      (use assms(2-4) wake_pending_step in \<open>auto simp: wake_pending_def [of s "\<lparr>manager = sm, caller = Checking, handler_thread = Idle, acks = as\<rparr>"]\<close>)
  with assms(5,6) show ?thesis by (simp add: wake_pending_def)
qed

section \<open>When it is lost\<close>

text \<open>C35: The wake-up of a demanded transition can be lost. Take any manager with a demanded state in
  which all tasks but one are: the caller tests and finds the one task missing; before it sleeps,
  the handler, which does not take the mutex, stores the acknowledgement of that task, finds all
  tasks in the target state and notifies nobody. The caller then sleeps although all tasks are in
  the demanded state, no acknowledgement is left, and nothing wakes it but its timeout or a
  spurious wake-up. Then it returns true.\<close>

theorem acknowledgment_wakeup_lost:
  assumes "target_state sm = Some s" "\<not> all_tasks_in_state sm s" "all_tasks_in_state (store_state a s sm) s"
  shows "\<exists>d. (wait_step s)\<^sup>*\<^sup>* \<lparr>manager = sm, caller = Checking, handler_thread = Idle, acks = [(a, s)]\<rparr> d \<and>
    caller d = Sleeping \<and> handler_thread d = Idle \<and> acks d = [] \<and> all_tasks_in_state (manager d) s \<and>
    (\<forall>d'. wait_step s d d' \<longrightarrow> caller d' = Sleeping \<or> d' = d\<lparr>caller := Awake\<rparr> \<or> d' = d\<lparr>caller := Timed_Out\<rparr>) \<and>
    (\<forall>d'. wait_step s (d\<lparr>caller := Timed_Out\<rparr>) d' \<longrightarrow> caller d' \<in> {Timed_Out, Returned True})"
proof -
  let ?d = "\<lambda>sm pc h as. \<lparr>manager = sm, caller = pc, handler_thread = h, acks = as\<rparr>"
  let ?sm = "store_state a s sm" and ?as = "[(a, s)]"
  let ?last = "?d ?sm Sleeping Idle []"
  have s1: "wait_step s (?d sm Checking Idle ?as) (?d sm Going_To_Sleep Idle ?as)"
    using wait_test [of "?d sm Checking Idle ?as" s] assms(2) by simp
  have s2: "wait_step s (?d sm Going_To_Sleep Idle ?as) (?d ?sm Going_To_Sleep Scanning [])"
    using ack_store [of "?d sm Going_To_Sleep Idle ?as" a s "[]" s] by simp
  have s3: "wait_step s (?d ?sm Going_To_Sleep Scanning []) (?d ?sm Going_To_Sleep Notifying [])"
    using ack_scan [of "?d ?sm Going_To_Sleep Scanning []" s s] assms(1,3) by simp
  have s4: "wait_step s (?d ?sm Going_To_Sleep Notifying []) (?d ?sm Going_To_Sleep Idle [])"
    using ack_notify [of "?d ?sm Going_To_Sleep Notifying []" s] by simp
  have s5: "wait_step s (?d ?sm Going_To_Sleep Idle []) ?last"
    using wait_block [of "?d ?sm Going_To_Sleep Idle []" s] by simp
  note run = converse_rtranclp_into_rtranclp [where r = "wait_step s"]
  have "(wait_step s)\<^sup>*\<^sup>* (?d sm Checking Idle ?as) ?last"
    by (rule run [OF s1 run [OF s2 run [OF s3 run [OF s4 r_into_rtranclp [where r = "wait_step s", OF s5]]]]])
  moreover have "caller d' = Sleeping \<or> d' = ?last\<lparr>caller := Awake\<rparr> \<or> d' = ?last\<lparr>caller := Timed_Out\<rparr>"
    if "wait_step s ?last d'" for d' using that by (elim wait_step_elims) simp_all
  moreover have "caller d' \<in> {Timed_Out, Returned True}"
    if "wait_step s (?last\<lparr>caller := Timed_Out\<rparr>) d'" for d' using that assms(3) by (elim wait_step_elims) simp_all
  ultimately show ?thesis using assms(3) by (intro exI [of _ ?last]) auto
qed

theorem acknowledgment_wakeup_lost_witness:
  "\<exists>d. (wait_step RUNNING)\<^sup>*\<^sup>*
     \<lparr>manager = StateManager_new\<lparr>task_states := [(8, IDLE), (16, RUNNING)], target_state := Some RUNNING\<rparr>,
      caller = Checking, handler_thread = Idle, acks = [(8, RUNNING)]\<rparr> d \<and>
     caller d = Sleeping \<and> handler_thread d = Idle \<and> acks d = [] \<and> all_tasks_in_state (manager d) RUNNING"
proof -
  let ?sm = "StateManager_new\<lparr>task_states := [(8, IDLE), (16, RUNNING)], target_state := Some RUNNING\<rparr>"
  have "target_state ?sm = Some RUNNING" "\<not> all_tasks_in_state ?sm RUNNING"
    "all_tasks_in_state (store_state 8 RUNNING ?sm) RUNNING"
    by (simp_all add: all_tasks_in_state_def store_state_def)
  from acknowledgment_wakeup_lost [OF this] show ?thesis by blast
qed

end
